(* ===== verification/Prelude.thy ===== *)
theory Prelude
  imports Main "HOL-Library.Word"
begin

text \<open>
  Shared ground of the development: the widths of the C integers, the faults a C
  expression can run into, the sequencing of computations that can fault, byte
  buffers with bounds-checked reads and writes, and the generic facts on lists and
  words that the component theories use.
\<close>

unbundle bit_operations_syntax

named_theorems res_simps \<open>evaluation of faulting computations\<close>

section \<open>Machine integers\<close>

type_synonym u8 = "8 word"
type_synonym u16 = "16 word"
type_synonym u32 = "32 word"

section \<open>Faults and results\<close>

text \<open>
  A C function of this program either returns a value or has no defined outcome.
  The second case is kept as a value: a division by zero, an access outside the
  bytes a pointer may reach, a loop that never exits, or an external call (a write to a
  file, an allocation) after which the process exits with an error.
\<close>

datatype fault = Div_By_Zero | Out_Of_Bounds | Diverges | Io_Error

type_synonym 'a res = "fault + 'a"

definition bindE :: "'a res \<Rightarrow> ('a \<Rightarrow> 'b res) \<Rightarrow> 'b res" where
  "bindE m f = (case m of Inl e \<Rightarrow> Inl e | Inr x \<Rightarrow> f x)"

lemma bindE_Inl [simp, res_simps]: "bindE (Inl e) f = Inl e"
  by (simp add: bindE_def)

lemma bindE_Inr [simp, res_simps]: "bindE (Inr x) f = f x"
  by (simp add: bindE_def)

lemma bindE_assoc [res_simps]: "bindE (bindE m f) g = bindE m (\<lambda>x. bindE (f x) g)"
  by (cases m) simp_all

lemma bindE_return [simp]: "bindE m Inr = m"
  by (cases m) simp_all

lemma bindE_eq_Inr: "bindE m f = Inr y \<longleftrightarrow> (\<exists>x. m = Inr x \<and> f x = Inr y)"
  by (cases m) simp_all

lemma bindE_eq_Inl: "bindE m f = Inl e \<longleftrightarrow> m = Inl e \<or> (\<exists>x. m = Inr x \<and> f x = Inl e)"
  by (cases m) simp_all

lemma bindE_cong [fundef_cong]:
  "m = m' \<Longrightarrow> (\<And>x. m' = Inr x \<Longrightarrow> f x = g x) \<Longrightarrow> bindE m f = bindE m' g"
  by (cases m') simp_all

text \<open>A loop over the elements of a list that stops at the first fault.\<close>

fun foldE :: "('w \<Rightarrow> 'a \<Rightarrow> 'w res) \<Rightarrow> 'w \<Rightarrow> 'a list \<Rightarrow> 'w res" where
  "foldE f w [] = Inr w"
| "foldE f w (x # xs) = bindE (f w x) (\<lambda>w'. foldE f w' xs)"

lemma foldE_append: "foldE f w (xs @ ys) = bindE (foldE f w xs) (\<lambda>w'. foldE f w' ys)"
  by (induction xs arbitrary: w) (simp_all add: bindE_assoc)

lemma foldE_map: "foldE f w (map g xs) = foldE (\<lambda>w x. f w (g x)) w xs"
  by (induction xs arbitrary: w) simp_all

lemma foldE_cong [fundef_cong]:
  "(\<And>w x. x \<in> set xs \<Longrightarrow> f w x = g w x) \<Longrightarrow> foldE f w xs = foldE g w xs"
  by (induction xs arbitrary: w) (auto intro: bindE_cong)

section \<open>Byte buffers\<close>

text \<open>
  A buffer is the list of the bytes a pointer may reach. \<open>mem_read\<close> and
  \<open>mem_write\<close> are the two sides of \<open>memcpy\<close>.
\<close>

definition mem_read :: "u8 list \<Rightarrow> nat \<Rightarrow> nat \<Rightarrow> u8 list res" where
  "mem_read m p n =
     (if p + n \<le> length m then Inr (take n (drop p m)) else Inl Out_Of_Bounds)"

definition mem_write :: "u8 list \<Rightarrow> nat \<Rightarrow> u8 list \<Rightarrow> u8 list res" where
  "mem_write m p d =
     (if p + length d \<le> length m then Inr (take p m @ d @ drop (p + length d) m)
      else Inl Out_Of_Bounds)"

lemma mem_read_ok [simp, res_simps]:
  "p + n \<le> length m \<Longrightarrow> mem_read m p n = Inr (take n (drop p m))"
  by (simp add: mem_read_def)

lemma mem_read_length: "mem_read m p n = Inr d \<Longrightarrow> length d = n"
  by (auto simp: mem_read_def split: if_splits)

lemma mem_write_ok [simp, res_simps]:
  "p + length d \<le> length m \<Longrightarrow> mem_write m p d = Inr (take p m @ d @ drop (p + length d) m)"
  by (simp add: mem_write_def)

lemma mem_write_length: "mem_write m p d = Inr m' \<Longrightarrow> length m' = length m"
  by (auto simp: mem_write_def split: if_splits)

text \<open>What a written buffer holds: the new bytes in place, everything else as before.\<close>

lemma mem_write_same: "mem_write m p d = Inr m' \<Longrightarrow> take (length d) (drop p m') = d"
  by (auto simp: mem_write_def split: if_splits)

lemma mem_write_before:
  assumes "mem_write m p d = Inr m'" and "q + k \<le> p"
  shows "take k (drop q m') = take k (drop q m)"
  using assms by (auto simp: mem_write_def take_drop min_def split: if_splits)

lemma mem_write_after:
  assumes "mem_write m p d = Inr m'" and "p + length d \<le> q"
  shows "drop q m' = drop q m"
proof -
  have "q = (q - (p + length d)) + (p + length d)" using assms(2) by simp
  then show ?thesis
    using assms by (auto simp: mem_write_def min_def split: if_splits)
qed

lemma take_written:
  assumes "q + f \<le> length m"
  shows "take (f + length d) (drop q (take (q + f) m @ d @ r)) = take f (drop q m) @ d"
proof -
  have len: "length (take f (drop q m)) = f" using assms by simp
  have "drop q (take (q + f) m @ d @ r) = take f (drop q m) @ d @ r"
    using assms by (simp add: drop_take)
  then show ?thesis by (simp only: take_append len) simp
qed

section \<open>Cutting a byte list into slices\<close>

text \<open>
  The full slices of \<open>m\<close> bytes at the front of a list, and what is left behind them.
\<close>

function full_slices :: "nat \<Rightarrow> 'a list \<Rightarrow> 'a list list" where
  "full_slices m xs =
     (if 0 < m \<and> m \<le> length xs then take m xs # full_slices m (drop m xs) else [])"
  by pat_completeness auto
termination by (relation "measure (\<lambda>(m, xs). length xs)") auto

declare full_slices.simps [simp del]

definition slice_rest :: "nat \<Rightarrow> 'a list \<Rightarrow> 'a list" where
  "slice_rest m xs = drop (length xs div m * m) xs"

lemma full_slices_short [simp]: "length xs < m \<Longrightarrow> full_slices m xs = []"
  by (subst full_slices.simps) simp

lemma slice_rest_short [simp]: "length xs < m \<Longrightarrow> slice_rest m xs = xs"
  by (simp add: slice_rest_def)

lemma full_slices_long:
  "0 < m \<Longrightarrow> m \<le> length xs \<Longrightarrow> full_slices m xs = take m xs # full_slices m (drop m xs)"
  by (subst full_slices.simps) simp

lemma slice_rest_long:
  assumes "0 < m" and "m \<le> length xs"
  shows "slice_rest m xs = slice_rest m (drop m xs)"
proof -
  have "length xs div m = Suc ((length xs - m) div m)"
    using assms by (simp add: le_div_geq)
  then show ?thesis by (simp add: slice_rest_def add.commute)
qed

lemma length_slice_rest: "length (slice_rest m xs) = length xs mod m"
  by (simp add: slice_rest_def minus_div_mult_eq_mod)

lemma length_full_slices: "0 < m \<Longrightarrow> length (full_slices m xs) = length xs div m"
proof (induction m xs rule: full_slices.induct)
  case (1 m xs)
  then show ?case by (cases "m \<le> length xs") (auto simp: full_slices_long le_div_geq)
qed

lemma full_slices_append:
  "0 < m \<Longrightarrow> full_slices m (xs @ ys) = full_slices m xs @ full_slices m (slice_rest m xs @ ys)"
proof (induction m xs rule: full_slices.induct)
  case (1 m xs)
  then show ?case
    by (cases "m \<le> length xs") (auto simp: full_slices_long slice_rest_long)
qed

lemma length_append_div:
  assumes "0 < m"
  shows "length (xs @ ys) div m = length xs div m + length (slice_rest m xs @ ys) div m"
  using arg_cong [OF full_slices_append [OF assms, of xs ys], of length] assms
  by (simp add: length_full_slices)

lemma slice_rest_append:
  "0 < m \<Longrightarrow> slice_rest m (xs @ ys) = slice_rest m (slice_rest m xs @ ys)"
proof (induction m xs rule: full_slices.induct)
  case (1 m xs)
  then show ?case
    by (cases "m \<le> length xs") (auto simp: slice_rest_long)
qed

lemma full_slices_first:
  assumes "length h = m" and "0 < m"
  shows "full_slices m (h @ t) = h # full_slices m t"
    and "slice_rest m (h @ t) = slice_rest m t"
    and "length (h @ t) div m = Suc (length t div m)"
  using assms by (auto simp: full_slices_long slice_rest_long div_add_self1)

lemma slice_rest_dvd [simp]: "m dvd length xs \<Longrightarrow> slice_rest m xs = []"
  by (simp add: slice_rest_def)

lemma full_slices_snoc:
  "0 < m \<Longrightarrow> m dvd length xs \<Longrightarrow> length f = m \<Longrightarrow> full_slices m (xs @ f) = full_slices m xs @ [f]"
  using full_slices_first [of f m "[]"] by (simp add: full_slices_append)

lemma concat_full_slices: "0 < m \<Longrightarrow> concat (full_slices m xs) @ slice_rest m xs = xs"
proof (induction m xs rule: full_slices.induct)
  case (1 m xs)
  then show ?case
    by (cases "m \<le> length xs") (auto simp: full_slices_long slice_rest_long)
qed

lemma full_slices_concat:
  "0 < m \<Longrightarrow> list_all (\<lambda>f. length f = m) fs \<Longrightarrow> full_slices m (concat fs) = fs"
  by (induction fs) (simp_all add: full_slices_first)

lemma full_slices_nth:
  "0 < m \<Longrightarrow> j < length xs div m \<Longrightarrow> full_slices m xs ! j = take m (drop (j * m) xs)"
proof (induction m xs arbitrary: j rule: full_slices.induct)
  case (1 m xs)
  then have len: "m \<le> length xs" by (metis div_less less_nat_zero_code not_le_imp_less)
  then show ?case
    using 1 by (cases j) (auto simp: full_slices_long le_div_geq add.commute)
qed

lemma drop_take_split:
  assumes "p + n \<le> k"
  shows "drop p (take k xs) = take n (drop p xs) @ drop (p + n) (take k xs)"
proof -
  have "k - p = n + (k - (p + n))" using assms by simp
  then show ?thesis by (metis drop_take take_add drop_drop add.commute)
qed

section \<open>Words and naturals\<close>

lemma unat_u8_less [simp]: "unat (x :: u8) < 256"
  using unsigned_less [of x, where ?'a = nat] by simp

lemma unat_u16_less [simp]: "unat (x :: u16) < 65536"
  using unsigned_less [of x, where ?'a = nat] by simp

lemma unat_ucast_8_16 [simp]: "unat (ucast (x :: u8) :: u16) = unat x"
  by (simp add: unsigned_ucast_eq take_bit_nat_eq_self_iff less_trans [OF unat_u8_less])

lemma unat_ucast_16_32 [simp]: "unat (ucast (x :: u16) :: u32) = unat x"
  by (simp add: unsigned_ucast_eq take_bit_nat_eq_self_iff less_trans [OF unat_u16_less])

lemma unat_ucast_8_32 [simp]: "unat (ucast (x :: u8) :: u32) = unat x"
  by (simp add: unsigned_ucast_eq take_bit_nat_eq_self_iff less_trans [OF unat_u8_less])

lemma unat_u16_to_u8: "unat (ucast (x :: u16) :: u8) = unat x mod 256"
  by (simp add: unsigned_ucast_eq take_bit_eq_mod)

lemma unat_u32_to_u16: "unat (ucast (x :: u32) :: u16) = unat x mod 65536"
  by (simp add: unsigned_ucast_eq take_bit_eq_mod)

lemma u16_eq_iff: "(x :: u16) = y \<longleftrightarrow> unat x = unat y"
  by (simp add: word_unat_eq_iff)

lemma unat_u16_add: "unat (x + y :: u16) = (unat x + unat y) mod 65536"
  by (simp add: unat_word_ariths)

lemma unat_u16_mult: "unat (x * y :: u16) = (unat x * unat y) mod 65536"
  by (simp add: unat_word_ariths)

lemma unat_u16_of_nat: "unat (of_nat n :: u16) = n mod 65536"
  by (simp add: unat_of_nat take_bit_eq_mod)

lemma unat_u8_of_nat: "unat (of_nat n :: u8) = n mod 256"
  by (simp add: unat_of_nat take_bit_eq_mod)

lemma unat_u16_of_int:
  assumes "0 \<le> x" and "x < 65536"
  shows "unat (of_int x :: u16) = nat x"
proof -
  have "(of_int x :: u16) = of_nat (nat x)" using assms by simp
  then show ?thesis using assms by (simp only: unat_u16_of_nat) simp
qed

section \<open>Little-endian integers in memory\<close>

definition u16_bytes :: "u16 \<Rightarrow> u8 list" where
  "u16_bytes x = [ucast x, ucast (drop_bit 8 x)]"

definition bytes_u16 :: "u8 list \<Rightarrow> u16" where
  "bytes_u16 bs = ucast (bs ! 0) OR push_bit 8 (ucast (bs ! 1))"

definition u32_bytes :: "u32 \<Rightarrow> u8 list" where
  "u32_bytes x = u16_bytes (ucast x) @ u16_bytes (ucast (drop_bit 16 x))"

definition bytes_u32 :: "u8 list \<Rightarrow> u32" where
  "bytes_u32 bs = ucast (bytes_u16 (take 2 bs)) OR push_bit 16 (ucast (bytes_u16 (drop 2 bs)))"

lemma length_int_bytes [simp]: "length (u16_bytes x) = 2" "length (u32_bytes y) = 4"
  by (simp_all add: u16_bytes_def u32_bytes_def)

lemma bytes_u16_bytes [simp]: "bytes_u16 (u16_bytes x) = x"
proof (rule bit_word_eqI)
  fix n assume "n < LENGTH(16)"
  then consider "n < 8" | "n = 8 + (n - 8)" "n - 8 < 8" by force
  then show "bit (bytes_u16 (u16_bytes x)) n = bit x n"
    by cases (auto simp: bytes_u16_def u16_bytes_def bit_simps)
qed

lemma bytes_u32_bytes [simp]: "bytes_u32 (u32_bytes x) = x"
proof (rule bit_word_eqI)
  fix n assume "n < LENGTH(32)"
  then consider "n < 16" | "n = 16 + (n - 16)" "n - 16 < 16" by force
  moreover have "take 2 (u32_bytes x) = u16_bytes (ucast x)"
      "drop 2 (u32_bytes x) = u16_bytes (ucast (drop_bit 16 x))"
    by (simp_all add: u32_bytes_def)
  ultimately show "bit (bytes_u32 (u32_bytes x)) n = bit x n"
    by cases (auto simp: bytes_u32_def bit_simps)
qed

text \<open>An array of 32-bit integers.\<close>

lemma full_slices_u32_bytes:
  "full_slices 4 (concat (map u32_bytes ws)) = map u32_bytes ws"
  by (induction ws) (simp_all add: full_slices_first)

end
