(* ===== verification/Common.thy ===== *)
theory Common
  imports Prelude
begin

text \<open>
  \<^bold>\<open>src/core/customdata-common.h\<close>: the configuration, the coordinate and the
  header of the protocol, the packed 32-bit form of the header and its four bytes on the
  wire, and the arithmetic between slice numbers and byte offsets. Fields that two
  structs of the source share carry a prefix here (\<open>hdr_\<close>, \<open>coord_\<close>).
\<close>

section \<open>Data model\<close>

record mp_config =
  transmission_unit :: u16

record mp_coordinate =
  coord_sender_id :: u8
  coord_package_id :: u8
  coord_offset :: u16

record mp_header_meta =
  package_serial :: u8
  slice_serial :: u8
  hdr_sender_id :: u8
  eop :: u8
  slice_payload_size :: u16

definition MP_SENDER_ID_BITS :: nat where "MP_SENDER_ID_BITS = 3"
definition MP_PACKAGE_ID_BITS :: nat where "MP_PACKAGE_ID_BITS = 8"
definition MP_SLICE_ID_BITS :: nat where "MP_SLICE_ID_BITS = 8"
definition MP_EOP_BITS :: nat where "MP_EOP_BITS = 1"
definition MP_SLICE_PAYLOAD_SIZE_BITS :: nat where "MP_SLICE_PAYLOAD_SIZE_BITS = 12"

definition MP_SENDER_ID_MAX :: nat where "MP_SENDER_ID_MAX = 2 ^ MP_SENDER_ID_BITS - 1"
definition MP_PACKAGE_ID_MAX :: nat where "MP_PACKAGE_ID_MAX = 2 ^ MP_PACKAGE_ID_BITS - 1"
definition MP_SLICE_ID_MAX :: nat where "MP_SLICE_ID_MAX = 2 ^ MP_SLICE_ID_BITS - 1"

lemma MP_MAX_values [simp]: "MP_SENDER_ID_MAX = 7" "MP_PACKAGE_ID_MAX = 255" "MP_SLICE_ID_MAX = 255"
  by (simp_all add: MP_SENDER_ID_MAX_def MP_PACKAGE_ID_MAX_def MP_SLICE_ID_MAX_def
      MP_SENDER_ID_BITS_def MP_PACKAGE_ID_BITS_def MP_SLICE_ID_BITS_def)

text \<open>\<open>sizeof(mp_header_packed_t)\<close>, the size of a \<open>uint32_t\<close>.\<close>

definition MP_HEADER_SIZE :: nat where "MP_HEADER_SIZE = 4"

section \<open>Packing and unpacking the header\<close>

definition mp_header_pack :: "mp_header_meta \<Rightarrow> u32" where
  "mp_header_pack meta =
     push_bit 0 (ucast (package_serial meta)) OR
     push_bit 8 (ucast (slice_serial meta)) OR
     push_bit 16 (ucast (hdr_sender_id meta AND 0x07)) OR
     push_bit 19 (if eop meta = 1 then 1 else 0) OR
     push_bit 20 (ucast (slice_payload_size meta AND 0x0fff))"

definition mp_header_unpack :: "u32 \<Rightarrow> mp_header_meta" where
  "mp_header_unpack packed =
     \<lparr> package_serial = ucast (packed AND 0xff),
       slice_serial = ucast (drop_bit 8 packed AND 0xff),
       hdr_sender_id = ucast (drop_bit 16 packed AND 0x07),
       eop = ucast (drop_bit 19 packed AND 0x01),
       slice_payload_size = ucast (drop_bit 20 packed AND 0x0fff) \<rparr>"

definition mp_header_equals :: "mp_header_meta \<Rightarrow> mp_header_meta \<Rightarrow> bool" where
  "mp_header_equals a b \<longleftrightarrow>
     package_serial a = package_serial b \<and>
     slice_serial a = slice_serial b \<and>
     hdr_sender_id a = hdr_sender_id b \<and>
     eop a = eop b \<and>
     slice_payload_size a = slice_payload_size b"

definition MP_PACKED_HEADER_TO_ARRAY :: "u32 \<Rightarrow> u8 list" where
  "MP_PACKED_HEADER_TO_ARRAY packed =
     [ucast (drop_bit 0 packed), ucast (drop_bit 8 packed),
      ucast (drop_bit 16 packed), ucast (drop_bit 24 packed)]"

definition MP_ARRAY_TO_PACKED_HEADER :: "u8 list \<Rightarrow> u32" where
  "MP_ARRAY_TO_PACKED_HEADER arr =
     push_bit 0 (ucast (arr ! 0)) OR push_bit 8 (ucast (arr ! 1)) OR
     push_bit 16 (ucast (arr ! 2)) OR push_bit 24 (ucast (arr ! 3))"

text \<open>
  The headers that survive the packed form: three bits of sender, one bit of end mark,
  twelve bits of payload size.
\<close>

definition header_wf :: "mp_header_meta \<Rightarrow> bool" where
  "header_wf m \<longleftrightarrow> hdr_sender_id m < 8 \<and> eop m \<le> 1 \<and> slice_payload_size m < 4096"

text \<open>What the packed form keeps of a header.\<close>

definition header_truncate :: "mp_header_meta \<Rightarrow> mp_header_meta" where
  "header_truncate m = m\<lparr> hdr_sender_id := hdr_sender_id m AND 0x07,
     eop := (if eop m = 1 then 1 else 0),
     slice_payload_size := slice_payload_size m AND 0x0fff \<rparr>"

lemma field_masks:
  "(0xff :: 'a::len word) = mask 8" "(0x07 :: 'a::len word) = mask 3"
  "(0x0fff :: 'a::len word) = mask 12"
  by (simp_all add: mask_eq_exp_minus_1)

lemma header_wf_masks:
  assumes "header_wf m"
  shows "hdr_sender_id m AND mask 3 = hdr_sender_id m"
    and "slice_payload_size m AND mask 12 = slice_payload_size m"
    and "eop m = 0 \<or> eop m = 1"
proof -
  show "hdr_sender_id m AND mask 3 = hdr_sender_id m"
    using assms by (simp add: header_wf_def mask_eq_iff_w2p word_size)
  show "slice_payload_size m AND mask 12 = slice_payload_size m"
    using assms by (simp add: header_wf_def mask_eq_iff_w2p word_size)
  have "unat (eop m) \<le> 1" using assms by (simp add: header_wf_def word_le_nat_alt)
  then show "eop m = 0 \<or> eop m = 1"
    by (metis le_Suc_eq One_nat_def le_zero_eq unat_1 unat_eq_zero word_unat_eq_iff)
qed

lemma header_truncate_wf: "header_wf m \<Longrightarrow> header_truncate m = m"
  using header_wf_masks [of m] by (auto simp: header_truncate_def field_masks)

lemma header_wf_truncate: "header_wf (header_truncate m)"
  using and_mask_less' [of 3 "hdr_sender_id m"] and_mask_less' [of 12 "slice_payload_size m"]
  by (auto simp: header_wf_def header_truncate_def field_masks)

text \<open>The packed header and the header fields, bit by bit.\<close>

lemma bit_mp_header_pack:
  "bit (mp_header_pack m) n \<longleftrightarrow>
     (n < 8 \<and> bit (package_serial m) n) \<or>
     (8 \<le> n \<and> n < 16 \<and> bit (slice_serial m) (n - 8)) \<or>
     (16 \<le> n \<and> n < 19 \<and> bit (hdr_sender_id m) (n - 16)) \<or>
     (n = 19 \<and> eop m = 1) \<or>
     (20 \<le> n \<and> n < 32 \<and> bit (slice_payload_size m) (n - 20))"
proof -
  have 1: "bit (push_bit 0 (ucast (package_serial m)) :: u32) n
      \<longleftrightarrow> n < 8 \<and> bit (package_serial m) n"
    by (auto simp: bit_simps dest: bit_imp_le_length)
  have 2: "bit (push_bit 8 (ucast (slice_serial m)) :: u32) n
      \<longleftrightarrow> 8 \<le> n \<and> n < 16 \<and> bit (slice_serial m) (n - 8)"
    by (auto simp: bit_simps dest: bit_imp_le_length)
  have 3: "bit (push_bit 16 (ucast (hdr_sender_id m AND 7)) :: u32) n
      \<longleftrightarrow> 16 \<le> n \<and> n < 19 \<and> bit (hdr_sender_id m) (n - 16)"
    by (auto simp: bit_simps field_masks)
  have 4: "bit (push_bit 19 (if eop m = 1 then 1 else 0) :: u32) n \<longleftrightarrow> n = 19 \<and> eop m = 1"
    by (auto simp: bit_simps)
  have 5: "bit (push_bit 20 (ucast (slice_payload_size m AND 0xfff)) :: u32) n
      \<longleftrightarrow> 20 \<le> n \<and> n < 32 \<and> bit (slice_payload_size m) (n - 20)"
    by (auto simp: bit_simps field_masks)
  show ?thesis
    unfolding mp_header_pack_def bit_or_iff 1 2 3 4 5 by blast
qed

lemma eop_unpack_bit: "ucast (x AND 1 :: u32) = (1 :: u8) \<longleftrightarrow> bit x 0"
  by (auto simp: and_one_eq mod_2_eq_odd bit_0)

lemma bit_mp_header_unpack:
  "bit (package_serial (mp_header_unpack p)) n \<longleftrightarrow> n < 8 \<and> bit p n"
  "bit (slice_serial (mp_header_unpack p)) n \<longleftrightarrow> n < 8 \<and> bit p (8 + n)"
  "bit (hdr_sender_id (mp_header_unpack p)) n \<longleftrightarrow> n < 3 \<and> bit p (16 + n)"
  "eop (mp_header_unpack p) = 1 \<longleftrightarrow> bit p 19"
  "bit (slice_payload_size (mp_header_unpack p)) n \<longleftrightarrow> n < 12 \<and> bit p (20 + n)"
  by (auto simp: mp_header_unpack_def field_masks bit_simps eop_unpack_bit)

lemma unpack_pack_fields:
  "mp_header_unpack (mp_header_pack m) = header_truncate m"
  unfolding mp_header_unpack_def header_truncate_def mp_header_meta.simps
  by (cases m, simp, intro conjI impI; rule bit_word_eqI)
    (auto simp: bit_mp_header_pack field_masks bit_simps)

lemma pack_unpack_bits: "mp_header_pack (mp_header_unpack p) = p"
proof (rule bit_word_eqI)
  fix n assume "n < LENGTH(32)"
  then consider "n < 8" | "n = 8 + (n - 8)" "n - 8 < 8" | "n = 16 + (n - 16)" "n - 16 < 3"
    | "n = 19" | "n = 20 + (n - 20)" "n - 20 < 12"
    by force
  then show "bit (mp_header_pack (mp_header_unpack p)) n = bit p n"
    by cases (auto simp: bit_mp_header_pack bit_mp_header_unpack)
qed

section \<open>The header on the wire\<close>

lemma length_packed_array [simp]: "length (MP_PACKED_HEADER_TO_ARRAY p) = 4"
  by (simp add: MP_PACKED_HEADER_TO_ARRAY_def)

lemma array_to_packed_to_array [simp]:
  "MP_ARRAY_TO_PACKED_HEADER (MP_PACKED_HEADER_TO_ARRAY p) = p"
proof (rule bit_word_eqI)
  fix n assume "n < LENGTH(32)"
  then consider "n < 8" | "n = 8 + (n - 8)" "n - 8 < 8" | "n = 16 + (n - 16)" "n - 16 < 8"
    | "n = 24 + (n - 24)" "n - 24 < 8"
    by force
  then show "bit (MP_ARRAY_TO_PACKED_HEADER (MP_PACKED_HEADER_TO_ARRAY p)) n = bit p n"
    by cases (auto simp: MP_ARRAY_TO_PACKED_HEADER_def MP_PACKED_HEADER_TO_ARRAY_def bit_simps)
qed

lemma array_to_packed_take [simp]:
  "MP_ARRAY_TO_PACKED_HEADER (take MP_HEADER_SIZE f) = MP_ARRAY_TO_PACKED_HEADER f"
  by (simp add: MP_ARRAY_TO_PACKED_HEADER_def MP_HEADER_SIZE_def)

lemma packed_to_array_to_packed:
  assumes "length arr = 4"
  shows "MP_PACKED_HEADER_TO_ARRAY (MP_ARRAY_TO_PACKED_HEADER arr) = arr"
proof -
  obtain a b c d where "arr = [a, b, c, d]"
    using assms by (auto simp: length_Suc_conv numeral_eq_Suc)
  then show ?thesis
    by (simp add: MP_ARRAY_TO_PACKED_HEADER_def MP_PACKED_HEADER_TO_ARRAY_def)
      (intro conjI; rule bit_word_eqI; auto simp: bit_simps dest: bit_imp_le_length)
qed

lemma header_wire_roundtrip:
  assumes "header_wf m"
  shows "mp_header_unpack (MP_ARRAY_TO_PACKED_HEADER
           (MP_PACKED_HEADER_TO_ARRAY (mp_header_pack m))) = m"
  by (simp add: unpack_pack_fields header_truncate_wf assms)

section \<open>Derived pure operators\<close>

text \<open>
  \<open>MP_HEADER_SIZE\<close> is a \<open>size_t\<close>; the difference is cut to 16 bits, so that it wraps
  for a transmission unit below 4.
\<close>

definition mp_max_payload :: "mp_config \<Rightarrow> u16" where
  "mp_max_payload config = transmission_unit config - of_nat MP_HEADER_SIZE"

text \<open>
  The product is an \<open>int\<close> (it is at most 255 * 65535) cut to 16 bits, which is the
  product of 16-bit words.
\<close>

definition mp_slice_idx_to_offset :: "u8 \<Rightarrow> u16 \<Rightarrow> u16" where
  "mp_slice_idx_to_offset slice_idx max_payload = ucast slice_idx * max_payload"

definition mp_offset_to_slice_idx :: "u16 \<Rightarrow> u16 \<Rightarrow> u8 res" where
  "mp_offset_to_slice_idx offset max_payload =
     (if max_payload = 0 then Inl Div_By_Zero else Inr (ucast (offset div max_payload)))"

text \<open>Coordinates of slice number \<open>i\<close> of a package.\<close>

definition slice_coord :: "u8 \<Rightarrow> u8 \<Rightarrow> u16 \<Rightarrow> nat \<Rightarrow> mp_coordinate" where
  "slice_coord sender package mp i =
     \<lparr> coord_sender_id = sender, coord_package_id = package,
       coord_offset = of_nat (i * unat mp) \<rparr>"

lemma slice_coord_simps [simp]:
  "coord_sender_id (slice_coord s p mp i) = s"
  "coord_package_id (slice_coord s p mp i) = p"
  "coord_offset (slice_coord s p mp i) = of_nat (i * unat mp)"
  by (simp_all add: slice_coord_def)

lemma unat_max_payload:
  "unat (mp_max_payload c) =
     (if 4 \<le> unat (transmission_unit c) then unat (transmission_unit c) - 4
      else 65532 + unat (transmission_unit c))"
  by (simp add: mp_max_payload_def MP_HEADER_SIZE_def unat_sub_if' word_le_nat_alt)

lemma unat_slice_offset:
  "unat (mp_slice_idx_to_offset i mp) = (unat i * unat mp) mod 65536"
  by (simp add: mp_slice_idx_to_offset_def unat_u16_mult)

lemma unat_slice_offset_exact:
  "unat i * unat mp < 65536 \<Longrightarrow> unat (mp_slice_idx_to_offset i mp) = unat i * unat mp"
  by (simp add: unat_slice_offset)

lemma offset_to_slice_idx_Inr:
  "mp \<noteq> 0 \<Longrightarrow> mp_offset_to_slice_idx off mp = Inr (ucast (off div mp))"
  by (simp add: mp_offset_to_slice_idx_def)

lemma unat_slice_idx: "unat (ucast (off div mp :: u16) :: u8) = (unat off div unat mp) mod 256"
  by (simp add: unat_u16_to_u8 unat_div)

lemma wrapped_div_less:
  fixes i mp :: nat
  assumes "65536 \<le> i * mp" and "mp < 65536"
  shows "(i * mp mod 65536) div mp < i"
proof -
  have "i * mp mod 65536 < i * mp"
    using assms(1) by (metis add_lessD1 less_le_trans mod_less_divisor zero_less_numeral
        nat_less_le mod_less_eq_dividend not_less order.strict_trans1)
  then show ?thesis by (simp add: less_mult_imp_div_less)
qed

section \<open>Properties\<close>

text \<open>Unpacking a packed header returns exactly the fields the wire keeps, for every
  header: the two serials unchanged, the low three bits of the sender, the end mark as 1 when
  it was exactly 1 and 0 otherwise, and the low twelve bits of the payload size.\<close>

lemma header_unpack_pack:
  "mp_header_unpack (mp_header_pack m) =
     \<lparr> package_serial = package_serial m,
       slice_serial = slice_serial m,
       hdr_sender_id = hdr_sender_id m AND 0x07,
       eop = (if eop m = 1 then 1 else 0),
       slice_payload_size = slice_payload_size m AND 0x0fff \<rparr>"
  by (simp add: unpack_pack_fields header_truncate_def)

text \<open>C25: A header with a sender below 8, an end mark of 0 or 1 and a payload size below 4096
  survives the whole way over the wire: packed, written as four bytes, read back, unpacked.\<close>

theorem header_roundtrip:
  assumes "hdr_sender_id m < 8" and "eop m \<le> 1" and "slice_payload_size m < 4096"
  shows "mp_header_unpack (MP_ARRAY_TO_PACKED_HEADER
           (MP_PACKED_HEADER_TO_ARRAY (mp_header_pack m))) = m"
  using assms by (intro header_wire_roundtrip) (simp add: header_wf_def)

theorem header_roundtrip_witness:
  "mp_header_unpack (MP_ARRAY_TO_PACKED_HEADER (MP_PACKED_HEADER_TO_ARRAY (mp_header_pack
      \<lparr> package_serial = 200, slice_serial = 17, hdr_sender_id = 5, eop = 1,
        slice_payload_size = 296 \<rparr>))) =
   \<lparr> package_serial = 200, slice_serial = 17, hdr_sender_id = 5, eop = 1,
     slice_payload_size = 296 \<rparr>"
  by (rule header_roundtrip) simp_all

text \<open>Any four bytes on the wire are a header in range, and packing that header gives the
  same four bytes again, so no two byte sequences mean the same header.\<close>

lemma header_bytes_roundtrip:
  assumes "length bs = 4"
  shows "header_wf (mp_header_unpack (MP_ARRAY_TO_PACKED_HEADER bs)) \<and>
    MP_PACKED_HEADER_TO_ARRAY (mp_header_pack
      (mp_header_unpack (MP_ARRAY_TO_PACKED_HEADER bs))) = bs"
proof
  have "header_wf (header_truncate (mp_header_unpack (MP_ARRAY_TO_PACKED_HEADER bs)))"
    by (rule header_wf_truncate)
  then show "header_wf (mp_header_unpack (MP_ARRAY_TO_PACKED_HEADER bs))"
    by (simp add: pack_unpack_bits flip: unpack_pack_fields)
qed (simp add: pack_unpack_bits packed_to_array_to_packed assms)

lemma header_bytes_roundtrip_witness:
  "header_wf (mp_header_unpack (MP_ARRAY_TO_PACKED_HEADER [1, 2, 0xff, 0xff])) \<and>
    MP_PACKED_HEADER_TO_ARRAY (mp_header_pack
      (mp_header_unpack (MP_ARRAY_TO_PACKED_HEADER [1, 2, 0xff, 0xff]))) = [1, 2, 0xff, 0xff]"
  by (rule header_bytes_roundtrip) simp

text \<open>The field-by-field comparison of two headers is equality.\<close>

lemma header_equals_is_equality: "mp_header_equals a b = (a = b)"
  by (cases a; cases b) (auto simp: mp_header_equals_def)

text \<open>Turning a slice number into a byte offset and back returns the slice number exactly
  when the maximum payload is not zero and the offset fits in 16 bits; past 65535 the wrapped
  offset always names an earlier slice.\<close>

lemma slice_idx_roundtrip:
  "mp_offset_to_slice_idx (mp_slice_idx_to_offset i mp) mp = Inr i \<longleftrightarrow>
     mp \<noteq> 0 \<and> unat i * unat mp < 65536"
proof (cases "mp = 0")
  case False
  then have mp: "0 < unat mp" by (simp add: unat_gt_0)
  have lt: "unat i < 256" by simp
  have "mp_offset_to_slice_idx (mp_slice_idx_to_offset i mp) mp = Inr i \<longleftrightarrow>
      (unat i * unat mp mod 65536) div unat mp mod 256 = unat i"
    using False by (simp add: offset_to_slice_idx_Inr word_unat_eq_iff unat_slice_idx
        unat_slice_offset)
  also have "\<dots> \<longleftrightarrow> unat i * unat mp < 65536"
  proof
    assume eq: "(unat i * unat mp mod 65536) div unat mp mod 256 = unat i"
    show "unat i * unat mp < 65536"
    proof (rule ccontr)
      assume "\<not> unat i * unat mp < 65536"
      then have "(unat i * unat mp mod 65536) div unat mp < unat i"
        by (intro wrapped_div_less) simp_all
      then show False using eq mod_less_eq_dividend le_less_trans by (metis nat_neq_iff)
    qed
  qed (use mp lt in simp)
  finally show ?thesis using False by simp
qed (simp add: mp_offset_to_slice_idx_def)

end
