(* ===== verification/Tx.thy ===== *)
theory Tx
  imports Common
begin

text \<open>
  \<^bold>\<open>src/core/customdata-tx.h\<close>: the pure operators of the sender. A slice is a header
  for the current coordinate together with the coordinate of the next slice.
\<close>

record mp_tx_slice =
  slice_header :: mp_header_meta
  slice_next :: mp_coordinate

definition mp_tx_advance :: "mp_config \<Rightarrow> mp_coordinate \<Rightarrow> mp_coordinate" where
  "mp_tx_advance config current =
     (let max_payload = mp_max_payload config
      in \<lparr> coord_sender_id = coord_sender_id current,
           coord_package_id = coord_package_id current,
           coord_offset = coord_offset current + max_payload \<rparr>)"

definition mp_tx_make_header ::
    "mp_config \<Rightarrow> mp_coordinate \<Rightarrow> u16 \<Rightarrow> bool \<Rightarrow> mp_header_meta res" where
  "mp_tx_make_header config current payload_size is_eop =
     (let max_payload = mp_max_payload config
      in bindE (mp_offset_to_slice_idx (coord_offset current) max_payload) (\<lambda>idx.
           Inr \<lparr> package_serial = coord_package_id current,
                 slice_serial = idx,
                 hdr_sender_id = coord_sender_id current AND 0x7,
                 eop = (if is_eop then 1 else 0),
                 slice_payload_size = payload_size \<rparr>))"

definition mp_tx_prepare ::
    "mp_config \<Rightarrow> mp_coordinate \<Rightarrow> u16 \<Rightarrow> bool \<Rightarrow> mp_tx_slice res" where
  "mp_tx_prepare config current payload_size is_final =
     bindE (mp_tx_make_header config current payload_size is_final) (\<lambda>header.
       Inr \<lparr> slice_header = header, slice_next = mp_tx_advance config current \<rparr>)"

lemma advance_slice_coord:
  "mp_tx_advance c (slice_coord s p (mp_max_payload c) i) =
     slice_coord s p (mp_max_payload c) (Suc i)"
  by (simp add: mp_tx_advance_def slice_coord_def algebra_simps)

lemma prepare_faults_iff: "mp_tx_prepare c cur n f = Inl e \<longleftrightarrow>
    mp_max_payload c = 0 \<and> e = Div_By_Zero"
  by (cases "mp_max_payload c = 0")
    (auto simp: mp_tx_prepare_def mp_tx_make_header_def mp_offset_to_slice_idx_def Let_def)

lemma prepare_ok:
  assumes "mp_max_payload c \<noteq> 0"
  shows "mp_tx_prepare c cur n f = Inr
    \<lparr> slice_header = \<lparr> package_serial = coord_package_id cur,
                       slice_serial = ucast (coord_offset cur div mp_max_payload c),
                       hdr_sender_id = coord_sender_id cur AND 0x7,
                       eop = (if f then 1 else 0),
                       slice_payload_size = n \<rparr>,
      slice_next = mp_tx_advance c cur \<rparr>"
  using assms
  by (simp add: mp_tx_prepare_def mp_tx_make_header_def mp_offset_to_slice_idx_def)

lemma prepare_slice_coord:
  assumes "mp_max_payload c \<noteq> 0" and "i < 256" and "i * unat (mp_max_payload c) < 65536"
  shows "mp_tx_prepare c (slice_coord s p (mp_max_payload c) i) n f = Inr
    \<lparr> slice_header = \<lparr> package_serial = p, slice_serial = of_nat i,
                       hdr_sender_id = s AND 0x7, eop = (if f then 1 else 0),
                       slice_payload_size = n \<rparr>,
      slice_next = slice_coord s p (mp_max_payload c) (Suc i) \<rparr>"
proof -
  let ?mp = "mp_max_payload c"
  have "unat (of_nat (i * unat ?mp) div ?mp) = i"
    using assms by (simp add: unat_div unat_u16_of_nat unat_gt_0 del: of_nat_mult)
  then have "ucast (of_nat (i * unat ?mp) div ?mp) = (of_nat i :: u8)"
    using assms(2)
    by (simp add: word_unat_eq_iff unat_u16_to_u8 unat_u8_of_nat del: of_nat_mult)
  then show ?thesis
    using assms(1) by (simp add: prepare_ok advance_slice_coord del: of_nat_mult)
qed

text \<open>The header-and-advance step iterated: the slices a sender prepares one after the other.\<close>

fun prepare_many ::
    "mp_config \<Rightarrow> mp_coordinate \<Rightarrow> (u16 \<times> bool) list \<Rightarrow> mp_header_meta list res" where
  "prepare_many c cur [] = Inr []"
| "prepare_many c cur ((n, f) # xs) =
     bindE (mp_tx_prepare c cur n f) (\<lambda>sl.
     bindE (prepare_many c (slice_next sl) xs) (\<lambda>hs. Inr (slice_header sl # hs)))"

lemma prepare_many_serials:
  assumes "mp_max_payload c \<noteq> 0" and "i + length xs \<le> 256"
    and "(i + length xs) * unat (mp_max_payload c) < 65536 + unat (mp_max_payload c)"
  shows "\<exists>hs. prepare_many c (slice_coord s p (mp_max_payload c) i) xs = Inr hs \<and>
     map slice_serial hs = map of_nat [i..<i + length xs]"
  using assms(2,3)
proof (induction xs arbitrary: i)
  case (Cons x xs)
  obtain n f where x: "x = (n, f)" by (cases x)
  have "i * unat (mp_max_payload c) < 65536"
    using Cons.prems(2) by (simp add: algebra_simps)
  then have prep: "mp_tx_prepare c (slice_coord s p (mp_max_payload c) i) n f = Inr
      \<lparr> slice_header = \<lparr> package_serial = p, slice_serial = of_nat i,
          hdr_sender_id = s AND 0x7, eop = (if f then 1 else 0), slice_payload_size = n \<rparr>,
        slice_next = slice_coord s p (mp_max_payload c) (Suc i) \<rparr>"
    using Cons.prems(1) assms(1) by (intro prepare_slice_coord) simp_all
  obtain hs where "prepare_many c (slice_coord s p (mp_max_payload c) (Suc i)) xs = Inr hs"
      and "map slice_serial hs = map of_nat [Suc i..<Suc i + length xs]"
    using Cons.IH [of "Suc i"] Cons.prems by auto
  then show ?case
    by (simp add: x prep upt_conv_Cons del: upt_Suc)
qed simp

text \<open>The slices prepared one after the other from the start of a package carry the slice
  serials 0, 1, 2, ... without a gap or a repetition, as long as there are at most 256 of them
  and the last offset fits in 16 bits.\<close>

lemma prepared_serials_count_up:
  assumes "mp_max_payload c \<noteq> 0" and "length xs \<le> 256"
    and "length xs * unat (mp_max_payload c) < 65536 + unat (mp_max_payload c)"
    and "coord_offset cur = 0"
  shows "\<exists>hs. prepare_many c cur xs = Inr hs \<and> map slice_serial hs = map of_nat [0..<length xs]"
proof -
  have cur: "slice_coord (coord_sender_id cur) (coord_package_id cur) (mp_max_payload c) 0 = cur"
    using assms(4) by (cases cur) (simp add: slice_coord_def)
  show ?thesis
    using prepare_many_serials [of c 0 xs "coord_sender_id cur" "coord_package_id cur"] assms(1-3)
    by (simp add: cur)
qed

lemma prepared_serials_count_up_witness:
  "\<exists>hs. prepare_many \<lparr> transmission_unit = 300 \<rparr>
      \<lparr> coord_sender_id = 1, coord_package_id = 9, coord_offset = 0 \<rparr>
      [(296, False), (296, False), (17, True)] = Inr hs \<and>
    map slice_serial hs = map of_nat [0..<length [(296 :: u16, False), (296, False), (17, True)]]"
  by (rule prepared_serials_count_up) (simp_all add: mp_max_payload_def MP_HEADER_SIZE_def)

end
