(* ===== verification/Stream_Tx.thy ===== *)
theory Stream_Tx
  imports Tx
begin

text \<open>
  \<^bold>\<open>src/core/customdata-stream-tx.h\<close> and \<^bold>\<open>customdata-stream-tx.c\<close>: the sending
  stream. It cuts the bytes it is fed into slices of the maximum payload and tells its
  downstream, through one callback, which bytes to keep and when to put a header in front of
  them and send. The downstream with its \<open>user\<close> pointer is a state \<open>'w\<close> that the
  callback transforms; what a downstream has to do with the calls is the locale
  \<open>tx_sink\<close>.
\<close>

section \<open>The stream\<close>

datatype mp_tx_action = MP_TX_ACT_DATA | MP_TX_ACT_FINALIZE

type_synonym 'w mp_tx_push_cb =
  "'w \<Rightarrow> mp_tx_action \<Rightarrow> mp_header_meta option \<Rightarrow> u8 list option \<Rightarrow> u16 \<Rightarrow> 'w res"

record 'w mp_tx_stream =
  tx_config :: mp_config
  tx_cursor :: mp_coordinate
  tx_fill :: u16
  tx_push :: "'w mp_tx_push_cb" \<comment> \<open>\<open>downstream.push\<close>; \<open>downstream.user\<close> is the state \<open>'w\<close>\<close>

text \<open>
  The \<open>while (off < size)\<close> loop. \<open>feed_take\<close> is the number of bytes of one round, the
  rest of the input cut to the room left in the slice. The data pointer \<open>data + off\<close> is the
  list of the bytes from there on. The loop always ends: a round takes at least one byte, or
  the slice was full already and the round empties it.
\<close>

definition feed_take :: "'w mp_tx_stream \<Rightarrow> u16 \<Rightarrow> u16 \<Rightarrow> u16" where
  "feed_take s sz off =
     (let all = sz - off; room = mp_max_payload (tx_config s) - tx_fill s
      in if all > room then room else all)"

function mp_tx_feed_loop ::
    "'w mp_tx_stream \<Rightarrow> 'w \<Rightarrow> u8 list \<Rightarrow> u16 \<Rightarrow> u16 \<Rightarrow> ('w mp_tx_stream \<times> 'w) res" where
  "mp_tx_feed_loop s w data sz off =
     (if off < sz
      then
        bindE (tx_push s w MP_TX_ACT_DATA None (Some (drop (unat off) data)) (feed_take s sz off))
          (\<lambda>w1.
           if tx_fill s + feed_take s sz off = mp_max_payload (tx_config s)
           then
             bindE (mp_tx_prepare (tx_config s) (tx_cursor s) (mp_max_payload (tx_config s)) False)
               (\<lambda>slice.
             bindE (tx_push s w1 MP_TX_ACT_DATA (Some (slice_header slice)) None 0) (\<lambda>w2.
               mp_tx_feed_loop (s\<lparr> tx_cursor := slice_next slice, tx_fill := 0 \<rparr>)
                 w2 data sz (off + feed_take s sz off)))
           else
             mp_tx_feed_loop (s\<lparr> tx_fill := tx_fill s + feed_take s sz off \<rparr>)
               w1 data sz (off + feed_take s sz off))
      else Inr (s, w))"
  by pat_completeness auto

definition feed_measure :: "'w mp_tx_stream \<times> 'w \<times> u8 list \<times> u16 \<times> u16 \<Rightarrow> nat" where
  "feed_measure = (\<lambda>(s, w, data, sz, off).
     2 * (unat sz - unat off) + (if tx_fill s = mp_max_payload (tx_config s) then 1 else 0))"

lemma feed_take_bounds:
  assumes "off < sz"
  shows "unat (off + feed_take s sz off) = unat off + unat (feed_take s sz off)"
    and "unat off + unat (feed_take s sz off) \<le> unat sz"
    and "feed_take s sz off = 0 \<longleftrightarrow> tx_fill s = mp_max_payload (tx_config s)"
proof -
  let ?n = "feed_take s sz off"
  have sub: "unat (sz - off) = unat sz - unat off"
    using assms by (simp add: unat_sub)
  have lt: "unat off < unat sz" using assms by (simp add: word_less_nat_alt)
  have "unat ?n \<le> unat sz - unat off"
    by (simp add: feed_take_def Let_def word_less_nat_alt flip: sub)
  then show bound: "unat off + unat ?n \<le> unat sz" using lt by linarith
  then have "unat off + unat ?n < 65536" using unat_u16_less [of sz] by linarith
  then show "unat (off + ?n) = unat off + unat ?n" by (simp add: unat_u16_add)
  have "sz - off \<noteq> 0" using sub lt by (metis unat_0 zero_less_diff less_irrefl)
  then show "?n = 0 \<longleftrightarrow> tx_fill s = mp_max_payload (tx_config s)"
    by (auto simp: feed_take_def Let_def word_gt_0)
qed

lemma feed_take_min:
  assumes "off < sz" and "unat (tx_fill s) \<le> unat (mp_max_payload (tx_config s))"
  shows "unat (feed_take s sz off) =
    min (unat sz - unat off) (unat (mp_max_payload (tx_config s)) - unat (tx_fill s))"
proof -
  have "unat (sz - off) = unat sz - unat off"
    using assms(1) by (simp add: unat_sub)
  moreover have "unat (mp_max_payload (tx_config s) - tx_fill s) =
      unat (mp_max_payload (tx_config s)) - unat (tx_fill s)"
    using assms(2) by (simp add: unat_sub word_le_nat_alt)
  ultimately show ?thesis by (simp add: feed_take_def Let_def word_less_nat_alt)
qed

termination mp_tx_feed_loop
proof (relation "measure feed_measure")
  fix s :: "'a mp_tx_stream" and w :: 'a and data and sz off :: u16 and w1 slice w2
  assume lt: "off < sz" and full: "tx_fill s + feed_take s sz off = mp_max_payload (tx_config s)"
    and prep: "mp_tx_prepare (tx_config s) (tx_cursor s) (mp_max_payload (tx_config s)) False =
      Inr slice"
  note round = feed_take_bounds [OF lt, of s]
  have "mp_max_payload (tx_config s) \<noteq> 0" using prep by (metis prepare_faults_iff sum.distinct(1))
  moreover have "unat (feed_take s sz off) = 0 \<Longrightarrow> tx_fill s = mp_max_payload (tx_config s)"
    using full by (simp add: unat_eq_0)
  moreover have "unat off < unat sz" using lt by (simp add: word_less_nat_alt)
  ultimately show "((s\<lparr> tx_cursor := slice_next slice, tx_fill := 0 \<rparr>, w2, data, sz,
      off + feed_take s sz off), (s, w, data, sz, off)) \<in> measure feed_measure"
    using round(1,2) by (cases "unat (feed_take s sz off)") (auto simp: feed_measure_def)
next
  fix s :: "'a mp_tx_stream" and w :: 'a and data and sz off :: u16 and w1
  assume lt: "off < sz"
    and notfull: "tx_fill s + feed_take s sz off \<noteq> mp_max_payload (tx_config s)"
  note round = feed_take_bounds [OF lt, of s]
  have "feed_take s sz off \<noteq> 0" using notfull round(3) by auto
  then have "0 < unat (feed_take s sz off)" by (simp add: unat_gt_0)
  then show "((s\<lparr> tx_fill := tx_fill s + feed_take s sz off \<rparr>, w1, data, sz,
      off + feed_take s sz off), (s, w, data, sz, off)) \<in> measure feed_measure"
    using round(1,2) by (auto simp: feed_measure_def)
qed simp

declare mp_tx_feed_loop.simps [simp del]

definition mp_tx_stream_feed ::
    "'w mp_tx_stream \<Rightarrow> 'w \<Rightarrow> u8 list \<Rightarrow> u16 \<Rightarrow> ('w mp_tx_stream \<times> 'w) res" where
  "mp_tx_stream_feed s w data sz = mp_tx_feed_loop s w data sz 0"

definition mp_tx_stream_finalize ::
    "'w mp_tx_stream \<Rightarrow> 'w \<Rightarrow> ('w mp_tx_stream \<times> 'w) res" where
  "mp_tx_stream_finalize s w =
     bindE (mp_tx_prepare (tx_config s) (tx_cursor s) (tx_fill s) True) (\<lambda>slice.
     bindE (tx_push s w MP_TX_ACT_FINALIZE (Some (slice_header slice)) None 0) (\<lambda>w'.
       Inr (s\<lparr> tx_cursor := slice_next slice, tx_fill := 0 \<rparr>, w')))"

section \<open>What a downstream does\<close>

text \<open>
  A frame carries a header and a payload when its first four bytes are the packed header and
  the payload follows; the rest of the frame is whatever the buffer held before.
\<close>

definition frame_carries :: "u16 \<Rightarrow> mp_header_meta \<Rightarrow> u8 list \<Rightarrow> u8 list \<Rightarrow> bool" where
  "frame_carries mp h d f \<longleftrightarrow>
     length f = unat mp + MP_HEADER_SIZE \<and>
     take MP_HEADER_SIZE f = MP_PACKED_HEADER_TO_ARRAY (mp_header_pack h) \<and>
     take (length d) (drop MP_HEADER_SIZE f) = d"

text \<open>The header of slice number \<open>i\<close>, with the wrap-around of its 16-bit offset.\<close>

definition header_at :: "u16 \<Rightarrow> u8 \<Rightarrow> u8 \<Rightarrow> nat \<Rightarrow> u16 \<Rightarrow> bool \<Rightarrow> mp_header_meta" where
  "header_at mp sender package i n is_final =
     \<lparr> package_serial = package, slice_serial = ucast ((of_nat (i * unat mp) :: u16) div mp),
       hdr_sender_id = sender AND 0x7, eop = (if is_final then 1 else 0),
       slice_payload_size = n \<rparr>"

lemma prepare_header_at:
  assumes "mp_max_payload c \<noteq> 0"
  shows "mp_tx_prepare c (slice_coord sender package (mp_max_payload c) i) n f =
    Inr \<lparr> slice_header = header_at (mp_max_payload c) sender package i n f,
          slice_next = slice_coord sender package (mp_max_payload c) (Suc i) \<rparr>"
  using assms by (simp add: prepare_ok header_at_def advance_slice_coord del: of_nat_mult)

lemma header_at_in_range:
  assumes "mp \<noteq> 0" and "i < 256" and "i * unat mp < 65536"
  shows "header_at mp sender package i n f =
    \<lparr> package_serial = package, slice_serial = of_nat i, hdr_sender_id = sender AND 0x7,
      eop = (if f then 1 else 0), slice_payload_size = n \<rparr>"
  using assms
  by (simp add: header_at_def word_unat_eq_iff unat_u16_to_u8 unat_div unat_u16_of_nat
      unat_u8_of_nat del: of_nat_mult)

text \<open>The frames of consecutive full slices, and of a whole package: full slices and the rest
  with the end mark.\<close>

definition full_frames :: "u16 \<Rightarrow> u8 \<Rightarrow> u8 \<Rightarrow> nat \<Rightarrow> u8 list list \<Rightarrow> u8 list list \<Rightarrow> bool" where
  "full_frames mp sender package i ds fs \<longleftrightarrow>
     length fs = length ds \<and>
     (\<forall>j<length ds. frame_carries mp (header_at mp sender package (i + j) mp False)
        (ds ! j) (fs ! j))"

definition package_frames :: "u16 \<Rightarrow> u8 \<Rightarrow> u8 \<Rightarrow> u8 list \<Rightarrow> u8 list list \<Rightarrow> bool" where
  "package_frames mp sender package bytes fs \<longleftrightarrow>
     (\<exists>gs f. fs = gs @ [f] \<and>
        full_frames mp sender package 0 (full_slices (unat mp) bytes) gs \<and>
        frame_carries mp
          (header_at mp sender package (length bytes div unat mp)
            (of_nat (length bytes mod unat mp)) True)
          (slice_rest (unat mp) bytes) f)"

lemma full_frames_Nil [simp]: "full_frames mp sender package i [] fs \<longleftrightarrow> fs = []"
  by (auto simp: full_frames_def)

lemma full_frames_Cons:
  "full_frames mp sender package i (d # ds) (f # fs) \<longleftrightarrow>
     frame_carries mp (header_at mp sender package i mp False) d f \<and>
     full_frames mp sender package (Suc i) ds fs"
  by (auto simp: full_frames_def All_less_Suc2)

lemma full_frames_append:
  "full_frames mp sender package i ds fs \<Longrightarrow>
   full_frames mp sender package (i + length ds) es gs \<Longrightarrow>
   full_frames mp sender package i (ds @ es) (fs @ gs)"
proof (induction ds arbitrary: i fs)
  case (Cons d ds)
  then obtain f fs' where fs: "fs = f # fs'" by (cases fs) (auto simp: full_frames_def)
  then show ?case using Cons.IH [of "Suc i" fs'] Cons.prems by (simp add: full_frames_Cons)
qed simp

text \<open>
  The contract of a downstream. \<open>pend\<close> is what it has kept for the slice in the making,
  \<open>sent\<close> the frames it has sent: data is kept, a header sends one frame with that header and
  the kept bytes, whatever the action.
\<close>

text \<open>A sequence of calls of \<open>mp_tx_stream_feed\<close>, as every caller makes it.\<close>

definition feed_chunks ::
    "'w mp_tx_stream \<Rightarrow> 'w \<Rightarrow> u8 list list \<Rightarrow> ('w mp_tx_stream \<times> 'w) res" where
  "feed_chunks s w chunks =
     foldE (\<lambda>(s, w) d. mp_tx_stream_feed s w d (of_nat (length d))) (s, w) chunks"

lemma feed_chunks_simps [simp]:
  "feed_chunks s w [] = Inr (s, w)"
  "feed_chunks s w (d # ds) =
     bindE (mp_tx_stream_feed s w d (of_nat (length d))) (\<lambda>(s', w'). feed_chunks s' w' ds)"
  by (simp_all add: feed_chunks_def case_prod_unfold)

locale tx_sink =
  fixes push :: "'w mp_tx_push_cb"
    and sink_ok :: "'w \<Rightarrow> bool"
    and pend :: "'w \<Rightarrow> u8 list"
    and sent :: "'w \<Rightarrow> u8 list list"
    and mp :: u16
  assumes push_data: "sink_ok w \<Longrightarrow> unat n \<le> length d \<Longrightarrow> length (pend w) + unat n \<le> unat mp \<Longrightarrow>
      \<exists>w'. push w MP_TX_ACT_DATA None (Some d) n = Inr w' \<and> sink_ok w' \<and>
        pend w' = pend w @ take (unat n) d \<and> sent w' = sent w"
    and push_header: "sink_ok w \<Longrightarrow> length (pend w) \<le> unat mp \<Longrightarrow>
      \<exists>w' f. push w act (Some h) None 0 = Inr w' \<and> sink_ok w' \<and> pend w' = [] \<and>
        sent w' = sent w @ [f] \<and> frame_carries mp h (pend w) f"
begin

text \<open>The stream and its downstream in the middle of slice \<open>i\<close>.\<close>

definition stream_at :: "u8 \<Rightarrow> u8 \<Rightarrow> nat \<Rightarrow> 'w mp_tx_stream \<Rightarrow> 'w \<Rightarrow> bool" where
  "stream_at sender package i s w \<longleftrightarrow>
     tx_push s = push \<and> mp_max_payload (tx_config s) = mp \<and>
     tx_cursor s = slice_coord sender package mp i \<and>
     unat (tx_fill s) = length (pend w) \<and> length (pend w) < unat mp \<and> sink_ok w"

lemma stream_at_pos:
  "stream_at sender package i s w \<Longrightarrow> 0 < unat mp"
  "stream_at sender package i s w \<Longrightarrow> mp \<noteq> 0"
  by (auto simp: stream_at_def)

text \<open>
  The stream has taken up \<open>bytes\<close>, the ones that were pending included: the full slices among
  them are sent, the rest is pending.
\<close>

definition stream_sent :: "u8 \<Rightarrow> u8 \<Rightarrow> nat \<Rightarrow> 'w \<Rightarrow> u8 list \<Rightarrow> 'w mp_tx_stream \<Rightarrow> 'w \<Rightarrow> bool" where
  "stream_sent sender package i w bytes s' w' \<longleftrightarrow>
     (\<exists>fs. stream_at sender package (i + length bytes div unat mp) s' w' \<and>
        pend w' = slice_rest (unat mp) bytes \<and> sent w' = sent w @ fs \<and>
        full_frames mp sender package i (full_slices (unat mp) bytes) fs)"

lemma stream_sent_pend: "stream_at sender package i s w \<Longrightarrow> stream_sent sender package i w (pend w) s w"
  by (auto simp: stream_sent_def stream_at_def)

lemma stream_sent_append:
  assumes 1: "stream_sent sender package i w bytes s1 w1"
    and 2: "stream_sent sender package (i + length bytes div unat mp) w1 (pend w1 @ rest) s2 w2"
  shows "stream_sent sender package i w (bytes @ rest) s2 w2"
proof -
  let ?m = "unat mp"
  obtain fs where fs: "stream_at sender package (i + length bytes div ?m) s1 w1" "pend w1 = slice_rest ?m bytes"
      "sent w1 = sent w @ fs" "full_frames mp sender package i (full_slices ?m bytes) fs"
    using 1 unfolding stream_sent_def by blast
  note pos = stream_at_pos(1) [OF fs(1)]
  obtain gs where gs: "sent w2 = sent w1 @ gs"
      "full_frames mp sender package (i + length bytes div ?m) (full_slices ?m (pend w1 @ rest)) gs"
    using 2 unfolding stream_sent_def by blast
  have "full_frames mp sender package i
      (full_slices ?m bytes @ full_slices ?m (slice_rest ?m bytes @ rest)) (fs @ gs)"
    using fs(4) gs(2) pos unfolding fs(2) by (intro full_frames_append) (simp_all add: length_full_slices)
  then show ?thesis
    using 2 fs(2,3) gs(1)
    unfolding stream_sent_def full_slices_append [OF pos, of bytes rest]
      slice_rest_append [OF pos, of bytes rest] length_append_div [OF pos, of bytes rest]
    by (intro exI [of _ "fs @ gs"]) (simp add: add.assoc)
qed

text \<open>One round of the loop either fills up the slice, and sends it, or takes the whole input.\<close>

lemma feed_round_sends:
  assumes at: "stream_at sender package i s w" and lt: "off < sz" and sz: "unat sz \<le> length data"
  defines "n \<equiv> feed_take s sz off"
  shows "0 < unat n"
    and "\<exists>s' w'. mp_tx_feed_loop s w data sz off = mp_tx_feed_loop s' w' data sz (off + n) \<and>
      stream_sent sender package i w (pend w @ take (unat n) (drop (unat off) data)) s' w'"
proof -
  note at' = at [unfolded stream_at_def] and round = feed_take_bounds [OF lt, of s, folded n_def]
  let ?in = "drop (unat off) data"
  let ?head = "pend w @ take (unat n) ?in"
  have n: "unat n = min (unat sz - unat off) (unat mp - length (pend w))"
    using feed_take_min [OF lt, of s] at' by (simp add: n_def)
  then show "0 < unat n" using lt at' by (simp add: word_less_nat_alt)
  have room: "length (pend w) + unat n \<le> unat mp" using n at' by linarith
  then have len: "unat n \<le> length ?in" "length ?head = length (pend w) + unat n" "length ?head \<le> unat mp"
    using round(2) sz by simp_all
  have fill: "unat (tx_fill s + n) = length ?head"
    using len at' unat_u16_less [of mp] by (simp add: unat_u16_add del: unat_u16_less)
  obtain w1 where w1: "push w MP_TX_ACT_DATA None (Some ?in) n = Inr w1" "sink_ok w1"
      "pend w1 = ?head" "sent w1 = sent w"
    using push_data [of w n ?in] at' len by auto
  show "\<exists>s' w'. mp_tx_feed_loop s w data sz off = mp_tx_feed_loop s' w' data sz (off + n) \<and>
    stream_sent sender package i w ?head s' w'"
  proof (cases "tx_fill s + n = mp")
    case False
    let ?s1 = "s\<lparr> tx_fill := tx_fill s + n \<rparr>"
    have "length ?head < unat mp" using False fill len(3) by (auto simp: u16_eq_iff)
    then have "stream_sent sender package i w ?head ?s1 w1"
      using at' w1 fill by (simp add: stream_sent_def stream_at_def)
    moreover have "mp_tx_feed_loop s w data sz off = mp_tx_feed_loop ?s1 w1 data sz (off + n)"
      using lt False at' w1(1) by (subst mp_tx_feed_loop.simps) (simp add: n_def)
    ultimately show ?thesis by blast
  next
    case True
    let ?s2 = "s\<lparr> tx_cursor := slice_coord sender package mp (Suc i), tx_fill := 0 \<rparr>"
    let ?h = "header_at mp sender package i mp False"
    have full: "length ?head = unat mp" using True fill by simp
    obtain w2 f where w2: "push w1 MP_TX_ACT_DATA (Some ?h) None 0 = Inr w2" "sink_ok w2"
        "pend w2 = []" "sent w2 = sent w @ [f]" "frame_carries mp ?h ?head f"
      using push_header [of w1 MP_TX_ACT_DATA ?h] w1 full by fastforce
    have "stream_sent sender package i w ?head ?s2 w2"
      using at' w2 full_slices_first [OF full stream_at_pos(1) [OF at], of "[]"] full
      unfolding stream_sent_def by (intro exI [of _ "[f]"]) (simp add: stream_at_def full_frames_Cons)
    moreover have "mp_tx_feed_loop s w data sz off = mp_tx_feed_loop ?s2 w2 data sz (off + n)"
      using lt True at' w1(1) w2(1) prepare_header_at [of "tx_config s"] stream_at_pos(2) [OF at]
      by (subst mp_tx_feed_loop.simps) (simp add: n_def)
    ultimately show ?thesis by blast
  qed
qed

lemma feed_loop_sends:
  assumes "stream_at sender package i s w" and "off \<le> sz" and "unat sz \<le> length data"
  shows "\<exists>s' w'. mp_tx_feed_loop s w data sz off = Inr (s', w') \<and>
    stream_sent sender package i w (pend w @ drop (unat off) (take (unat sz) data)) s' w'"
  using assms(1,2)
proof (induction "unat sz - unat off" arbitrary: i s w off rule: less_induct)
  case less
  show ?case
  proof (cases "off < sz")
    case False
    then show ?thesis
      using less.prems stream_sent_pend [OF less.prems(1)] by (subst mp_tx_feed_loop.simps) simp
  next
    case True
    let ?n = "feed_take s sz off" and ?tail = "drop (unat off + unat (feed_take s sz off)) (take (unat sz) data)"
    let ?head = "pend w @ take (unat ?n) (drop (unat off) data)"
    note round = feed_take_bounds [OF True, of s] feed_round_sends [OF less.prems(1) True assms(3)]
    obtain s1 w1 where 1: "mp_tx_feed_loop s w data sz off = mp_tx_feed_loop s1 w1 data sz (off + ?n)"
        "stream_sent sender package i w ?head s1 w1"
      using round(5) by blast
    have "unat sz - unat (off + ?n) < unat sz - unat off" "off + ?n \<le> sz"
      using round(1,2,4) by (simp_all add: word_le_nat_alt)
    from less.hyps [OF this(1) _ this(2)] obtain s2 w2 where 2: "mp_tx_feed_loop s1 w1 data sz (off + ?n) = Inr (s2, w2)"
        "stream_sent sender package (i + length ?head div unat mp) w1 (pend w1 @ ?tail) s2 w2"
      using 1(2) unfolding round(1) stream_sent_def by blast
    have "pend w @ drop (unat off) (take (unat sz) data) = ?head @ ?tail"
      using round(2) by (simp add: drop_take_split)
    then show ?thesis using 1(1) 2(1) stream_sent_append [OF 1(2) 2(2)] by simp
  qed
qed

lemma feed_sends:
  assumes "stream_at sender package i s w" and "length d < 65536"
  shows "\<exists>s' w'. mp_tx_stream_feed s w d (of_nat (length d)) = Inr (s', w') \<and>
    stream_sent sender package i w (pend w @ d) s' w'"
  using feed_loop_sends [OF assms(1), of 0 "of_nat (length d)" d] assms(2)
  by (simp add: mp_tx_stream_feed_def unat_u16_of_nat)

text \<open>What a sequence of feeds sends depends only on the bytes, not on how they are cut.\<close>

lemma feed_chunks_sends:
  assumes "stream_at sender package i s w" and "list_all (\<lambda>d. length d < 65536) chunks"
  shows "\<exists>s' w' fs. feed_chunks s w chunks = Inr (s', w') \<and>
    stream_at sender package (i + length (pend w @ concat chunks) div unat mp) s' w' \<and>
    pend w' = slice_rest (unat mp) (pend w @ concat chunks) \<and> sent w' = sent w @ fs \<and>
    full_frames mp sender package i (full_slices (unat mp) (pend w @ concat chunks)) fs"
proof -
  have "\<exists>s' w'. feed_chunks s w chunks = Inr (s', w') \<and>
      stream_sent sender package i w (pend w @ concat chunks) s' w'"
    using assms
  proof (induction chunks arbitrary: i s w)
    case Nil
    then show ?case using stream_sent_pend by simp
  next
    case (Cons d ds)
    obtain s1 w1 where 1: "mp_tx_stream_feed s w d (of_nat (length d)) = Inr (s1, w1)"
        "stream_sent sender package i w (pend w @ d) s1 w1"
      using feed_sends [OF Cons.prems(1), of d] Cons.prems(2) by auto
    then obtain s2 w2 where 2: "feed_chunks s1 w1 ds = Inr (s2, w2)"
        "stream_sent sender package (i + length (pend w @ d) div unat mp) w1 (pend w1 @ concat ds) s2 w2"
      using Cons.IH [of _ s1 w1] Cons.prems(2) unfolding stream_sent_def by fastforce
    then show ?case using 1(1) stream_sent_append [OF 1(2) 2(2)] by simp
  qed
  then show ?thesis unfolding stream_sent_def by blast
qed

lemma finalize_sends:
  assumes "stream_at sender package i s w"
  shows "\<exists>w' f. mp_tx_stream_finalize s w =
      Inr (s\<lparr> tx_cursor := slice_coord sender package mp (Suc i), tx_fill := 0 \<rparr>, w') \<and>
    sink_ok w' \<and> pend w' = [] \<and> sent w' = sent w @ [f] \<and>
    frame_carries mp (header_at mp sender package i (of_nat (length (pend w))) True) (pend w) f"
proof -
  note at = assms [unfolded stream_at_def]
  have fill: "tx_fill s = of_nat (length (pend w))"
    using at by (metis of_nat_unat ucast_id)
  let ?h = "header_at mp sender package i (of_nat (length (pend w))) True"
  obtain w' f where "push w MP_TX_ACT_FINALIZE (Some ?h) None 0 = Inr w'" "sink_ok w'"
      "pend w' = []" "sent w' = sent w @ [f]" "frame_carries mp ?h (pend w) f"
    using push_header [of w MP_TX_ACT_FINALIZE ?h] at by auto
  then show ?thesis
    using at fill prepare_header_at [of "tx_config s"] stream_at_pos(2) [OF assms]
    by (simp add: mp_tx_stream_finalize_def)
qed

text \<open>A whole package: the stream starts at slice 0 with nothing kept, is fed and finalized.\<close>

lemma package_sends:
  assumes "stream_at sender package 0 s w" and "pend w = []"
    and "list_all (\<lambda>d. length d < 65536) chunks"
  shows "\<exists>s' w' fs. bindE (feed_chunks s w chunks) (\<lambda>(s1, w1). mp_tx_stream_finalize s1 w1) =
      Inr (s', w') \<and>
    tx_cursor s' = slice_coord sender package mp (Suc (length (concat chunks) div unat mp)) \<and>
    sink_ok w' \<and> pend w' = [] \<and> sent w' = sent w @ fs \<and>
    package_frames mp sender package (concat chunks) fs"
proof -
  let ?bytes = "concat chunks" and ?m = "unat mp"
  obtain s1 w1 gs where 1: "feed_chunks s w chunks = Inr (s1, w1)"
      "stream_at sender package (length ?bytes div ?m) s1 w1"
      "pend w1 = slice_rest ?m ?bytes" "sent w1 = sent w @ gs"
      "full_frames mp sender package 0 (full_slices ?m ?bytes) gs"
    using feed_chunks_sends [OF assms(1,3)] assms(2) by auto
  obtain w2 f where 2: "mp_tx_stream_finalize s1 w1 = Inr (s1\<lparr> tx_cursor :=
        slice_coord sender package mp (Suc (length ?bytes div ?m)), tx_fill := 0 \<rparr>, w2)"
      "sink_ok w2" "pend w2 = []" "sent w2 = sent w1 @ [f]"
      "frame_carries mp (header_at mp sender package (length ?bytes div ?m)
        (of_nat (length (pend w1))) True) (pend w1) f"
    using finalize_sends [OF 1(2)] by blast
  show ?thesis
    using 1 2 by (auto simp: package_frames_def length_slice_rest)
qed

end

section \<open>Any downstream that returns\<close>

definition push_total :: "'w mp_tx_push_cb \<Rightarrow> bool" where
  "push_total push \<longleftrightarrow> (\<forall>w act h d n. \<exists>w'. push w act h d n = Inr w')"

text \<open>One round of the loop, for a fill level that is in range.\<close>

lemma feed_round:
  assumes "off < sz" and "unat (tx_fill s) < unat (mp_max_payload (tx_config s))"
  defines "n \<equiv> feed_take s sz off" and "mp \<equiv> mp_max_payload (tx_config s)"
  shows "0 < unat n" and "unat off + unat n \<le> unat sz" and "unat (off + n) = unat off + unat n"
    and "unat (tx_fill s + n) = unat (tx_fill s) + unat n" and "unat (tx_fill s) + unat n \<le> unat mp"
    and "tx_fill s + n \<noteq> mp \<Longrightarrow> off + n = sz"
proof -
  have n: "unat n = min (unat sz - unat off) (unat mp - unat (tx_fill s))"
    unfolding n_def mp_def by (rule feed_take_min [OF assms(1) less_imp_le [OF assms(2)]])
  have lt: "unat off < unat sz" using assms(1) by (simp add: word_less_nat_alt)
  show "0 < unat n" unfolding n using lt assms(2) by (simp add: mp_def)
  show le: "unat off + unat n \<le> unat sz" and off: "unat (off + n) = unat off + unat n"
    using feed_take_bounds [OF assms(1), of s] by (simp_all add: n_def)
  show room: "unat (tx_fill s) + unat n \<le> unat mp" using n assms(2) unfolding mp_def by linarith
  then have "unat (tx_fill s) + unat n < 65536" using unat_u16_less [of mp] by linarith
  then show fill: "unat (tx_fill s + n) = unat (tx_fill s) + unat n" by (simp add: unat_u16_add)
  assume "tx_fill s + n \<noteq> mp"
  then have "unat n = unat sz - unat off" using n fill room by (auto simp: u16_eq_iff)
  then show "off + n = sz" using lt off by (simp add: u16_eq_iff)
qed

lemma feed_loop_returns:
  assumes "push_total (tx_push s)" and "unat (tx_fill s) < unat (mp_max_payload (tx_config s))"
    and "off \<le> sz"
  shows "\<exists>s' w'. mp_tx_feed_loop s w data sz off = Inr (s', w') \<and>
    unat (tx_fill s') = (unat (tx_fill s) + (unat sz - unat off)) mod unat (mp_max_payload (tx_config s)) \<and>
    coord_offset (tx_cursor s') = coord_offset (tx_cursor s) +
      of_nat ((unat (tx_fill s) + (unat sz - unat off)) div unat (mp_max_payload (tx_config s))) *
        mp_max_payload (tx_config s)"
  using assms
proof (induction "unat sz - unat off" arbitrary: s w off rule: less_induct)
  case less
  let ?mp = "mp_max_payload (tx_config s)" and ?n = "feed_take s sz off"
  show ?case
  proof (cases "off < sz")
    case False
    then show ?thesis
      using less.prems by (subst mp_tx_feed_loop.simps) (simp add: word_le_nat_alt)
  next
    case True
    note round = feed_round [OF True less.prems(2)]
    have lt: "unat off < unat sz" using True by (simp add: word_less_nat_alt)
    have smaller: "unat sz - unat (off + ?n) < unat sz - unat off" using round(1,3) lt by linarith
    have le: "off + ?n \<le> sz" using round(2,3) by (simp add: word_le_nat_alt)
    have left: "unat sz - unat off = unat ?n + (unat sz - unat (off + ?n))" using round(2,3) by linarith
    obtain w1 where w1: "tx_push s w MP_TX_ACT_DATA None (Some (drop (unat off) data)) ?n = Inr w1"
      using less.prems(1) unfolding push_total_def by blast
    show ?thesis
    proof (cases "tx_fill s + ?n = ?mp")
      case False
      let ?s1 = "s\<lparr> tx_fill := tx_fill s + ?n \<rparr>"
      have "unat (tx_fill ?s1) < unat (mp_max_payload (tx_config ?s1))"
        using False round(4,5) by (simp add: u16_eq_iff)
      moreover have "push_total (tx_push ?s1)" using less.prems(1) by simp
      ultimately show ?thesis
        using less.hyps [OF smaller, of ?s1 w1] le True False w1 left round(4)
        by (subst mp_tx_feed_loop.simps) (simp add: add.assoc)
    next
      case full: True
      obtain sl where sl: "mp_tx_prepare (tx_config s) (tx_cursor s) ?mp False = Inr sl"
          "coord_offset (slice_next sl) = coord_offset (tx_cursor s) + ?mp"
        using less.prems(2) prepare_ok [of "tx_config s" "tx_cursor s"]
        by (auto simp: mp_tx_advance_def Let_def u16_eq_iff)
      obtain w2 where w2: "tx_push s w1 MP_TX_ACT_DATA (Some (slice_header sl)) None 0 = Inr w2"
        using less.prems(1) unfolding push_total_def by blast
      let ?s2 = "s\<lparr> tx_cursor := slice_next sl, tx_fill := 0 \<rparr>"
      have total: "unat (tx_fill s) + (unat sz - unat off) =
          unat ?mp + (unat sz - unat (off + ?n))"
        using left round(4) full by (metis add.assoc)
      have prems: "push_total (tx_push ?s2)"
          "unat (tx_fill ?s2) < unat (mp_max_payload (tx_config ?s2))"
        using less.prems by auto
      have step: "(unat ?mp + x) div unat ?mp = Suc (x div unat ?mp)" for x
        using less.prems(2) div_add_self1 [of "unat ?mp" x] by simp
      show ?thesis
        unfolding total
        using less.hyps [OF smaller prems le, of w2] True full w1 w2 sl less.prems(2)
        by (subst mp_tx_feed_loop.simps) (auto simp: step algebra_simps)
    qed
  qed
qed

section \<open>Properties\<close>

text \<open>C26: When the open slice has room, which leaves out a maximum payload of 0, feeding returns with
  any downstream that returns: it takes all the bytes, the number of bytes in the open slice grows by the size of the input modulo the maximum payload, and
  the cursor advances by one slice for every slice filled, with 16-bit wrap-around.\<close>

theorem feed_returns:
  assumes "push_total (tx_push s)" and "unat (tx_fill s) < unat (mp_max_payload (tx_config s))"
  shows "\<exists>s' w'. mp_tx_stream_feed s w data sz = Inr (s', w') \<and>
    unat (tx_fill s') = (unat (tx_fill s) + unat sz) mod unat (mp_max_payload (tx_config s)) \<and>
    coord_offset (tx_cursor s') = coord_offset (tx_cursor s) +
      of_nat ((unat (tx_fill s) + unat sz) div unat (mp_max_payload (tx_config s))) *
        mp_max_payload (tx_config s)"
  using feed_loop_returns [OF assms, of 0 sz w data] by (simp add: mp_tx_stream_feed_def)

theorem feed_returns_witness:
  "\<exists>s' w'. mp_tx_stream_feed \<lparr> tx_config = \<lparr> transmission_unit = 8 \<rparr>, tx_cursor =
        \<lparr> coord_sender_id = 0, coord_package_id = 0, coord_offset = 0 \<rparr>, tx_fill = 3,
        tx_push = (\<lambda>w act h d n. Inr (Suc w)) \<rparr> (0 :: nat) [1, 2, 3, 4, 5] 5 = Inr (s', w') \<and>
    unat (tx_fill s') = (unat (3 :: u16) + unat (5 :: u16)) mod
      unat (mp_max_payload \<lparr> transmission_unit = 8 \<rparr>) \<and>
    coord_offset (tx_cursor s') = 0 + of_nat ((unat (3 :: u16) + unat (5 :: u16)) div
      unat (mp_max_payload \<lparr> transmission_unit = 8 \<rparr>)) * mp_max_payload \<lparr> transmission_unit = 8 \<rparr>"
  using feed_returns [where s = "\<lparr> tx_config = \<lparr> transmission_unit = 8 \<rparr>, tx_cursor =
        \<lparr> coord_sender_id = 0, coord_package_id = 0, coord_offset = 0 \<rparr>, tx_fill = 3,
        tx_push = (\<lambda>w act h d n. Inr (Suc w)) \<rparr>" and w = "0 :: nat" and data = "[1, 2, 3, 4, 5]"
      and sz = 5]
  by (simp add: push_total_def mp_max_payload_def MP_HEADER_SIZE_def)

text \<open>A transmission unit of exactly the header's four bytes leaves no room for data: feeding
  any byte divides by zero, once the downstream has taken its empty chunk.\<close>

lemma feed_without_room:
  assumes "mp_max_payload (tx_config s) = 0" and "tx_fill s = 0" and "0 < sz"
    and "tx_push s w MP_TX_ACT_DATA None (Some data) 0 = Inr w1"
  shows "mp_tx_stream_feed s w data sz = Inl Div_By_Zero"
proof -
  have take: "feed_take s sz 0 = 0"
    using assms(1-3) feed_take_bounds(3) [of 0 sz s] by simp
  have "mp_tx_prepare (tx_config s) (tx_cursor s) 0 False = Inl Div_By_Zero"
    using assms(1) by (simp add: prepare_faults_iff)
  then show ?thesis
    unfolding mp_tx_stream_feed_def
    using assms take by (subst mp_tx_feed_loop.simps) simp
qed

lemma feed_without_room_witness:
  "mp_tx_stream_feed \<lparr> tx_config = \<lparr> transmission_unit = 4 \<rparr>, tx_cursor =
      \<lparr> coord_sender_id = 0, coord_package_id = 0, coord_offset = 0 \<rparr>, tx_fill = 0,
      tx_push = (\<lambda>w act h d n. Inr w) \<rparr> () [7] 1 = Inl Div_By_Zero"
  by (rule feed_without_room [where ?w1.0 = "()"]) (simp_all add: mp_max_payload_def MP_HEADER_SIZE_def)

end
