(* ===== verification/Rx.thy ===== *)
theory Rx
  imports Common
begin

text \<open>
  \<^bold>\<open>src/core/customdata-rx.h\<close>: the pure operators of the receiver. The state of one
  package is a bitmap of the slices seen, a count of the slices with data, the end of
  the package once it is known (0 before) and the watermark, the end of the contiguous
  part. \<open>mp_rx_calc_slice_step\<close> is the whole transition for one arriving slice.
\<close>

section \<open>State and events\<close>

record mp_rx_slice_state =
  bitmap :: "u32 list" \<comment> \<open>\<open>uint32_t[8]\<close>\<close>
  received_count :: u16
  termination_at :: u16 \<comment> \<open>field \<open>termination\<close>\<close>
  watermark :: u16

datatype mp_rx_stream_event =
    MP_RX_STREAM_DUPLICATE
  | MP_RX_STREAM_NEW_SLICE_OUT_OF_ORDER
  | MP_RX_STREAM_NEW_SLICE_IN_ORDER
  | MP_RX_STREAM_COMPLETE

record mp_rx_slice_inst =
  inst_event :: mp_rx_stream_event
  next_state :: mp_rx_slice_state

text \<open>The state \<open>{0}\<close>.\<close>

definition zero_state :: mp_rx_slice_state where
  "zero_state = \<lparr> bitmap = replicate 8 0, received_count = 0, termination_at = 0,
     watermark = 0 \<rparr>"

section \<open>Operators\<close>

definition mp_rx_calc_termination :: "u8 \<Rightarrow> u16 \<Rightarrow> u16 \<Rightarrow> u16" where
  "mp_rx_calc_termination slice_idx payload_size max_payload =
     mp_slice_idx_to_offset slice_idx max_payload + payload_size"

definition mp_rx_termination_to_slice_count :: "u32 \<Rightarrow> u16 \<Rightarrow> u16 res" where
  "mp_rx_termination_to_slice_count term max_payload =
     (if max_payload = 0 then Inl Div_By_Zero
      else Inr (ucast ((term + ucast max_payload - 1) div ucast max_payload)))"

definition mp_rx_is_complete :: "mp_rx_slice_state \<Rightarrow> u16 \<Rightarrow> bool res" where
  "mp_rx_is_complete state max_payload =
     (if termination_at state > 0
      then bindE (mp_rx_termination_to_slice_count (ucast (termination_at state)) max_payload)
             (\<lambda>n. Inr (received_count state \<ge> n))
      else Inr False)"

definition mp_rx_header_to_coordinate ::
    "mp_config \<Rightarrow> mp_header_meta \<Rightarrow> mp_coordinate" where
  "mp_rx_header_to_coordinate config header =
     (let max_p = mp_max_payload config
      in \<lparr> coord_sender_id = hdr_sender_id header,
           coord_package_id = package_serial header,
           coord_offset = mp_slice_idx_to_offset (slice_serial header) max_p \<rparr>)"

text \<open>
  The scan of \<open>mp_rx_advance_watermark\<close>. The watermark is a 16-bit word, so a loop that
  is still running after 65536 rounds has come back to an earlier watermark and never
  exits; the fuel is therefore exact and running out of it is the value \<open>Diverges\<close>.
\<close>

fun mp_rx_watermark_loop ::
    "nat \<Rightarrow> mp_rx_slice_state \<Rightarrow> u16 \<Rightarrow> u16 \<Rightarrow> u16 res" where
  "mp_rx_watermark_loop 0 state max_payload wm = Inl Diverges"
| "mp_rx_watermark_loop (Suc fuel) state max_payload wm =
     (let term = termination_at state
      in if term > 0 \<and> wm \<ge> term then Inr wm
      else bindE (mp_offset_to_slice_idx wm max_payload) (\<lambda>idx.
        let slice_id = (ucast idx :: u16);
            arr_idx = (ucast (drop_bit 5 slice_id) :: u8);
            bit_mask = (push_bit (unat (slice_id AND 31)) 1 :: u32)
        in if bitmap state ! unat arr_idx AND bit_mask = 0 then Inr wm
           else mp_rx_watermark_loop fuel state max_payload (wm + max_payload)))"

definition watermark_fuel :: nat where "watermark_fuel = 65536"

definition mp_rx_advance_watermark :: "mp_rx_slice_state \<Rightarrow> u16 \<Rightarrow> u16 res" where
  "mp_rx_advance_watermark state max_payload =
     bindE (mp_rx_watermark_loop watermark_fuel state max_payload (watermark state)) (\<lambda>wm.
       if termination_at state > 0 \<and> wm > termination_at state
       then Inr (termination_at state) else Inr wm)"

definition mp_rx_deliver_size :: "u32 \<Rightarrow> u32 \<Rightarrow> u16 \<Rightarrow> u16" where
  "mp_rx_deliver_size cur_off new_wm max_payload =
     (if cur_off + ucast max_payload > new_wm then ucast (new_wm - cur_off) else max_payload)"

definition mp_rx_calc_slice_step ::
    "mp_rx_slice_state \<Rightarrow> u8 \<Rightarrow> u16 \<Rightarrow> u16 \<Rightarrow> bool \<Rightarrow> mp_rx_slice_inst res" where
  "mp_rx_calc_slice_step state slice_id payload_size max_payload is_eop =
     (let arr_idx = unat (drop_bit 5 slice_id);
          bit_mask = (push_bit (unat (slice_id AND 31)) 1 :: u32)
      in if bitmap state ! arr_idx AND bit_mask \<noteq> 0
      then Inr \<lparr> inst_event = MP_RX_STREAM_DUPLICATE, next_state = state \<rparr>
      else
        let st1 = state\<lparr> bitmap := (bitmap state)[arr_idx := bitmap state ! arr_idx OR bit_mask] \<rparr>;
            st2 = (if payload_size < max_payload \<or> is_eop
                   then st1\<lparr> termination_at :=
                          mp_rx_calc_termination slice_id payload_size max_payload \<rparr>
                   else st1);
            st3 = (if \<not> (payload_size = 0 \<and> is_eop)
                   then st2\<lparr> received_count := received_count state + 1 \<rparr> else st2);
            off = (ucast (mp_slice_idx_to_offset slice_id max_payload) :: u32)
        in if off > ucast (watermark state)
           then Inr \<lparr> inst_event = MP_RX_STREAM_NEW_SLICE_OUT_OF_ORDER, next_state = st3 \<rparr>
           else
             bindE (mp_rx_advance_watermark st3 max_payload) (\<lambda>wm.
             let st4 = st3\<lparr> watermark := wm \<rparr>
             in bindE (mp_rx_is_complete st4 max_payload) (\<lambda>done.
               Inr \<lparr> inst_event = (if done then MP_RX_STREAM_COMPLETE
                                   else MP_RX_STREAM_NEW_SLICE_IN_ORDER),
                     next_state = st4 \<rparr>)))"

section \<open>The bitmap\<close>

definition slice_seen :: "mp_rx_slice_state \<Rightarrow> nat \<Rightarrow> bool" where
  "slice_seen st i = bit (bitmap st ! (i div 32)) (i mod 32)"

definition bitmap_wf :: "mp_rx_slice_state \<Rightarrow> bool" where
  "bitmap_wf st \<longleftrightarrow> length (bitmap st) = 8"

lemma bit_mask_test: "(w :: u32) AND 2 ^ k = 0 \<longleftrightarrow> \<not> bit w k" if "k < 32"
proof
  assume "w AND 2 ^ k = 0"
  then have "\<not> bit (w AND 2 ^ k) k" by simp
  then show "\<not> bit w k" using that by (auto simp: bit_simps)
next
  assume *: "\<not> bit w k"
  show "w AND 2 ^ k = 0"
    by (rule bit_word_eqI) (use * in \<open>auto simp: bit_simps\<close>)
qed

lemma unat_and_31 [simp]: "unat ((x :: u8) AND 31) = unat x mod 32"
proof -
  have "x AND 31 = take_bit 5 x" by (simp add: take_bit_eq_mask mask_eq_exp_minus_1)
  then show ?thesis by (simp add: take_bit_eq_mod unat_mod)
qed

lemma unat_and_31_16 [simp]: "unat ((x :: u16) AND 31) = unat x mod 32"
proof -
  have "x AND 31 = take_bit 5 x" by (simp add: take_bit_eq_mask mask_eq_exp_minus_1)
  then show ?thesis by (simp add: take_bit_eq_mod unat_mod)
qed

lemma unat_drop_bit_5 [simp]: "unat (drop_bit 5 (x :: u8)) = unat x div 32"
  by (simp add: drop_bit_eq_div unat_div)

lemma unat_arr_idx_16 [simp]:
  "unat (ucast (drop_bit 5 (ucast (x :: u8) :: u16)) :: u8) = unat x div 32"
proof -
  have "unat x div 32 < 256" using unat_u8_less [of x] by linarith
  then show ?thesis by (simp add: unat_u16_to_u8 drop_bit_eq_div unat_div)
qed

lemma seen_test [simp]:
  "bitmap st ! (unat (x :: u8) div 32) AND 2 ^ (unat x mod 32) = 0 \<longleftrightarrow>
     \<not> slice_seen st (unat x)"
  by (simp add: bit_mask_test slice_seen_def)

lemma slice_seen_upd:
  assumes "bitmap_wf st" and "j < 256"
  shows "slice_seen (st\<lparr> bitmap := (bitmap st)[i div 32 := bitmap st ! (i div 32) OR 2 ^ (i mod 32)] \<rparr>) j
    \<longleftrightarrow> j = i \<or> slice_seen st j"
proof -
  have len: "j div 32 < length (bitmap st)" using assms by (simp add: bitmap_wf_def)
  show ?thesis
  proof (cases "j div 32 = i div 32")
    case True
    then have "j = i \<longleftrightarrow> j mod 32 = i mod 32"
      by (metis div_mult_mod_eq)
    then show ?thesis
      using True len by (auto simp: slice_seen_def bit_simps)
  next
    case False
    then show ?thesis by (auto simp: slice_seen_def)
  qed
qed

lemma bitmap_eqI:
  assumes "bitmap_wf a" and "bitmap_wf b"
    and "\<And>i. i < 256 \<Longrightarrow> slice_seen a i = slice_seen b i"
  shows "bitmap a = bitmap b"
proof (rule nth_equalityI)
  show "length (bitmap a) = length (bitmap b)" using assms by (simp add: bitmap_wf_def)
next
  fix k assume k: "k < length (bitmap a)"
  show "bitmap a ! k = bitmap b ! k"
  proof (rule bit_word_eqI)
    fix n assume n: "n < LENGTH(32)"
    have "slice_seen a (32 * k + n) = slice_seen b (32 * k + n)"
      using k n assms(1) by (intro assms(3)) (simp add: bitmap_wf_def)
    then show "bit (bitmap a ! k) n = bit (bitmap b ! k) n"
      using n by (simp add: slice_seen_def)
  qed
qed

lemma zero_state_simps [simp]:
  "bitmap_wf zero_state" "i < 256 \<Longrightarrow> \<not> slice_seen zero_state i"
  "received_count zero_state = 0" "termination_at zero_state = 0" "watermark zero_state = 0"
  by (simp_all add: zero_state_def bitmap_wf_def slice_seen_def)

section \<open>The watermark scan\<close>

text \<open>
  The scan stops at a watermark that has reached a known end, or whose slice is missing.
\<close>

definition wm_stops :: "mp_rx_slice_state \<Rightarrow> u16 \<Rightarrow> u16 \<Rightarrow> bool" where
  "wm_stops st mp wm \<longleftrightarrow>
     (termination_at st > 0 \<and> wm \<ge> termination_at st) \<or>
     \<not> slice_seen st ((unat wm div unat mp) mod 256)"

lemma watermark_loop_Suc:
  assumes "mp \<noteq> 0"
  shows "mp_rx_watermark_loop (Suc n) st mp wm =
    (if wm_stops st mp wm then Inr wm else mp_rx_watermark_loop n st mp (wm + mp))"
  using assms
  by (auto simp: wm_stops_def offset_to_slice_idx_Inr Let_def unat_slice_idx
      simp flip: unat_slice_idx)

declare mp_rx_watermark_loop.simps(2) [simp del]

lemma watermark_loop_eq:
  assumes "mp \<noteq> 0"
  shows "mp_rx_watermark_loop n st mp wm =
    (if \<exists>j<n. wm_stops st mp (wm + of_nat j * mp)
     then Inr (wm + of_nat (LEAST j. wm_stops st mp (wm + of_nat j * mp)) * mp)
     else Inl Diverges)"
proof (induction n arbitrary: wm)
  case (Suc n)
  let ?P = "\<lambda>j. wm_stops st mp (wm + of_nat j * mp)"
  show ?case
  proof (cases "?P 0")
    case True
    then have "(LEAST j. ?P j) = 0" by (rule Least_eq_0)
    then show ?thesis using True by (auto simp: watermark_loop_Suc assms)
  next
    case False
    have shift: "wm + mp + of_nat j * mp = wm + of_nat (Suc j) * mp" for j
      by (simp add: algebra_simps)
    have ex: "(\<exists>j<Suc n. ?P j) \<longleftrightarrow> (\<exists>j<n. ?P (Suc j))"
      using False by (auto simp: less_Suc_eq_0_disj)
    have least: "(LEAST j. ?P j) = Suc (LEAST j. ?P (Suc j))" if "?P (Suc j)" for j
      using that False by (rule Least_Suc)
    show ?thesis
      using False least
      by (auto simp: watermark_loop_Suc assms Suc.IH shift ex simp del: of_nat_Suc)
  qed
qed simp

text \<open>The fuel is exact: past 65536 rounds nothing new is ever looked at.\<close>

lemma wm_orbit_mod: "wm + of_nat (j mod 65536) * mp = (wm + of_nat j * mp :: u16)"
proof -
  have "(of_nat (j mod 65536) :: u16) = of_nat j"
    by (simp add: word_unat_eq_iff unat_u16_of_nat)
  then show ?thesis by simp
qed

lemma watermark_loop_fuel_exact:
  assumes "mp \<noteq> 0" and "watermark_fuel \<le> n"
  shows "mp_rx_watermark_loop n st mp wm = mp_rx_watermark_loop watermark_fuel st mp wm"
proof -
  have "(\<exists>j<n. wm_stops st mp (wm + of_nat j * mp)) \<longleftrightarrow>
      (\<exists>j<watermark_fuel. wm_stops st mp (wm + of_nat j * mp))"
  proof
    assume "\<exists>j<n. wm_stops st mp (wm + of_nat j * mp)"
    then obtain j where "wm_stops st mp (wm + of_nat j * mp)" by blast
    then have "wm_stops st mp (wm + of_nat (j mod 65536) * mp)" by (simp add: wm_orbit_mod)
    then show "\<exists>j<watermark_fuel. wm_stops st mp (wm + of_nat j * mp)"
      by (intro exI [of _ "j mod 65536"]) (simp add: watermark_fuel_def)
  qed (use assms(2) less_le_trans in blast)
  then show ?thesis by (simp add: watermark_loop_eq assms(1))
qed

text \<open>A form for proofs: the scan from \<open>wm\<close> that first stops after \<open>d\<close> rounds.\<close>

lemma watermark_loop_first:
  assumes "mp \<noteq> 0" and "d < n" and "wm_stops st mp (wm + of_nat d * mp)"
    and "\<And>j. j < d \<Longrightarrow> \<not> wm_stops st mp (wm + of_nat j * mp)"
  shows "mp_rx_watermark_loop n st mp wm = Inr (wm + of_nat d * mp)"
proof -
  have "(LEAST j. wm_stops st mp (wm + of_nat j * mp)) = d"
    using assms(3,4) by (intro Least_equality) (auto simp: not_less [symmetric])
  then show ?thesis using assms(2,3) by (auto simp: watermark_loop_eq assms(1))
qed

section \<open>The slice transition, in terms of the slices seen\<close>

text \<open>The state after recording a new slice, before the watermark is looked at.\<close>

definition record_slice ::
    "mp_rx_slice_state \<Rightarrow> u8 \<Rightarrow> u16 \<Rightarrow> u16 \<Rightarrow> bool \<Rightarrow> mp_rx_slice_state" where
  "record_slice st i n mp is_eop =
     st\<lparr> bitmap := (bitmap st)[unat i div 32 :=
            bitmap st ! (unat i div 32) OR 2 ^ (unat i mod 32)],
         termination_at := (if n < mp \<or> is_eop then mp_rx_calc_termination i n mp
                            else termination_at st),
         received_count := (if n = 0 \<and> is_eop then received_count st
                            else received_count st + 1) \<rparr>"

lemma record_slice_simps [simp]:
  "watermark (record_slice st i n mp e) = watermark st"
  "bitmap_wf (record_slice st i n mp e) = bitmap_wf st"
  "termination_at (record_slice st i n mp e) =
     (if n < mp \<or> e then mp_rx_calc_termination i n mp else termination_at st)"
  "received_count (record_slice st i n mp e) =
     (if n = 0 \<and> e then received_count st else received_count st + 1)"
  by (simp_all add: record_slice_def bitmap_wf_def)

lemma slice_seen_watermark [simp]: "slice_seen (st\<lparr> watermark := w \<rparr>) j = slice_seen st j"
  by (simp add: slice_seen_def)

lemma slice_seen_record [simp]:
  assumes "bitmap_wf st" and "j < 256"
  shows "slice_seen (record_slice st i n mp e) j \<longleftrightarrow> j = unat i \<or> slice_seen st j"
  using slice_seen_upd [OF assms, of "unat i"]
  by (simp add: record_slice_def slice_seen_def)

lemma calc_slice_step_eq:
  "mp_rx_calc_slice_step st i n mp e =
    (if slice_seen st (unat i)
     then Inr \<lparr> inst_event = MP_RX_STREAM_DUPLICATE, next_state = st \<rparr>
     else if unat (mp_slice_idx_to_offset i mp) > unat (watermark st)
     then Inr \<lparr> inst_event = MP_RX_STREAM_NEW_SLICE_OUT_OF_ORDER,
                next_state = record_slice st i n mp e \<rparr>
     else bindE (mp_rx_advance_watermark (record_slice st i n mp e) mp) (\<lambda>wm.
          bindE (mp_rx_is_complete ((record_slice st i n mp e)\<lparr> watermark := wm \<rparr>) mp) (\<lambda>done.
            Inr \<lparr> inst_event = (if done then MP_RX_STREAM_COMPLETE
                                else MP_RX_STREAM_NEW_SLICE_IN_ORDER),
                  next_state = (record_slice st i n mp e)\<lparr> watermark := wm \<rparr> \<rparr>)))"
proof -
  have wide: "(ucast x :: u32) > ucast y \<longleftrightarrow> unat x > unat y" for x y :: u16
    by (simp add: word_less_nat_alt)
  show ?thesis
    unfolding mp_rx_calc_slice_step_def Let_def wide
    by (cases "n < mp"; cases "n = 0"; cases e; simp add: record_slice_def)
qed

lemma calc_slice_step_wf:
  "mp_rx_calc_slice_step st i n mp e = Inr r \<Longrightarrow> bitmap_wf st \<Longrightarrow> bitmap_wf (next_state r)"
  by (auto simp: calc_slice_step_eq bindE_eq_Inr record_slice_def bitmap_wf_def split: if_splits)

section \<open>Counting slices\<close>

lemma slice_count_ceil:
  assumes "mp \<noteq> 0"
  shows "\<exists>n. mp_rx_termination_to_slice_count (ucast (t :: u16)) mp = Inr n \<and>
    unat n = (unat t + unat mp - 1) div unat mp"
proof -
  have mp: "0 < unat mp" using assms by (simp add: unat_gt_0)
  have lt: "unat t + unat mp < 4294967296"
    using unat_u16_less [of t] unat_u16_less [of mp] by linarith
  have sum: "unat (ucast t + ucast mp - 1 :: u32) = unat t + unat mp - 1"
    using lt mp by (simp add: unat_sub_if' unat_word_ariths word_le_nat_alt)
  have "(unat t + unat mp - 1) div unat mp < 65536"
  proof (rule less_mult_imp_div_less)
    obtain m where "unat mp = Suc m" using mp by (cases "unat mp") auto
    then show "unat t + unat mp - 1 < 65536 * unat mp"
      by (simp add: trans_less_add2)
  qed
  then show ?thesis
    using assms sum by (simp add: mp_rx_termination_to_slice_count_def unat_u32_to_u16 unat_div)
qed

lemma ceil_le_iff:
  fixes t m c :: nat
  assumes "0 < m" and "0 < t"
  shows "(t + m - 1) div m \<le> c \<longleftrightarrow> t \<le> c * m"
proof -
  have "(t + m - 1) div m < Suc c \<longleftrightarrow> t + m - 1 < Suc c * m"
    using assms(1) by (rule div_less_iff_less_mult)
  then show ?thesis using assms by (auto simp: less_Suc_eq_le)
qed

text \<open>The piece the flush takes next: a full slice, or what is left of the region.\<close>

lemma unat_deliver_size:
  assumes "unat cur < unat new" and "unat new \<le> 65535"
  shows "unat (mp_rx_deliver_size cur new mp) = min (unat mp) (unat new - unat cur)"
proof -
  have "unat cur + unat mp < 4294967296" using assms unat_u16_less [of mp] by linarith
  then have sum: "unat (cur + ucast mp) = unat cur + unat mp" by (simp add: unat_word_ariths)
  have "unat (new - cur) = unat new - unat cur"
    using assms(1) by (simp add: unat_sub word_le_nat_alt)
  then show ?thesis
    using assms sum by (auto simp: mp_rx_deliver_size_def word_less_nat_alt unat_u32_to_u16)
qed

section \<open>Properties\<close>

text \<open>A slice that has been recorded is recognised for good: whatever payload size, payload
  maximum and end mark a later slice with the same number has, it is a DUPLICATE and the state
  stays exactly as it is.\<close>

lemma recorded_slice_is_duplicate:
  assumes "mp_rx_calc_slice_step st i n mp e = Inr r" and "length (bitmap st) = 8"
  shows "mp_rx_calc_slice_step (next_state r) i n' mp' e' =
    Inr \<lparr> inst_event = MP_RX_STREAM_DUPLICATE, next_state = next_state r \<rparr>"
proof -
  have wf: "bitmap_wf st" using assms(2) by (simp add: bitmap_wf_def)
  have "slice_seen (next_state r) (unat i)"
  proof (cases "slice_seen st (unat i)")
    case False
    have rec: "slice_seen (record_slice st i n mp e) (unat i)"
      using wf by simp
    consider "next_state r = record_slice st i n mp e"
      | w where "next_state r = (record_slice st i n mp e)\<lparr> watermark := w \<rparr>"
      using assms(1) False by (auto simp: calc_slice_step_eq bindE_eq_Inr split: if_splits)
    then show ?thesis using rec by cases (simp_all add: slice_seen_def)
  qed (use assms(1) in \<open>auto simp: calc_slice_step_eq\<close>)
  then show ?thesis by (simp add: calc_slice_step_eq)
qed

lemma recorded_slice_is_duplicate_witness:
  "mp_rx_calc_slice_step zero_state 3 296 296 False =
     Inr \<lparr> inst_event = MP_RX_STREAM_NEW_SLICE_OUT_OF_ORDER,
           next_state = record_slice zero_state 3 296 296 False \<rparr> \<and>
   mp_rx_calc_slice_step (record_slice zero_state 3 296 296 False) 3 7 96 True =
     Inr \<lparr> inst_event = MP_RX_STREAM_DUPLICATE,
           next_state = record_slice zero_state 3 296 296 False \<rparr>"
proof -
  have step: "mp_rx_calc_slice_step zero_state 3 296 296 False =
     Inr \<lparr> inst_event = MP_RX_STREAM_NEW_SLICE_OUT_OF_ORDER,
           next_state = record_slice zero_state 3 296 296 False \<rparr>"
    by (simp add: calc_slice_step_eq unat_slice_offset)
  show ?thesis
    using step recorded_slice_is_duplicate [OF step, of 7 96 True]
    by (simp add: zero_state_def)
qed

text \<open>C24: The watermark scan is decided by the watermarks it would visit: it returns exactly when
  one of them has reached the known end or lies on a missing slice, then with the first such one
  cut to the end; when there is none the loop of the code never exits, however long it runs.\<close>

theorem advance_watermark_spec:
  assumes "mp \<noteq> 0"
  shows "mp_rx_advance_watermark st mp =
     (if \<exists>j. wm_stops st mp (watermark st + of_nat j * mp)
      then Inr (let w = watermark st +
                  of_nat (LEAST j. wm_stops st mp (watermark st + of_nat j * mp)) * mp
                in if termination_at st > 0 \<and> w > termination_at st
                   then termination_at st else w)
      else Inl Diverges) \<and>
   ((\<forall>j. \<not> wm_stops st mp (watermark st + of_nat j * mp)) \<longrightarrow>
      (\<forall>fuel. mp_rx_watermark_loop fuel st mp (watermark st) = Inl Diverges))"
proof -
  have "(\<exists>j<watermark_fuel. wm_stops st mp (watermark st + of_nat j * mp)) \<longleftrightarrow>
      (\<exists>j. wm_stops st mp (watermark st + of_nat j * mp))"
  proof
    assume "\<exists>j. wm_stops st mp (watermark st + of_nat j * mp)"
    then obtain j where "wm_stops st mp (watermark st + of_nat (j mod 65536) * mp)"
      by (auto simp: wm_orbit_mod)
    then show "\<exists>j<watermark_fuel. wm_stops st mp (watermark st + of_nat j * mp)"
      by (intro exI [of _ "j mod 65536"]) (simp add: watermark_fuel_def)
  qed blast
  then show ?thesis
    using assms by (auto simp: mp_rx_advance_watermark_def watermark_loop_eq Let_def)
qed

theorem advance_watermark_spec_witness:
  "mp_rx_advance_watermark zero_state 296 = Inr 0"
proof -
  have stop: "wm_stops zero_state 296 (watermark zero_state + of_nat 0 * 296)"
    by (simp add: wm_stops_def)
  then have least: "(LEAST j. wm_stops zero_state 296 (watermark zero_state + of_nat j * 296)) = 0"
    by (rule Least_eq_0)
  have ex: "\<exists>j. wm_stops zero_state 296 (watermark zero_state + of_nat j * 296)"
    using stop by (rule exI)
  show ?thesis
    using advance_watermark_spec [of 296 zero_state] ex least by (simp add: Let_def)
qed

text \<open>A package counts as complete exactly when its end is known and the slices counted so
  far, taken as full, reach that end; the computation faults for no state when the maximum payload
  is not zero.\<close>

lemma is_complete_spec:
  assumes "mp \<noteq> 0"
  shows "mp_rx_is_complete st mp =
    Inr (0 < termination_at st \<and>
         unat (termination_at st) \<le> unat (received_count st) * unat mp)"
proof (cases "termination_at st = 0")
  case False
  then have pos: "0 < unat (termination_at st)" "0 < termination_at st"
    by (simp_all add: unat_gt_0 word_neq_0_conv)
  obtain n where n: "mp_rx_termination_to_slice_count (ucast (termination_at st)) mp = Inr n"
      "unat n = (unat (termination_at st) + unat mp - 1) div unat mp"
    using slice_count_ceil [OF assms] by blast
  have "received_count st \<ge> n \<longleftrightarrow>
      unat (termination_at st) \<le> unat (received_count st) * unat mp"
    using ceil_le_iff [of "unat mp" "unat (termination_at st)"] pos(1) assms
    by (simp add: word_le_nat_alt n(2) unat_gt_0)
  then show ?thesis using pos(2) by (simp add: mp_rx_is_complete_def n(1))
qed (simp add: mp_rx_is_complete_def)

lemma is_complete_spec_witness:
  "mp_rx_is_complete (zero_state\<lparr> termination_at := 300, received_count := 2 \<rparr>) 296 = Inr True"
  using is_complete_spec [of 296 "zero_state\<lparr> termination_at := 300, received_count := 2 \<rparr>"]
  by simp

end
