(* ===== verification/Os.thy ===== *)
theory Os
  imports Prelude
begin

text \<open>
  The file descriptors the command line tools use. \<open>read\<close> and \<open>write\<close> may transfer fewer
  bytes than asked for and may fail; how many each call transfers is decided outside the
  program, so an input and an output carry the list of the answers of the coming calls. When
  that list is used up every call transfers all it can. The only code of the repository in
  this theory is \<open>write_all\<close>, the loop around \<open>write\<close> that \<open>session.c\<close> and \<open>rx.c\<close> use.
\<close>

section \<open>Reading and writing\<close>

record in_fd =
  in_bytes :: "u8 list"
  in_reads :: "nat option list" \<comment> \<open>\<open>None\<close>: the call fails; \<open>Some k\<close>: at most \<open>k\<close> bytes\<close>

record out_fd =
  out_bytes :: "u8 list"
  out_writes :: "nat option list"

definition os_read :: "in_fd \<Rightarrow> nat \<Rightarrow> u8 list option \<times> in_fd" where
  "os_read inp n =
     (case in_reads inp of
        [] \<Rightarrow> (Some (take n (in_bytes inp)), inp\<lparr> in_bytes := drop n (in_bytes inp) \<rparr>)
      | None # rs \<Rightarrow> (None, inp\<lparr> in_reads := rs \<rparr>)
      | Some k # rs \<Rightarrow> (Some (take (min k n) (in_bytes inp)),
          inp\<lparr> in_bytes := drop (min k n) (in_bytes inp), in_reads := rs \<rparr>))"

definition os_write :: "out_fd \<Rightarrow> u8 list \<Rightarrow> nat option \<times> out_fd" where
  "os_write out d =
     (case out_writes out of
        [] \<Rightarrow> (Some (length d), out\<lparr> out_bytes := out_bytes out @ d \<rparr>)
      | None # rs \<Rightarrow> (None, out\<lparr> out_writes := rs \<rparr>)
      | Some k # rs \<Rightarrow> (Some (min k (length d)),
          out\<lparr> out_bytes := out_bytes out @ take k d, out_writes := rs \<rparr>))"

text \<open>A call moves the bytes from the front of the input, or to the end of the output.\<close>

lemma os_read_front:
  "os_read inp n = (Some d, inp') \<Longrightarrow> in_bytes inp = d @ in_bytes inp' \<and> length d \<le> n"
  by (auto simp: os_read_def split: list.splits option.splits)

lemma os_write_none_left [simp]:
  "out_writes out = [] \<Longrightarrow>
     os_write out d = (Some (length d), out\<lparr> out_bytes := out_bytes out @ d \<rparr>)"
  by (simp add: os_write_def)

section \<open>Writing everything\<close>

text \<open>
  \<open>while (len > 0) { n = write(fd, p, len); if (n < 0) fail; p += n; len -= n; }\<close>
\<close>

function write_all :: "out_fd \<Rightarrow> u8 list \<Rightarrow> bool \<times> out_fd" where
  "write_all out d =
     (if d = [] then (True, out)
      else case os_write out d of
        (None, out') \<Rightarrow> (False, out')
      | (Some n, out') \<Rightarrow> write_all out' (drop n d))"
  by pat_completeness auto
termination
  by (relation "measure (\<lambda>(out, d). length (out_writes out) + length d)")
    (auto simp: os_write_def split: list.splits option.splits)

declare write_all.simps [simp del]

lemma write_all_Nil [simp]: "write_all out [] = (True, out)"
  by (subst write_all.simps) simp

lemma write_all_undisturbed [simp]:
  assumes "out_writes out = []"
  shows "write_all out d = (True, out\<lparr> out_bytes := out_bytes out @ d \<rparr>)"
  using assms by (subst write_all.simps) simp

text \<open>
  Short writes do not matter: unless a call fails, everything is written, in order and once.
\<close>

lemma write_all_complete:
  "None \<notin> set (out_writes out) \<Longrightarrow>
     fst (write_all out d) \<and>
     out_bytes (snd (write_all out d)) = out_bytes out @ d \<and>
     None \<notin> set (out_writes (snd (write_all out d)))"
proof (induction out d rule: write_all.induct)
  case (1 out d)
  show ?case
  proof (cases "d = []")
    case False
    show ?thesis
    proof (cases "out_writes out")
      case (Cons r rs)
      then obtain k where k: "r = Some k" "None \<notin> set rs"
        using "1.prems" by (cases r) auto
      let ?out = "out\<lparr> out_bytes := out_bytes out @ take k d, out_writes := rs \<rparr>"
      have w: "os_write out d = (Some (min k (length d)), ?out)"
        by (simp add: os_write_def Cons k(1))
      have "drop (min k (length d)) d = drop k d" by (simp add: min_def)
      then show ?thesis
        using "1.IH" [OF False w [symmetric] refl] k(2) False
        by (subst (1 2 3) write_all.simps) (simp add: w)
    qed (use False in simp)
  qed (use 1 in simp)
qed

section \<open>Reading to the end\<close>

text \<open>
  The chunks a loop \<open>while ((n = read(fd, buf, size)) > 0)\<close> gets, and the input it leaves.
\<close>

function read_chunks :: "in_fd \<Rightarrow> nat \<Rightarrow> u8 list list \<times> in_fd" where
  "read_chunks inp n =
     (case os_read inp n of
        (Some (x # xs), inp') \<Rightarrow> (case read_chunks inp' n of (ds, i) \<Rightarrow> ((x # xs) # ds, i))
      | (_, inp') \<Rightarrow> ([], inp'))"
  by pat_completeness auto
termination
  by (relation "measure (\<lambda>(inp, n). length (in_bytes inp))") (auto dest!: sym [THEN os_read_front])

declare read_chunks.simps [simp del]

lemma read_chunks_bounded: "list_all (\<lambda>d. length d \<le> n) (fst (read_chunks inp n))"
proof (induction inp n rule: read_chunks.induct)
  case (1 inp n)
  show ?case
  proof (cases "\<exists>x xs inp'. os_read inp n = (Some (x # xs), inp')")
    case True
    then obtain x xs inp' where r: "os_read inp n = (Some (x # xs), inp')" by blast
    then show ?thesis
      using "1.IH" [OF r [symmetric] refl refl] os_read_front [OF r]
      by (subst read_chunks.simps) (auto simp: case_prod_unfold)
  next
    case False
    then show ?thesis
      by (subst read_chunks.simps) (auto split: prod.split option.split list.split)
  qed
qed

text \<open>Unless a call fails or returns nothing, the chunks are the whole input, in order.\<close>

definition reads_progress :: "in_fd \<Rightarrow> bool" where
  "reads_progress inp \<longleftrightarrow> list_all (\<lambda>r. case r of None \<Rightarrow> False | Some k \<Rightarrow> 0 < k) (in_reads inp)"

lemma os_read_progress:
  assumes "0 < n" and "reads_progress inp" and "in_bytes inp \<noteq> []"
  shows "\<exists>x xs inp'. os_read inp n = (Some (x # xs), inp') \<and> reads_progress inp'"
  using assms
  by (cases "in_bytes inp"; cases "in_reads inp")
    (auto simp: os_read_def reads_progress_def min_def gr0_conv_Suc split: option.splits)

lemma read_chunks_all:
  "0 < n \<Longrightarrow> reads_progress inp \<Longrightarrow>
     concat (fst (read_chunks inp n)) = in_bytes inp \<and> in_bytes (snd (read_chunks inp n)) = []"
proof (induction inp n rule: read_chunks.induct)
  case (1 inp n)
  show ?case
  proof (cases "in_bytes inp = []")
    case True
    then show ?thesis
      by (subst (1 2) read_chunks.simps)
        (auto simp: os_read_def split: prod.split option.split list.split)
  next
    case False
    obtain x xs inp' where r': "os_read inp n = (Some (x # xs), inp')" and p: "reads_progress inp'"
      using os_read_progress [OF "1.prems" False] by blast
    show ?thesis
      using "1.IH" [OF r' [symmetric] refl refl "1.prems"(1) p] os_read_front [OF r']
      by (subst (1 2) read_chunks.simps) (simp add: r' case_prod_unfold)
  qed
qed

end
