(* ===== verification/Session.thy ===== *)
theory Session
  imports Rx Os
begin

text \<open>
  \<^bold>\<open>src/tools/session.h\<close> and \<^bold>\<open>session.c\<close>: the session files in which the tools keep
  their state between runs. A file is the packed struct, little-endian, and for the receiver
  the assembly buffer behind it. \<open>mmap\<close> with \<open>MAP_SHARED\<close> makes the loaded struct and the
  file the same memory, so a loaded session is the decoded file and saving is encoding it. A
  file is \<open>None\<close> when it cannot be opened.
\<close>

section \<open>The structs\<close>

definition MP_SESSION_SEND_MAGIC :: u32 where "MP_SESSION_SEND_MAGIC = 0x4D505364"
definition MP_SESSION_RECV_MAGIC :: u32 where "MP_SESSION_RECV_MAGIC = 0x4D505276"

record mp_tx_session =
  tx_magic :: u32
  tx_transmission_unit :: u16
  session_coord :: mp_coordinate

record mp_rx_session =
  rx_magic :: u32
  rx_transmission_unit :: u16
  session_state :: mp_rx_slice_state

text \<open>
  \<open>sizeof\<close> of the structs. \<open>mp_header_meta_t\<close> has four bytes and a \<open>uint16_t\<close>;
  \<open>mp_rx_slice_state_t\<close> has 38 bytes of fields and two of padding at the end.
\<close>

definition sizeof_mp_header_meta :: nat where "sizeof_mp_header_meta = 6"
definition sizeof_mp_tx_session :: nat where "sizeof_mp_tx_session = 10"
definition sizeof_mp_rx_session :: nat where "sizeof_mp_rx_session = 46"

definition coord_bytes :: "mp_coordinate \<Rightarrow> u8 list" where
  "coord_bytes c = [coord_sender_id c, coord_package_id c] @ u16_bytes (coord_offset c)"

definition bytes_coord :: "u8 list \<Rightarrow> mp_coordinate" where
  "bytes_coord bs = \<lparr> coord_sender_id = bs ! 0, coord_package_id = bs ! 1,
     coord_offset = bytes_u16 (drop 2 bs) \<rparr>"

definition tx_session_bytes :: "mp_tx_session \<Rightarrow> u8 list" where
  "tx_session_bytes s = u32_bytes (tx_magic s) @ u16_bytes (tx_transmission_unit s) @
     coord_bytes (session_coord s)"

definition bytes_tx_session :: "u8 list \<Rightarrow> mp_tx_session" where
  "bytes_tx_session bs = \<lparr> tx_magic = bytes_u32 (take 4 bs),
     tx_transmission_unit = bytes_u16 (take 2 (drop 4 bs)),
     session_coord = bytes_coord (drop 6 bs) \<rparr>"

definition state_bytes :: "mp_rx_slice_state \<Rightarrow> u8 list" where
  "state_bytes st = concat (map u32_bytes (bitmap st)) @ u16_bytes (received_count st) @
     u16_bytes (termination_at st) @ u16_bytes (watermark st) @ [0, 0]"

definition bytes_state :: "u8 list \<Rightarrow> mp_rx_slice_state" where
  "bytes_state bs = \<lparr> bitmap = map bytes_u32 (full_slices 4 (take 32 bs)),
     received_count = bytes_u16 (take 2 (drop 32 bs)),
     termination_at = bytes_u16 (take 2 (drop 34 bs)),
     watermark = bytes_u16 (take 2 (drop 36 bs)) \<rparr>"

definition rx_session_bytes :: "mp_rx_session \<Rightarrow> u8 list" where
  "rx_session_bytes s = u32_bytes (rx_magic s) @ u16_bytes (rx_transmission_unit s) @
     state_bytes (session_state s)"

definition bytes_rx_session :: "u8 list \<Rightarrow> mp_rx_session" where
  "bytes_rx_session bs = \<lparr> rx_magic = bytes_u32 (take 4 bs),
     rx_transmission_unit = bytes_u16 (take 2 (drop 4 bs)),
     session_state = bytes_state (drop 6 bs) \<rparr>"

section \<open>Creating, loading and saving\<close>

definition rx_total_size :: "u16 \<Rightarrow> nat" where
  "rx_total_size tu =
     (let max_p = tu - of_nat sizeof_mp_header_meta;
          buf_size = 256 * unat max_p
      in sizeof_mp_rx_session + buf_size)"

definition mp_session_tx_create :: "u16 \<Rightarrow> out_fd \<Rightarrow> bool \<times> out_fd" where
  "mp_session_tx_create tu out =
     write_all out (tx_session_bytes \<lparr> tx_magic = MP_SESSION_SEND_MAGIC,
       tx_transmission_unit = tu,
       session_coord = \<lparr> coord_sender_id = 0, coord_package_id = 0, coord_offset = 0 \<rparr> \<rparr>)"

definition mp_session_tx_load :: "u8 list option \<Rightarrow> mp_tx_session option" where
  "mp_session_tx_load file =
     (case file of None \<Rightarrow> None
      | Some bs \<Rightarrow>
          if length bs \<noteq> sizeof_mp_tx_session then None
          else let s = bytes_tx_session bs
            in if tx_magic s \<noteq> MP_SESSION_SEND_MAGIC then None else Some s)"

definition mp_session_tx_save :: "mp_tx_session \<Rightarrow> u8 list" where
  "mp_session_tx_save s = tx_session_bytes s"

text \<open>The assembly area is filled with zeros, up to 4096 of them at a time.\<close>

function zero_fill :: "out_fd \<Rightarrow> nat \<Rightarrow> bool \<times> out_fd" where
  "zero_fill out buf_sz =
     (if 0 < buf_sz
      then let chunk = min buf_sz 4096
        in case write_all out (replicate chunk 0) of
             (False, out') \<Rightarrow> (False, out')
           | (True, out') \<Rightarrow> zero_fill out' (buf_sz - chunk)
      else (True, out))"
  by pat_completeness auto
termination by (relation "measure snd") auto

declare zero_fill.simps [simp del]

definition mp_session_rx_create :: "u16 \<Rightarrow> out_fd \<Rightarrow> bool \<times> out_fd" where
  "mp_session_rx_create tu out =
     (case write_all out (rx_session_bytes \<lparr> rx_magic = MP_SESSION_RECV_MAGIC,
             rx_transmission_unit = tu, session_state = zero_state \<rparr>) of
        (False, out') \<Rightarrow> (False, out')
      | (True, out') \<Rightarrow> zero_fill out' (rx_total_size tu - sizeof_mp_rx_session))"

definition mp_session_rx_load :: "u8 list option \<Rightarrow> (mp_rx_session \<times> u8 list) option" where
  "mp_session_rx_load file =
     (case file of None \<Rightarrow> None
      | Some bs \<Rightarrow>
          if length bs < sizeof_mp_rx_session then None
          else let peek = bytes_rx_session (take sizeof_mp_rx_session bs)
            in if rx_magic peek \<noteq> MP_SESSION_RECV_MAGIC then None
               else if length bs \<noteq> rx_total_size (rx_transmission_unit peek) then None
               else Some (bytes_rx_session bs, drop sizeof_mp_rx_session bs))"

definition mp_session_rx_save :: "mp_rx_session \<Rightarrow> u8 list \<Rightarrow> u8 list" where
  "mp_session_rx_save s assembly_buffer = rx_session_bytes s @ assembly_buffer"

section \<open>Encoding and decoding\<close>

lemma length_session_bytes [simp]:
  "length (tx_session_bytes s) = sizeof_mp_tx_session"
  "length (bitmap st) = 8 \<Longrightarrow> length (state_bytes st) = 40"
  "length (bitmap (session_state r)) = 8 \<Longrightarrow> length (rx_session_bytes r) = sizeof_mp_rx_session"
  by (simp_all add: tx_session_bytes_def coord_bytes_def sizeof_mp_tx_session_def state_bytes_def
      rx_session_bytes_def sizeof_mp_rx_session_def length_concat comp_def sum_list_triv)

lemma bytes_tx_session_bytes [simp]: "bytes_tx_session (tx_session_bytes s) = s"
  by (simp add: bytes_tx_session_def tx_session_bytes_def bytes_coord_def coord_bytes_def)

lemma bytes_state_bytes [simp]:
  assumes "length (bitmap st) = 8"
  shows "bytes_state (state_bytes st @ rest) = st"
proof -
  define b where "b = concat (map u32_bytes (bitmap st))"
  have "length b = 32"
    using assms by (simp add: b_def length_concat comp_def sum_list_triv)
  moreover have "full_slices 4 b = map u32_bytes (bitmap st)"
    by (simp add: b_def full_slices_u32_bytes)
  ultimately show ?thesis
    by (simp add: bytes_state_def state_bytes_def comp_def flip: b_def)
qed

lemma bytes_rx_session_bytes [simp]:
  "length (bitmap (session_state s)) = 8 \<Longrightarrow> bytes_rx_session (rx_session_bytes s @ rest) = s"
  by (simp add: bytes_rx_session_def rx_session_bytes_def)

lemma write_all_cases:
  assumes "None \<notin> set (out_writes out)"
  obtains out' where "write_all out d = (True, out')" "out_bytes out' = out_bytes out @ d"
    "None \<notin> set (out_writes out')"
  using write_all_complete [OF assms, of d] by (cases "write_all out d") auto

lemma zero_fill_complete:
  "None \<notin> set (out_writes out) \<Longrightarrow>
     \<exists>out'. zero_fill out n = (True, out') \<and> out_bytes out' = out_bytes out @ replicate n 0"
proof (induction out n rule: zero_fill.induct)
  case (1 out n)
  show ?case
  proof (cases "0 < n")
    case True
    obtain out' where w: "write_all out (replicate (min n 4096) 0) = (True, out')"
        "out_bytes out' = out_bytes out @ replicate (min n 4096) 0" "None \<notin> set (out_writes out')"
      using "1.prems" by (rule write_all_cases)
    have "replicate (min n 4096) (0 :: u8) @ replicate (n - min n 4096) 0 = replicate n 0"
      by (simp flip: replicate_add)
    then show ?thesis
      using "1.IH" [OF True refl w(1) [symmetric] refl w(3)] w True
      by (subst zero_fill.simps) (auto simp: Let_def)
  qed (subst zero_fill.simps; simp)
qed

text \<open>
  What \<open>config\<close> writes is a session that loads. The assembly buffer has 256 times the
  transmission unit less 6 bytes, not less the 4 bytes of the header on the wire.
\<close>

lemma tx_session_create_load:
  assumes "None \<notin> set (out_writes out)"
  shows "\<exists>out' bs. mp_session_tx_create tu out = (True, out') \<and> out_bytes out' = out_bytes out @ bs \<and>
    mp_session_tx_load (Some bs) =
      Some \<lparr> tx_magic = MP_SESSION_SEND_MAGIC, tx_transmission_unit = tu,
        session_coord = \<lparr> coord_sender_id = 0, coord_package_id = 0, coord_offset = 0 \<rparr> \<rparr>"
proof -
  let ?s = "\<lparr> tx_magic = MP_SESSION_SEND_MAGIC, tx_transmission_unit = tu,
    session_coord = \<lparr> coord_sender_id = 0, coord_package_id = 0, coord_offset = 0 \<rparr> \<rparr>"
  obtain out' where "write_all out (tx_session_bytes ?s) = (True, out')"
      "out_bytes out' = out_bytes out @ tx_session_bytes ?s"
    using assms by (rule write_all_cases)
  then show ?thesis
    by (intro exI [of _ out'] exI [of _ "tx_session_bytes ?s"])
      (simp add: mp_session_tx_create_def mp_session_tx_load_def)
qed

lemma rx_session_create_load:
  assumes "None \<notin> set (out_writes out)"
  shows "\<exists>out' bs. mp_session_rx_create tu out = (True, out') \<and> out_bytes out' = out_bytes out @ bs \<and>
    mp_session_rx_load (Some bs) =
      Some (\<lparr> rx_magic = MP_SESSION_RECV_MAGIC, rx_transmission_unit = tu,
              session_state = zero_state \<rparr>, replicate (256 * unat (tu - 6)) 0)"
proof -
  let ?s = "\<lparr> rx_magic = MP_SESSION_RECV_MAGIC, rx_transmission_unit = tu,
    session_state = zero_state \<rparr>"
  have len: "length (bitmap (session_state ?s)) = 8" by (simp add: zero_state_def)
  obtain out1 where 1: "write_all out (rx_session_bytes ?s) = (True, out1)"
      "out_bytes out1 = out_bytes out @ rx_session_bytes ?s" "None \<notin> set (out_writes out1)"
    using assms by (rule write_all_cases)
  obtain out2 where 2: "zero_fill out1 (256 * unat (tu - 6)) = (True, out2)"
      "out_bytes out2 = out_bytes out1 @ replicate (256 * unat (tu - 6)) 0"
    using zero_fill_complete [OF 1(3)] by blast
  let ?bs = "rx_session_bytes ?s @ replicate (256 * unat (tu - 6)) 0"
  have size: "rx_total_size tu = sizeof_mp_rx_session + 256 * unat (tu - 6)"
    by (simp add: rx_total_size_def sizeof_mp_header_meta_def)
  have "mp_session_rx_load (Some ?bs) = Some (?s, replicate (256 * unat (tu - 6)) 0)"
    using bytes_rx_session_bytes [OF len] bytes_rx_session_bytes [OF len, of "[]"] len
    by (simp add: mp_session_rx_load_def size)
  then show ?thesis
    using 1 2 by (intro exI [of _ out2] exI [of _ ?bs]) (simp add: mp_session_rx_create_def size)
qed

lemma rx_session_load_saved:
  assumes "bitmap_wf (session_state s)" and "rx_magic s = MP_SESSION_RECV_MAGIC"
    and "sizeof_mp_rx_session + length buf = rx_total_size (rx_transmission_unit s)"
  shows "mp_session_rx_load (Some (mp_session_rx_save s buf)) = Some (s, buf)"
proof -
  have len: "length (bitmap (session_state s)) = 8" using assms(1) by (simp add: bitmap_wf_def)
  show ?thesis
    using bytes_rx_session_bytes [OF len, of buf] bytes_rx_session_bytes [OF len, of "[]"] len assms
    by (simp add: mp_session_rx_load_def mp_session_rx_save_def)
qed

text \<open>What can be loaded is well formed.\<close>

lemma rx_session_load_wf:
  assumes "mp_session_rx_load file = Some (s, buf)"
  shows "bitmap_wf (session_state s)" and "rx_magic s = MP_SESSION_RECV_MAGIC"
    and "sizeof_mp_rx_session + length buf = rx_total_size (rx_transmission_unit s)"
proof -
  obtain bs where some: "file = Some bs"
    using assms by (cases "file") (simp_all add: mp_session_rx_load_def)
  define p where "p = bytes_rx_session (take 46 bs)"
  have "mp_session_rx_load (Some bs) =
      (if length bs < 46 then None
       else if rx_magic p \<noteq> MP_SESSION_RECV_MAGIC then None
       else if length bs \<noteq> rx_total_size (rx_transmission_unit p) then None
       else Some (bytes_rx_session bs, drop 46 bs))"
    by (simp only: mp_session_rx_load_def option.case sizeof_mp_rx_session_def Let_def p_def)
  then have bs: "46 \<le> length bs" "bytes_rx_session bs = s" "drop 46 bs = buf"
      "rx_magic p = MP_SESSION_RECV_MAGIC" "length bs = rx_total_size (rx_transmission_unit p)"
    using assms by (simp_all add: some split: if_splits)
  have front: "rx_magic p = rx_magic s" "rx_transmission_unit p = rx_transmission_unit s"
    by (simp_all add: p_def bytes_rx_session_def drop_take min_def flip: bs(2))
  show "rx_magic s = MP_SESSION_RECV_MAGIC" using bs(4) front by simp
  show "sizeof_mp_rx_session + length buf = rx_total_size (rx_transmission_unit s)"
    using bs(1,5) front by (simp add: sizeof_mp_rx_session_def flip: bs(3))
  have "length (full_slices 4 (take 32 (drop 6 bs))) = 8"
    using bs(1) by (simp add: length_full_slices)
  then show "bitmap_wf (session_state s)"
    by (simp add: bitmap_wf_def bytes_rx_session_def bytes_state_def flip: bs(2))
qed

section \<open>Properties\<close>

text \<open>Loading the file a sender session was saved to gives back the session, and a file whose
  magic is not the sender's is refused.\<close>

lemma tx_session_save_load:
  "mp_session_tx_load (Some (mp_session_tx_save s)) =
     (if tx_magic s = MP_SESSION_SEND_MAGIC then Some s else None)"
  by (simp add: mp_session_tx_load_def mp_session_tx_save_def)

text \<open>Loading the file a receiver session was saved to, in the middle of a package too, gives
  back the slice state and the assembly buffer, provided the buffer has the size the transmission
  unit prescribes.\<close>

lemma rx_session_save_load:
  assumes "bitmap_wf (session_state s)" and "rx_magic s = MP_SESSION_RECV_MAGIC"
    and "sizeof_mp_rx_session + length buf = rx_total_size (rx_transmission_unit s)"
  shows "mp_session_rx_load (Some (mp_session_rx_save s buf)) = Some (s, buf)"
  using assms by (rule rx_session_load_saved)

lemma rx_session_save_load_witness:
  "mp_session_rx_load (Some (mp_session_rx_save
      \<lparr> rx_magic = MP_SESSION_RECV_MAGIC, rx_transmission_unit = 7,
        session_state = \<lparr> bitmap = [5, 0, 0, 0, 0, 0, 0, 0], received_count = 2,
          termination_at = 0, watermark = 3 \<rparr> \<rparr> (replicate 256 9))) =
    Some (\<lparr> rx_magic = MP_SESSION_RECV_MAGIC, rx_transmission_unit = 7,
        session_state = \<lparr> bitmap = [5, 0, 0, 0, 0, 0, 0, 0], received_count = 2,
          termination_at = 0, watermark = 3 \<rparr> \<rparr>, replicate 256 9)"
  by (rule rx_session_save_load)
    (simp_all add: bitmap_wf_def rx_total_size_def sizeof_mp_header_meta_def)

end
