(* ===== verification/Tools_Args.thy ===== *)
theory Tools_Args
  imports Session
begin

text \<open>
  \<^bold>\<open>src/tools/main.c\<close>, all but \<open>main\<close>: the option loops of the three subcommands and the
  whole of \<open>config\<close>. \<open>getopt_long\<close> belongs to the C library; what the program sees of it is
  the sequence of its answers up to -1, each an option character and the \<open>optarg\<close> of that
  moment, so the loops run over that sequence. An option it does not know, or a missing
  argument, is an answer with another character (\<open>?\<close>). Messages on stderr are left out.
\<close>

type_synonym opt = "char \<times> string"

text \<open>The files the commands see, from paths to contents.\<close>

type_synonym files = "string \<Rightarrow> u8 list option"

section \<open>atoi\<close>

definition is_space :: "char \<Rightarrow> bool" where
  "is_space c \<longleftrightarrow> of_char c = (32 :: nat) \<or> (9 \<le> (of_char c :: nat) \<and> of_char c \<le> (13 :: nat))"

fun atoi_digits :: "int \<Rightarrow> string \<Rightarrow> int" where
  "atoi_digits acc [] = acc"
| "atoi_digits acc (c # cs) =
     (if 48 \<le> (of_char c :: nat) \<and> of_char c \<le> (57 :: nat)
      then atoi_digits (10 * acc + (of_char c - 48)) cs else acc)"

definition atoi :: "string \<Rightarrow> int" where
  "atoi str =
     (case dropWhile is_space str of
        [] \<Rightarrow> 0
      | c # cs \<Rightarrow>
          if c = CHR ''-'' then - atoi_digits 0 cs
          else if c = CHR ''+'' then atoi_digits 0 cs
          else atoi_digits 0 (c # cs))"

section \<open>config\<close>

definition DEFAULT_MTU :: int where "DEFAULT_MTU = 300"

text \<open>The loop returns early with an exit code (\<open>Inl\<close>) or ends with the mtu and the type.\<close>

fun config_opts :: "int \<Rightarrow> int \<Rightarrow> opt list \<Rightarrow> int + int \<times> int" where
  "config_opts mtu ty [] = Inr (mtu, ty)"
| "config_opts mtu ty ((c, optarg) # opts) =
     (if c = CHR ''m'' then config_opts (atoi optarg) ty opts
      else if c = CHR ''t'' then
        (if optarg = ''rx'' then config_opts mtu 1 opts
         else if optarg = ''tx'' then config_opts mtu 0 opts
         else Inl 1)
      else if c = CHR ''h'' then Inl 0
      else Inl 1)"

definition cmd_config :: "opt list \<Rightarrow> out_fd \<Rightarrow> int \<times> out_fd" where
  "cmd_config opts out =
     (case config_opts DEFAULT_MTU 0 opts of
        Inl code \<Rightarrow> (code, out)
      | Inr (mtu, ty) \<Rightarrow>
          if mtu < int sizeof_mp_header_meta + 1 then (1, out)
          else if mtu > 65535 then (1, out)
          else if ty = 1 then
            (case mp_session_rx_create (of_int mtu) out of (ok, out') \<Rightarrow> (if ok then 0 else 1, out'))
          else
            (case mp_session_tx_create (of_int mtu) out of (ok, out') \<Rightarrow> (if ok then 0 else 1, out')))"

section \<open>tx and rx\<close>

definition DEFAULT_STDIN_BUF_SIZE :: u16 where "DEFAULT_STDIN_BUF_SIZE = 64"

fun tx_opts :: "string option \<Rightarrow> u16 \<Rightarrow> u16 \<Rightarrow> opt list \<Rightarrow> (string option \<times> u16 \<times> u16) option" where
  "tx_opts path buf sender [] = Some (path, buf, sender)"
| "tx_opts path buf sender ((c, optarg) # opts) =
     (if c = CHR ''s'' then tx_opts (Some optarg) buf sender opts
      else if c = CHR ''b'' then tx_opts path (of_int (atoi optarg)) sender opts
      else if c = CHR ''S'' then tx_opts path buf (of_int (atoi optarg AND 0x7)) opts
      else None)"

definition tx_parse_args :: "opt list \<Rightarrow> (string \<times> u16 \<times> u16) option" where
  "tx_parse_args opts =
     (case tx_opts None DEFAULT_STDIN_BUF_SIZE 0 opts of
        None \<Rightarrow> None
      | Some (session_path, stdin_buf_size, sender_id) \<Rightarrow>
          if stdin_buf_size = 0 then None
          else case session_path of
            None \<Rightarrow> None
          | Some path \<Rightarrow> Some (path, stdin_buf_size, sender_id))"

fun session_opts :: "string option \<Rightarrow> opt list \<Rightarrow> string option option" where
  "session_opts path [] = Some path"
| "session_opts path ((c, optarg) # opts) =
     (if c = CHR ''s'' then session_opts (Some optarg) opts else None)"

definition require_session_file :: "opt list \<Rightarrow> string option" where
  "require_session_file opts =
     (case session_opts None opts of None \<Rightarrow> None | Some path \<Rightarrow> path)"

section \<open>Properties\<close>

lemma sender_bits: "of_int (x AND 7) < (8 :: u16)"
proof -
  have "x AND 7 = x mod 8"
    using take_bit_eq_mask [of 3 x] by (simp add: take_bit_eq_mod mask_eq_exp_minus_1)
  moreover have "x mod 8 = 0 \<or> x mod 8 = 1 \<or> x mod 8 = 2 \<or> x mod 8 = 3 \<or>
      x mod 8 = 4 \<or> x mod 8 = 5 \<or> x mod 8 = 6 \<or> x mod 8 = 7"
    by presburger
  ultimately show ?thesis by auto
qed

lemma tx_opts_sender:
  "tx_opts path buf sender opts = Some (p, b, s) \<Longrightarrow> sender < 8 \<Longrightarrow> s < 8"
  by (induction path buf sender opts rule: tx_opts.induct)
    (auto simp: sender_bits split: if_splits)

lemma tx_parse_args_range:
  assumes "tx_parse_args opts = Some (path, buf, sender)"
  shows "0 < buf \<and> sender < 8"
proof -
  have "tx_opts None DEFAULT_STDIN_BUF_SIZE 0 opts = Some (Some path, buf, sender)" "buf \<noteq> 0"
    using assms by (auto simp: tx_parse_args_def split: option.splits if_splits)
  then show ?thesis by (auto intro: tx_opts_sender simp: word_gt_0)
qed

text \<open>Whatever options \<open>tx\<close> accepts, it then reads with a buffer of at least one byte and
  sends under a sender number below 8, so that the sender fits the three bits of the header.\<close>

lemma tx_args_in_range:
  assumes "tx_parse_args opts = Some (path, buf, sender)"
  shows "0 < buf \<and> sender < 8"
  using assms by (rule tx_parse_args_range)

lemma tx_args_in_range_witness: "0 < (500 :: u16) \<and> (3 :: u16) < 8"
  by (rule tx_args_in_range [of "[(CHR ''S'', ''11''), (CHR ''s'', ''a''), (CHR ''b'', ''500'')]" "''a''"])
    (simp add: tx_parse_args_def DEFAULT_STDIN_BUF_SIZE_def atoi_def is_space_def)

text \<open>When no write fails and \<open>config\<close> reports success, it has written nothing (for
  \<open>-h\<close>) or one session file: it loads as a fresh session of one of the two types, and its
  transmission unit is at least 7.\<close>

lemma config_writes_a_session:
  assumes "cmd_config opts out = (0, out')" and "None \<notin> set (out_writes out)"
  shows "out' = out \<or> (\<exists>bs tu. out_bytes out' = out_bytes out @ bs \<and> 7 \<le> tu \<and>
    (mp_session_tx_load (Some bs) =
       Some \<lparr> tx_magic = MP_SESSION_SEND_MAGIC, tx_transmission_unit = tu,
         session_coord = \<lparr> coord_sender_id = 0, coord_package_id = 0, coord_offset = 0 \<rparr> \<rparr> \<or>
     mp_session_rx_load (Some bs) =
       Some (\<lparr> rx_magic = MP_SESSION_RECV_MAGIC, rx_transmission_unit = tu,
               session_state = zero_state \<rparr>, replicate (256 * unat (tu - 6)) 0)))"
proof (cases "config_opts DEFAULT_MTU 0 opts")
  case (Inr r)
  obtain mtu ty where r: "r = (mtu, ty)" by (cases r)
  have range: "7 \<le> mtu" "mtu \<le> 65535"
    using assms(1) by (auto simp: cmd_config_def Inr r sizeof_mp_header_meta_def split: if_splits)
  then have tu: "7 \<le> (of_int mtu :: u16)"
    by (simp add: word_le_def take_bit_eq_mod uint_word_of_int)
  show ?thesis
  proof (cases "ty = 1")
    case True
    then show ?thesis
      using rx_session_create_load [OF assms(2), of "of_int mtu"] assms(1) range tu
      by (auto simp: cmd_config_def Inr r sizeof_mp_header_meta_def)
  next
    case False
    then show ?thesis
      using tx_session_create_load [OF assms(2), of "of_int mtu"] assms(1) range tu
      by (auto simp: cmd_config_def Inr r sizeof_mp_header_meta_def)
  qed
qed (use assms(1) in \<open>simp add: cmd_config_def\<close>)

lemma config_writes_a_session_witness:
  "snd (cmd_config [(CHR ''m'', ''64'')] \<lparr> out_bytes = [], out_writes = [] \<rparr>) =
      \<lparr> out_bytes = [], out_writes = [] \<rparr> \<or>
   (\<exists>bs tu. out_bytes (snd (cmd_config [(CHR ''m'', ''64'')] \<lparr> out_bytes = [], out_writes = [] \<rparr>)) =
      out_bytes \<lparr> out_bytes = [], out_writes = [] \<rparr> @ bs \<and> 7 \<le> tu \<and>
    (mp_session_tx_load (Some bs) =
       Some \<lparr> tx_magic = MP_SESSION_SEND_MAGIC, tx_transmission_unit = tu,
         session_coord = \<lparr> coord_sender_id = 0, coord_package_id = 0, coord_offset = 0 \<rparr> \<rparr> \<or>
     mp_session_rx_load (Some bs) =
       Some (\<lparr> rx_magic = MP_SESSION_RECV_MAGIC, rx_transmission_unit = tu,
               session_state = zero_state \<rparr>, replicate (256 * unat (tu - 6)) 0)))"
  by (rule config_writes_a_session [of "[(CHR ''m'', ''64'')]"])
    (simp_all add: cmd_config_def atoi_def is_space_def sizeof_mp_header_meta_def
      mp_session_tx_create_def)

end
