(* ===== verification/Tools_Tx.thy ===== *)
theory Tools_Tx
  imports Stream_Tx Tools_Args
begin

text \<open>
  \<^bold>\<open>src/tools/tx.c\<close>: the \<open>tx\<close> command. It reads stdin to its end, feeds it to the sending
  stream and finalizes the stream; the downstream builds every frame in the static
  \<open>stdout_block\<close> and writes it to stdout. The command is the provider of the contract
  \<open>tx_sink\<close> of the stream.
\<close>

section \<open>The downstream\<close>

record tx_user =
  user_tu :: u16
  user_fill :: u16

record tx_world =
  tx_raw :: tx_user
  stdout_block :: "u8 list" \<comment> \<open>\<open>uint8_t stdout_block[4096]\<close>\<close>
  tx_out :: out_fd

text \<open>A short or failed write ends the process with \<open>exit(1)\<close>: the value \<open>Io_Error\<close>.\<close>

definition push_cb :: "tx_world mp_tx_push_cb" where
  "push_cb w act nullable_header nullable_data sz =
     bindE
       (case nullable_data of
          Some data \<Rightarrow>
            if sz \<noteq> 0 then
              bindE (mem_read data 0 (unat sz)) (\<lambda>bytes.
              bindE (mem_write (stdout_block w)
                  (unat (user_fill (tx_raw w)) + MP_HEADER_SIZE) bytes) (\<lambda>block.
                Inr (w\<lparr> stdout_block := block,
                  tx_raw := (tx_raw w)\<lparr> user_fill := user_fill (tx_raw w) + sz \<rparr> \<rparr>)))
            else Inr w
        | None \<Rightarrow> Inr w)
       (\<lambda>w1.
        case nullable_header of
          None \<Rightarrow> Inr w1
        | Some header \<Rightarrow>
            bindE (mem_write (stdout_block w1) 0
                (MP_PACKED_HEADER_TO_ARRAY (mp_header_pack header))) (\<lambda>block.
            bindE (mem_read block 0 (unat (user_tu (tx_raw w1)))) (\<lambda>frame.
              case os_write (tx_out w1) frame of
                (n_wrote, out') \<Rightarrow>
                  if n_wrote \<noteq> Some (unat (user_tu (tx_raw w1))) then Inl Io_Error
                  else Inr (w1\<lparr> stdout_block := block, tx_out := out',
                         tx_raw := (tx_raw w1)\<lparr> user_fill := 0 \<rparr> \<rparr>))))"

section \<open>The command\<close>

text \<open>The loop \<open>while ((n = read(STDIN_FILENO, buf, stdin_buf_size)) > 0)\<close>.\<close>

function tx_read_loop ::
    "tx_world mp_tx_stream \<Rightarrow> tx_world \<Rightarrow> in_fd \<Rightarrow> u16 \<Rightarrow>
      (tx_world mp_tx_stream \<times> tx_world \<times> in_fd) res" where
  "tx_read_loop stream w inp stdin_buf_size =
     (case os_read inp (unat stdin_buf_size) of
        (Some (x # xs), inp') \<Rightarrow>
          bindE (mp_tx_stream_feed stream w (x # xs) (of_nat (length (x # xs)))) (\<lambda>(stream', w').
            tx_read_loop stream' w' inp' stdin_buf_size)
      | (_, inp') \<Rightarrow> Inr (stream, w, inp'))"
  by pat_completeness auto
termination
  by (relation "measure (\<lambda>(s, w, inp, n). length (in_bytes inp))")
    (auto dest!: sym [THEN os_read_front])

declare tx_read_loop.simps [simp del]

text \<open>
  The session is mapped shared and written back by \<open>mp_session_tx_save\<close>. The result is the
  exit code with the files, stdin and stdout.
\<close>

definition cmd_tx ::
    "opt list \<Rightarrow> files \<Rightarrow> in_fd \<Rightarrow> out_fd \<Rightarrow> (int \<times> files \<times> in_fd \<times> out_fd) res" where
  "cmd_tx opts fs inp out =
     (case tx_parse_args opts of
        None \<Rightarrow> Inr (1, fs, inp, out)
      | Some (session_path, stdin_buf_size, sender_id) \<Rightarrow>
     (case mp_session_tx_load (fs session_path) of
        None \<Rightarrow> Inr (1, fs, inp, out)
      | Some session0 \<Rightarrow>
        let cfg = \<lparr> transmission_unit = tx_transmission_unit session0 \<rparr>;
            user = \<lparr> user_tu = tx_transmission_unit session0, user_fill = 0 \<rparr>;
            session = session0\<lparr> session_coord :=
              (session_coord session0)\<lparr> coord_sender_id := ucast sender_id \<rparr> \<rparr>;
            stream = \<lparr> tx_config = cfg, tx_cursor = session_coord session, tx_fill = 0,
              tx_push = push_cb \<rparr>;
            w = \<lparr> tx_raw = user, stdout_block = replicate 4096 0, tx_out = out \<rparr>
        in
          bindE (tx_read_loop stream w inp stdin_buf_size) (\<lambda>(stream1, w1, inp1).
          bindE (mp_tx_stream_finalize stream1 w1) (\<lambda>(stream2, w2).
            let cursor = (tx_cursor stream2)\<lparr>
                  coord_package_id := coord_package_id (tx_cursor stream2) + 1,
                  coord_offset := 0 \<rparr>;
                session' = session\<lparr> session_coord := cursor \<rparr>
            in Inr (0, fs(session_path \<mapsto> mp_session_tx_save session'), inp1, tx_out w2)))))"

section \<open>The command keeps the contract of a downstream\<close>

definition tool_ok :: "u16 \<Rightarrow> u8 list \<Rightarrow> tx_world \<Rightarrow> bool" where
  "tool_ok mp base w \<longleftrightarrow>
     0 < unat mp \<and> unat mp + 4 \<le> 4096 \<and> unat (user_tu (tx_raw w)) = unat mp + 4 \<and>
     length (stdout_block w) = 4096 \<and> unat (user_fill (tx_raw w)) \<le> unat mp \<and>
     out_writes (tx_out w) = [] \<and> take (length base) (out_bytes (tx_out w)) = base \<and>
     unat mp + 4 dvd length (out_bytes (tx_out w)) - length base"

definition tool_pend :: "tx_world \<Rightarrow> u8 list" where
  "tool_pend w = take (unat (user_fill (tx_raw w))) (drop 4 (stdout_block w))"

text \<open>The frames are the blocks of one transmission unit on stdout, behind what was there before, \<open>base\<close>.\<close>

definition tool_sent :: "u16 \<Rightarrow> u8 list \<Rightarrow> tx_world \<Rightarrow> u8 list list" where
  "tool_sent mp base w = full_slices (unat mp + 4) (drop (length base) (out_bytes (tx_out w)))"

lemma tool_push_data:
  assumes ok: "tool_ok mp base w" and n: "unat n \<le> length d"
    and room: "length (tool_pend w) + unat n \<le> unat mp"
  shows "\<exists>w'. push_cb w MP_TX_ACT_DATA None (Some d) n = Inr w' \<and> tool_ok mp base w' \<and>
    tool_pend w' = tool_pend w @ take (unat n) d \<and> tool_sent mp base w' = tool_sent mp base w"
proof (cases "n = 0")
  case True
  then show ?thesis using ok by (simp add: push_cb_def)
next
  case False
  let ?f = "unat (user_fill (tx_raw w))" and ?d = "take (unat n) d"
  note okD = ok [unfolded tool_ok_def]
  have "length (tool_pend w) = ?f" using okD by (simp add: tool_pend_def)
  then have fill: "?f + unat n \<le> unat mp" using room by simp
  then have fill': "unat (user_fill (tx_raw w) + n) = ?f + unat n"
    using okD by (simp add: unat_u16_add)
  have wr: "mem_write (stdout_block w) (?f + 4) ?d =
      Inr (take (?f + 4) (stdout_block w) @ ?d @ drop (?f + 4 + unat n) (stdout_block w))"
    using okD fill n by (subst mem_write_ok) simp_all
  have "take (?f + unat n) (drop 4 (take (?f + 4) (stdout_block w) @ ?d @ r)) =
      take ?f (drop 4 (stdout_block w)) @ ?d" for r
    using take_written [of 4 ?f "stdout_block w" ?d r] okD n fill by (simp add: add.commute)
  then show ?thesis
    using False okD n fill fill' wr
    by (simp add: push_cb_def MP_HEADER_SIZE_def tool_ok_def tool_pend_def tool_sent_def)
qed

lemma tool_push_header:
  assumes ok: "tool_ok mp base w"
  shows "\<exists>w' f. push_cb w act (Some h) None 0 = Inr w' \<and> tool_ok mp base w' \<and>
    tool_pend w' = [] \<and> tool_sent mp base w' = tool_sent mp base w @ [f] \<and>
    frame_carries mp h (tool_pend w) f"
proof -
  note okD = ok [unfolded tool_ok_def]
  have base: "length base \<le> length (out_bytes (tx_out w))"
    using okD by (metis length_take min.cobounded2 min.commute)
  let ?hd = "MP_PACKED_HEADER_TO_ARRAY (mp_header_pack h)"
  let ?block = "?hd @ drop 4 (stdout_block w)"
  let ?f = "take (unat mp + 4) ?block"
  let ?w' = "w\<lparr> stdout_block := ?block,
    tx_out := (tx_out w)\<lparr> out_bytes := out_bytes (tx_out w) @ ?f \<rparr>,
    tx_raw := (tx_raw w)\<lparr> user_fill := 0 \<rparr> \<rparr>"
  have len: "length ?f = unat mp + 4" using okD by simp
  have "frame_carries mp h (tool_pend w) ?f"
    using okD by (simp add: frame_carries_def MP_HEADER_SIZE_def tool_pend_def min_def)
  moreover have "full_slices (unat mp + 4) (drop (length base) (out_bytes (tx_out w)) @ ?f) =
      full_slices (unat mp + 4) (drop (length base) (out_bytes (tx_out w))) @ [?f]"
    using len okD by (intro full_slices_snoc) simp_all
  then have "tool_sent mp base ?w' = tool_sent mp base w @ [?f]"
    using base by (simp add: tool_sent_def)
  moreover have "push_cb w act (Some h) None 0 = Inr ?w'"
    using okD len by (simp add: push_cb_def)
  moreover have size: "length (out_bytes (tx_out ?w')) - length base =
      length (out_bytes (tx_out w)) - length base + (unat mp + 4)"
    using base len by simp
  have "unat mp + 4 dvd length (out_bytes (tx_out ?w')) - length base"
    unfolding size using okD by (intro dvd_add [OF _ dvd_refl]) blast
  then have "tool_ok mp base ?w'" using okD base by (simp add: tool_ok_def)
  moreover have "tool_pend ?w' = []" by (simp add: tool_pend_def)
  ultimately show ?thesis by blast
qed

interpretation tool: tx_sink push_cb "tool_ok mp base" tool_pend "tool_sent mp base" mp
  for mp base
  by unfold_locales (rule tool_push_data tool_push_header; assumption)+

lemma tool_written:
  assumes "tool_ok mp base w"
  shows "out_bytes (tx_out w) = base @ concat (tool_sent mp base w)"
proof -
  have "concat (tool_sent mp base w) = drop (length base) (out_bytes (tx_out w))"
    using concat_full_slices [of "unat mp + 4" "drop (length base) (out_bytes (tx_out w))"] assms
    by (simp add: tool_sent_def tool_ok_def)
  then show ?thesis using assms by (metis append_take_drop_id tool_ok_def)
qed

section \<open>The whole command\<close>

lemma tx_read_loop_chunks:
  "tx_read_loop s w inp n =
     bindE (feed_chunks s w (fst (read_chunks inp (unat n)))) (\<lambda>(s', w').
       Inr (s', w', snd (read_chunks inp (unat n))))"
proof (induction s w inp n rule: tx_read_loop.induct)
  case (1 s w inp n)
  show ?case
  proof (cases "\<exists>x xs inp'. os_read inp (unat n) = (Some (x # xs), inp')")
    case True
    then obtain x xs inp' where r: "os_read inp (unat n) = (Some (x # xs), inp')" by blast
    have step: "tx_read_loop s' w' inp' n =
        bindE (feed_chunks s' w' (fst (read_chunks inp' (unat n)))) (\<lambda>(s', w').
          Inr (s', w', snd (read_chunks inp' (unat n))))"
      if "mp_tx_stream_feed s w (x # xs) (of_nat (length (x # xs))) = Inr (s', w')" for s' w'
      using "1.IH" [OF r [symmetric] refl refl that refl] .
    show ?thesis
      using step
      by (subst tx_read_loop.simps, subst (1 2) read_chunks.simps,
          cases "mp_tx_stream_feed s w (x # xs) (of_nat (length (x # xs)))")
        (auto simp: r case_prod_unfold)
  next
    case False
    then show ?thesis
      by (subst tx_read_loop.simps, subst (1 2) read_chunks.simps)
        (auto split: prod.split option.split list.split)
  qed
qed

lemma cmd_tx_sends:
  assumes args: "tx_parse_args opts = Some (path, buf, sender)"
    and load: "mp_session_tx_load (fs path) = Some session"
    and tu: "4 < unat (tx_transmission_unit session)" "unat (tx_transmission_unit session) \<le> 4096"
    and coord: "session_coord session =
      \<lparr> coord_sender_id = old_sender, coord_package_id = package, coord_offset = 0 \<rparr>"
    and env: "reads_progress inp" "out_writes out = []"
  shows "\<exists>frames inp' out'. cmd_tx opts fs inp out =
      Inr (0, fs(path \<mapsto> mp_session_tx_save (session\<lparr> session_coord :=
        \<lparr> coord_sender_id = ucast sender, coord_package_id = package + 1, coord_offset = 0 \<rparr> \<rparr>)),
        inp', out') \<and>
    in_bytes inp' = [] \<and> out_bytes out' = out_bytes out @ concat frames \<and>
    package_frames (tx_transmission_unit session - 4) (ucast sender) package (in_bytes inp) frames"
proof -
  let ?tu = "tx_transmission_unit session"
  let ?mp = "mp_max_payload \<lparr> transmission_unit = ?tu \<rparr>" and ?base = "out_bytes out"
  let ?chunks = "fst (read_chunks inp (unat buf))"
  define s where "s = \<lparr> tx_config = \<lparr> transmission_unit = ?tu \<rparr>,
    tx_cursor = \<lparr> coord_sender_id = ucast sender, coord_package_id = package, coord_offset = 0 \<rparr>,
    tx_fill = 0, tx_push = push_cb \<rparr>"
  define w where "w = \<lparr> tx_raw = \<lparr> user_tu = ?tu, user_fill = 0 \<rparr>,
    stdout_block = replicate 4096 0, tx_out = out \<rparr>"
  have mp: "unat ?mp = unat ?tu - 4" using tu by (simp add: unat_max_payload)
  have ok: "tool_ok ?mp ?base w" "tool_pend w = []" "tool_sent ?mp ?base w = []"
    using tu env(2) mp by (simp_all add: tool_ok_def tool_pend_def tool_sent_def w_def)
  have at: "tool.stream_at ?mp ?base (ucast sender) package 0 s w"
    using ok tu mp by (simp add: tool.stream_at_def s_def w_def slice_coord_def)
  have small: "list_all (\<lambda>d. length d < 65536) ?chunks"
    using read_chunks_bounded [of "unat buf" inp]
    by (auto simp: list_all_iff intro: le_less_trans [OF _ unat_u16_less])
  have all: "concat ?chunks = in_bytes inp" "in_bytes (snd (read_chunks inp (unat buf))) = []"
    using read_chunks_all [OF _ env(1), of "unat buf"] tx_parse_args_range [OF args] by (simp_all add: word_less_nat_alt)
  obtain s' w' frames where run:
      "bindE (feed_chunks s w ?chunks) (\<lambda>(s1, w1). mp_tx_stream_finalize s1 w1) = Inr (s', w')"
      "tx_cursor s' = slice_coord (ucast sender) package ?mp (Suc (length (in_bytes inp) div unat ?mp))"
      "tool_ok ?mp ?base w'" "tool_sent ?mp ?base w' = frames"
      "package_frames ?mp (ucast sender) package (in_bytes inp) frames"
    using tool.package_sends [OF at ok(2) small] unfolding ok(3) all(1) by auto
  have "out_bytes (tx_out w') = out_bytes out @ concat frames"
    using tool_written [OF run(3)] run(4) by simp
  moreover have "cmd_tx opts fs inp out =
      Inr (0, fs(path \<mapsto> mp_session_tx_save (session\<lparr> session_coord :=
        \<lparr> coord_sender_id = ucast sender, coord_package_id = package + 1, coord_offset = 0 \<rparr> \<rparr>)),
        snd (read_chunks inp (unat buf)), tx_out w')"
    using run(1,2) args load coord
    by (auto simp: cmd_tx_def tx_read_loop_chunks Let_def bindE_assoc bindE_eq_Inr case_prod_unfold
        slice_coord_def simp flip: s_def w_def)
  ultimately show ?thesis
    using all(2) run(5) by (auto simp: mp_max_payload_def MP_HEADER_SIZE_def)
qed

text \<open>A transmission unit beyond the 4096 bytes of \<open>stdout_block\<close>.\<close>

lemma push_header_overruns:
  assumes "length (stdout_block w) = 4096" and "4096 < unat (user_tu (tx_raw w))"
  shows "push_cb w act (Some h) None 0 = Inl Out_Of_Bounds"
  using assms by (simp add: push_cb_def mem_read_def)

section \<open>Properties\<close>

text \<open>C17: \<open>tx\<close> sends all of stdin as one package: however the reads cut the input and
  whatever the buffer size, it exits with 0 and what it has appended to stdout is the frames of the
  package, one for every full slice and one with the rest and the end mark, in order, with the
  session's package number and the sender of the command line; the session file then stands at the
  start of the next package. The slice number of a frame is its position as long as that is below 256
  and the offset of the slice below 65536; \<open>tx\<close> has no limit, and in a longer input the 16-bit offset
  starts over and the numbers with it (\<open>header_at\<close>). The transmission unit is one of 5 to 4096 bytes,
  and stdout takes every write whole.\<close>

theorem tx_sends_one_package:
  assumes "tx_parse_args opts = Some (path, buf, sender)"
    and "mp_session_tx_load (fs path) = Some session"
    and "4 < unat (tx_transmission_unit session)" and "unat (tx_transmission_unit session) \<le> 4096"
    and "session_coord session =
      \<lparr> coord_sender_id = old_sender, coord_package_id = package, coord_offset = 0 \<rparr>"
    and "reads_progress inp" and "out_writes out = []"
  shows "\<exists>frames inp' out'. cmd_tx opts fs inp out =
      Inr (0, fs(path \<mapsto> mp_session_tx_save (session\<lparr> session_coord :=
        \<lparr> coord_sender_id = ucast sender, coord_package_id = package + 1, coord_offset = 0 \<rparr> \<rparr>)),
        inp', out') \<and>
    in_bytes inp' = [] \<and> out_bytes out' = out_bytes out @ concat frames \<and>
    package_frames (tx_transmission_unit session - 4) (ucast sender) package (in_bytes inp) frames"
  using assms by (rule cmd_tx_sends)

theorem tx_sends_one_package_witness:
  "\<exists>frames inp' out'. cmd_tx [(CHR ''s'', ''a'')]
      [''a'' \<mapsto> mp_session_tx_save \<lparr> tx_magic = MP_SESSION_SEND_MAGIC, tx_transmission_unit = 8,
        session_coord = \<lparr> coord_sender_id = 0, coord_package_id = 7, coord_offset = 0 \<rparr> \<rparr>]
      \<lparr> in_bytes = [1, 2, 3, 4, 5], in_reads = [Some 2] \<rparr> \<lparr> out_bytes = [], out_writes = [] \<rparr> =
      Inr (0, [''a'' \<mapsto> mp_session_tx_save \<lparr> tx_magic = MP_SESSION_SEND_MAGIC,
          tx_transmission_unit = 8,
          session_coord = \<lparr> coord_sender_id = 0, coord_package_id = 7, coord_offset = 0 \<rparr> \<rparr>]
        (''a'' \<mapsto> mp_session_tx_save (\<lparr> tx_magic = MP_SESSION_SEND_MAGIC,
          tx_transmission_unit = 8,
          session_coord = \<lparr> coord_sender_id = 0, coord_package_id = 7, coord_offset = 0 \<rparr> \<rparr>
          \<lparr> session_coord :=
            \<lparr> coord_sender_id = ucast (0 :: u16), coord_package_id = 7 + 1, coord_offset = 0 \<rparr> \<rparr>)),
        inp', out') \<and>
    in_bytes inp' = [] \<and>
    out_bytes out' = out_bytes \<lparr> out_bytes = [], out_writes = [] \<rparr> @ concat frames \<and>
    package_frames (tx_transmission_unit \<lparr> tx_magic = MP_SESSION_SEND_MAGIC,
          tx_transmission_unit = 8,
          session_coord = \<lparr> coord_sender_id = 0, coord_package_id = 7, coord_offset = 0 \<rparr> \<rparr> - 4)
      (ucast (0 :: u16)) 7 (in_bytes \<lparr> in_bytes = [1, 2, 3, 4, 5], in_reads = [Some 2] \<rparr>) frames"
  by (rule tx_sends_one_package [where buf = 64 and old_sender = 0])
    (simp_all add: tx_parse_args_def DEFAULT_STDIN_BUF_SIZE_def reads_progress_def
      mp_session_tx_load_def mp_session_tx_save_def)

text \<open>C31: With a transmission unit of more than 4096 bytes, which \<open>config\<close> accepts, \<open>tx\<close>
  cannot finish a package: building any frame reads beyond the end of the output block.\<close>

theorem tx_unit_overruns_block:
  assumes "tx_push s = push_cb" and "length (stdout_block w) = 4096"
    and "4096 < unat (user_tu (tx_raw w))" and "mp_max_payload (tx_config s) \<noteq> 0"
  shows "mp_tx_stream_finalize s w = Inl Out_Of_Bounds"
  using assms by (simp add: mp_tx_stream_finalize_def prepare_ok push_header_overruns)

theorem tx_unit_overruns_block_witness:
  "mp_tx_stream_finalize
      \<lparr> tx_config = \<lparr> transmission_unit = 5000 \<rparr>, tx_cursor = \<lparr> coord_sender_id = 0,
          coord_package_id = 0, coord_offset = 0 \<rparr>, tx_fill = 0, tx_push = push_cb \<rparr>
      \<lparr> tx_raw = \<lparr> user_tu = 5000, user_fill = 0 \<rparr>, stdout_block = replicate 4096 0,
        tx_out = \<lparr> out_bytes = [], out_writes = [] \<rparr> \<rparr> = Inl Out_Of_Bounds"
  by (rule tx_unit_overruns_block) (simp_all add: mp_max_payload_def MP_HEADER_SIZE_def)

end
