(* ===== verification/Package.thy ===== *)
theory Package
  imports Rx
begin

text \<open>
  What the receiver's state of one package means. A package has \<open>L\<close> bytes in the slices
  \<open>0..k\<close>, all full but the last one, which carries the end mark and may be empty. The
  abstract state is the set \<open>S\<close> of the slices that have arrived; \<open>package_view\<close> says how
  the C struct represents it, and the lemmas show that one transition of the code inserts
  the slice into the set.
\<close>

section \<open>Packages and sets of slices\<close>

definition package_ok :: "u16 \<Rightarrow> nat \<Rightarrow> nat \<Rightarrow> bool" where
  "package_ok mp k L \<longleftrightarrow>
     mp \<noteq> 0 \<and> k \<le> 255 \<and> 0 < L \<and> k * unat mp \<le> L \<and> L \<le> Suc k * unat mp \<and>
     (if L = k * unat mp then L else Suc k * unat mp) < 65536"

text \<open>The slices with data, and the payload of slice \<open>i\<close>.\<close>

definition data_slices :: "u16 \<Rightarrow> nat \<Rightarrow> nat \<Rightarrow> nat" where
  "data_slices mp k L = (if L = k * unat mp then k else Suc k)"

definition slice_len :: "u16 \<Rightarrow> nat \<Rightarrow> nat \<Rightarrow> nat \<Rightarrow> u16" where
  "slice_len mp k L i = (if i < k then mp else of_nat (L - k * unat mp))"

text \<open>The first slice that is missing.\<close>

definition first_missing :: "nat set \<Rightarrow> nat" where
  "first_missing S = (LEAST i. i \<notin> S)"

definition package_view :: "u16 \<Rightarrow> nat \<Rightarrow> nat \<Rightarrow> nat set \<Rightarrow> mp_rx_slice_state \<Rightarrow> bool" where
  "package_view mp k L S st \<longleftrightarrow>
     S \<subseteq> {..k} \<and> bitmap_wf st \<and> (\<forall>i<256. slice_seen st i \<longleftrightarrow> i \<in> S) \<and>
     unat (termination_at st) = (if k \<in> S then L else 0) \<and>
     unat (received_count st) = card (S \<inter> {..<data_slices mp k L}) \<and>
     unat (watermark st) = min L (first_missing S * unat mp)"

lemma package_okD:
  assumes "package_ok mp k L"
  shows "mp \<noteq> 0" "0 < unat mp" "k \<le> 255" "0 < L" "k * unat mp \<le> L" "L \<le> Suc k * unat mp"
    and "data_slices mp k L * unat mp < 65536" "L \<le> data_slices mp k L * unat mp"
    and "k \<le> data_slices mp k L" "data_slices mp k L \<le> Suc k" "L < 65536" "0 < data_slices mp k L"
  using assms by (auto simp: package_ok_def data_slices_def unat_gt_0 split: if_splits)

lemma data_slice_iff:
  assumes "package_ok mp k L"
  shows "i * unat mp < L \<longleftrightarrow> i < data_slices mp k L"
proof
  assume "i * unat mp < L"
  then have "i * unat mp < data_slices mp k L * unat mp"
    using package_okD(8) [OF assms] by linarith
  then show "i < data_slices mp k L" by simp
next
  assume i: "i < data_slices mp k L"
  show "i * unat mp < L"
  proof (cases "L = k * unat mp")
    case True
    then show ?thesis using i package_okD(2) [OF assms] by (simp add: data_slices_def)
  next
    case False
    then have "i * unat mp \<le> k * unat mp" using i by (simp add: data_slices_def)
    then show ?thesis using False package_okD(5) [OF assms] by linarith
  qed
qed

lemma first_missing_notin: "finite S \<Longrightarrow> first_missing S \<notin> S"
  unfolding first_missing_def by (rule LeastI_ex) (rule ex_new_if_finite [OF infinite_UNIV_nat])

lemma first_missing_below: "i < first_missing S \<Longrightarrow> i \<in> S"
  unfolding first_missing_def using not_less_Least by blast

lemma first_missing_le: "i \<notin> S \<Longrightarrow> first_missing S \<le> i"
  unfolding first_missing_def by (rule Least_le)

lemma first_missing_le_Suc: "S \<subseteq> {..k} \<Longrightarrow> first_missing S \<le> Suc k"
  by (rule first_missing_le) auto

lemma first_missing_mono: "finite T \<Longrightarrow> S \<subseteq> T \<Longrightarrow> first_missing S \<le> first_missing T"
  by (rule first_missing_le) (use first_missing_notin in blast)

lemma first_missing_insert_other:
  "finite S \<Longrightarrow> i \<noteq> first_missing S \<Longrightarrow> first_missing (insert i S) = first_missing S"
  using first_missing_notin [of S] first_missing_notin [of "insert i S"]
    first_missing_le [of "first_missing S" "insert i S"]
    first_missing_mono [of "insert i S" S, OF _ subset_insertI]
  by (auto simp: le_antisym)

lemma first_missing_empty [simp]: "first_missing {} = 0"
  by (simp add: first_missing_def)

lemma first_missing_atMost [simp]: "first_missing {..k} = Suc k"
  unfolding first_missing_def by (rule Least_equality) auto

lemma singleton_atMost [simp]: "{i :: nat} = {..k} \<longleftrightarrow> k = 0 \<and> i = 0"
proof
  assume eq: "{i} = {..k}"
  then have "card {..k} = card {i}" by simp
  then have "k = 0" by simp
  moreover have "0 \<in> {i}" using eq by simp
  ultimately show "k = 0 \<and> i = 0" by simp
qed auto

lemma subset_atMost_finite: "S \<subseteq> {..k :: nat} \<Longrightarrow> finite S"
  by (rule finite_subset [OF _ finite_atMost])

lemma first_missing_le_k:
  assumes "S \<subseteq> {..k}" and "S \<noteq> {..k}"
  shows "first_missing S \<le> k"
proof -
  obtain j where "j \<le> k" "j \<notin> S" using assms by auto
  then show ?thesis using first_missing_le [of j S] by linarith
qed

text \<open>Where the watermark stands while a slice is still missing.\<close>

lemma view_watermark:
  assumes "package_ok mp k L" and "package_view mp k L S st" and "S \<noteq> {..k}"
  shows "unat (watermark st) = first_missing S * unat mp"
    and "watermark st = of_nat (first_missing S * unat mp)"
proof -
  have "first_missing S \<le> k"
    using assms(2,3) by (intro first_missing_le_k) (auto simp: package_view_def)
  then have "first_missing S * unat mp \<le> L"
    using package_okD(5) [OF assms(1)] by (meson le_trans mult_le_mono1)
  then show wm: "unat (watermark st) = first_missing S * unat mp"
    using assms(2) by (simp add: package_view_def)
  show "watermark st = of_nat (first_missing S * unat mp)"
    by (simp only: wm [symmetric] of_nat_unat ucast_id)
qed

section \<open>Scanning\<close>

lemma stops_iff:
  assumes ok: "package_ok mp k L" and m: "m \<le> data_slices mp k L"
    and seen: "\<forall>i<256. slice_seen st i \<longleftrightarrow> i \<in> S"
    and tm: "unat (termination_at st) = (if k \<in> S then L else 0)"
  shows "wm_stops st mp (of_nat (m * unat mp)) \<longleftrightarrow>
    (k \<in> S \<and> data_slices mp k L \<le> m) \<or> m mod 256 \<notin> S"
proof -
  have "m * unat mp < 65536"
    using mult_le_mono1 [OF m, of "unat mp"] package_okD(7) [OF ok] by linarith
  then have un: "unat (of_nat (m * unat mp) :: u16) = m * unat mp"
    by (simp add: unat_u16_of_nat del: of_nat_mult)
  have pos: "termination_at st > 0 \<longleftrightarrow> k \<in> S"
    using tm package_okD(4) [OF ok] by (auto simp: word_less_nat_alt)
  have "wm_stops st mp (of_nat (m * unat mp)) \<longleftrightarrow>
      (k \<in> S \<and> L \<le> m * unat mp) \<or> m mod 256 \<notin> S"
    using tm seen package_okD(2) [OF ok]
    by (auto simp: wm_stops_def pos word_le_nat_alt un simp del: of_nat_mult)
  also have "L \<le> m * unat mp \<longleftrightarrow> data_slices mp k L \<le> m"
    using data_slice_iff [OF ok, of m] by linarith
  finally show ?thesis .
qed

lemma scan_loop:
  assumes ok: "package_ok mp k L" and sub: "S \<subseteq> {..k}"
    and seen: "\<forall>i<256. slice_seen st i \<longleftrightarrow> i \<in> S"
    and tm: "unat (termination_at st) = (if k \<in> S then L else 0)"
    and m: "m \<le> first_missing S" "m \<le> k" and wm: "watermark st = of_nat (m * unat mp)"
  defines "T \<equiv> min (data_slices mp k L) (first_missing S)"
  shows "mp_rx_watermark_loop watermark_fuel st mp (watermark st) = Inr (of_nat (T * unat mp))"
    and "unat (of_nat (T * unat mp) :: u16) = T * unat mp"
    and "min L (T * unat mp) = min L (first_missing S * unat mp)"
proof -
  let ?c = "data_slices mp k L"
  have kc: "k \<le> ?c" "?c \<le> Suc k" "k \<le> 255" "mp \<noteq> 0" using package_okD [OF ok] by auto
  have fin: "finite S" using sub by (rule subset_atMost_finite)
  have stops: "wm_stops st mp (of_nat (j * unat mp)) \<longleftrightarrow> (k \<in> S \<and> ?c \<le> j) \<or> j mod 256 \<notin> S"
    if "j \<le> ?c" for j using ok that seen tm by (rule stops_iff)
  have mT: "m \<le> T" using m kc by (simp add: T_def)
  have low: "\<not> wm_stops st mp (of_nat (j * unat mp))" if "j < T" for j
    using that stops [of j] first_missing_below [of j S] kc by (auto simp: T_def)
  have at: "wm_stops st mp (of_nat (T * unat mp))"
  proof (cases "k \<in> S \<and> ?c \<le> first_missing S")
    case True
    then show ?thesis using stops [of T] by (simp add: T_def)
  next
    case False
    then have fm: "first_missing S \<le> k"
      using first_missing_le [of k S] kc by (cases "k \<in> S") auto
    then have "T = first_missing S" "first_missing S < 256" using kc by (auto simp: T_def)
    then show ?thesis using stops [of T] first_missing_notin [OF fin] by (simp add: T_def)
  qed
  have shift: "of_nat (m * unat mp) + of_nat j * mp = (of_nat ((m + j) * unat mp) :: u16)" for j
    by (simp add: algebra_simps)
  have "mp_rx_watermark_loop watermark_fuel st mp (of_nat (m * unat mp)) =
      Inr (of_nat (m * unat mp) + of_nat (T - m) * mp)"
  proof (rule watermark_loop_first)
    show "T - m < watermark_fuel" using kc by (simp add: watermark_fuel_def T_def)
    show "wm_stops st mp (of_nat (m * unat mp) + of_nat (T - m) * mp)"
      using at mT by (simp only: shift) simp
    show "\<not> wm_stops st mp (of_nat (m * unat mp) + of_nat j * mp)" if "j < T - m" for j
      using low [of "m + j"] that by (simp only: shift) simp
  qed (rule kc(4))
  then show "mp_rx_watermark_loop watermark_fuel st mp (watermark st) = Inr (of_nat (T * unat mp))"
    using mT by (simp only: wm shift) simp
  have "T \<le> ?c" by (simp add: T_def)
  then have "T * unat mp < 65536"
    using mult_le_mono1 [of T ?c "unat mp"] package_okD(7) [OF ok] by linarith
  then show "unat (of_nat (T * unat mp) :: u16) = T * unat mp"
    by (simp add: unat_u16_of_nat del: of_nat_mult)
  show "min L (T * unat mp) = min L (first_missing S * unat mp)"
    using package_okD(8) [OF ok] le_trans [OF package_okD(8) [OF ok] mult_le_mono1]
    by (auto simp: T_def min_def)
qed

lemma scan_package:
  assumes ok: "package_ok mp k L" and sub: "S \<subseteq> {..k}"
    and seen: "\<forall>i<256. slice_seen st i \<longleftrightarrow> i \<in> S"
    and tm: "unat (termination_at st) = (if k \<in> S then L else 0)"
    and m: "m \<le> first_missing S" "m \<le> k" and wm: "watermark st = of_nat (m * unat mp)"
  shows "\<exists>w. mp_rx_advance_watermark st mp = Inr w \<and>
    unat w = min L (first_missing S * unat mp)"
proof -
  let ?T = "min (data_slices mp k L) (first_missing S)"
  note scan = scan_loop [OF assms]
  show ?thesis
  proof (cases "k \<in> S")
    case True
    then have "mp_rx_advance_watermark st mp =
        Inr (if L < ?T * unat mp then termination_at st else of_nat (?T * unat mp))"
      using tm scan(2) package_okD(4) [OF ok]
      by (simp add: mp_rx_advance_watermark_def scan(1) word_less_nat_alt del: of_nat_mult)
    moreover have "unat (if L < ?T * unat mp then termination_at st else of_nat (?T * unat mp)) =
        min L (?T * unat mp)"
      using True tm scan(2) by (simp del: of_nat_mult)
    ultimately show ?thesis using scan(3) by simp
  next
    case False
    then have "?T * unat mp \<le> k * unat mp"
      using first_missing_le [of k S] by (simp add: min_le_iff_disj)
    then have "?T * unat mp \<le> L" using package_okD(5) [OF ok] by linarith
    then show ?thesis
      using False tm scan(2,3)
      by (auto simp: mp_rx_advance_watermark_def scan(1) word_less_nat_alt simp del: of_nat_mult)
  qed
qed

section \<open>One transition\<close>

text \<open>
  The event the code must report when slice \<open>i\<close> arrives while \<open>S\<close> has arrived before.
\<close>

definition slice_event :: "nat \<Rightarrow> nat set \<Rightarrow> nat \<Rightarrow> mp_rx_stream_event" where
  "slice_event k S i =
     (if i \<in> S then MP_RX_STREAM_DUPLICATE
      else if insert i S = {..k} then MP_RX_STREAM_COMPLETE
      else if i = first_missing S then MP_RX_STREAM_NEW_SLICE_IN_ORDER
      else MP_RX_STREAM_NEW_SLICE_OUT_OF_ORDER)"

abbreviation step_package ::
    "u16 \<Rightarrow> nat \<Rightarrow> nat \<Rightarrow> mp_rx_slice_state \<Rightarrow> nat \<Rightarrow> mp_rx_slice_inst res" where
  "step_package mp k L st i \<equiv>
     mp_rx_calc_slice_step st (of_nat i) (slice_len mp k L i) mp (i = k)"

lemma view_zero: "package_ok mp k L \<Longrightarrow> package_view mp k L {} zero_state"
  by (simp add: package_view_def)

lemma unat_u8_of_nat_le: "i \<le> k \<Longrightarrow> k \<le> 255 \<Longrightarrow> unat (of_nat i :: u8) = i"
  by (simp add: unat_u8_of_nat)

lemma slice_offset_package:
  assumes "package_ok mp k L" and "i \<le> k"
  shows "unat (mp_slice_idx_to_offset (of_nat i) mp) = i * unat mp"
    and "i * unat mp < 65536"
proof -
  show lt: "i * unat mp < 65536"
    using mult_le_mono1 [OF assms(2), of "unat mp"] package_okD(5,11) [OF assms(1)] by linarith
  show "unat (mp_slice_idx_to_offset (of_nat i) mp) = i * unat mp"
    using unat_u8_of_nat_le [OF assms(2) package_okD(3) [OF assms(1)]] lt
    by (simp add: unat_slice_offset)
qed

lemma unat_slice_len:
  assumes "package_ok mp k L" and "i \<le> k"
  shows "unat (slice_len mp k L i) = (if i < k then unat mp else L - k * unat mp)"
  using package_okD(5,11) [OF assms(1)] assms(2) 
    by (simp add: slice_len_def unat_u16_of_nat del: of_nat_diff)

text \<open>Recording a new slice of the package, before the watermark moves.\<close>

lemma record_package:
  assumes ok: "package_ok mp k L" and view: "package_view mp k L S st"
    and i: "i \<le> k" "i \<notin> S"
  defines "st' \<equiv> record_slice st (of_nat i) (slice_len mp k L i) mp (i = k)"
  shows "bitmap_wf st'" "\<forall>j<256. slice_seen st' j \<longleftrightarrow> j \<in> insert i S"
    and "unat (termination_at st') = (if k \<in> insert i S then L else 0)"
    and "unat (received_count st') = card (insert i S \<inter> {..<data_slices mp k L})"
    and "watermark st' = watermark st"
proof -
  note okD = package_okD [OF ok]
  have ui: "unat (of_nat i :: u8) = i" using i(1) okD(3) by (rule unat_u8_of_nat_le)
  have wf: "bitmap_wf st" and seen: "\<forall>j<256. slice_seen st j \<longleftrightarrow> j \<in> S"
    and cnt: "unat (received_count st) = card (S \<inter> {..<data_slices mp k L})"
    and tm: "unat (termination_at st) = (if k \<in> S then L else 0)"
    using view by (auto simp: package_view_def)
  show "bitmap_wf st'" "watermark st' = watermark st" using wf by (simp_all add: st'_def)
  show "\<forall>j<256. slice_seen st' j \<longleftrightarrow> j \<in> insert i S"
    using wf seen by (simp add: st'_def ui)
  have len: "unat (slice_len mp k L i) = (if i < k then unat mp else L - k * unat mp)"
    using ok i(1) by (rule unat_slice_len)
  show "unat (termination_at st') = (if k \<in> insert i S then L else 0)"
    using slice_offset_package [OF ok i(1)] okD(5,11) tm len i
    by (auto simp: st'_def mp_rx_calc_termination_def unat_u16_add word_less_nat_alt)
  have empty: "slice_len mp k L i = 0 \<and> i = k \<longleftrightarrow> i \<notin> {..<data_slices mp k L}"
    using len i(1) okD(2,5) by (auto simp: data_slices_def unat_eq_0 [symmetric])
  have "card (S \<inter> {..<data_slices mp k L}) \<le> 256"
    using card_mono [of "{..<data_slices mp k L}" "S \<inter> {..<data_slices mp k L}"] okD(3,10)
    by simp
  then show "unat (received_count st') = card (insert i S \<inter> {..<data_slices mp k L})"
    using empty cnt i(2) by (auto simp: st'_def unat_u16_add Int_insert_left)
qed

lemma complete_package:
  assumes ok: "package_ok mp k L" and S: "S \<subseteq> {..k}"
    and tm: "unat (termination_at st) = (if k \<in> S then L else 0)"
    and cnt: "unat (received_count st) = card (S \<inter> {..<data_slices mp k L})"
  shows "mp_rx_is_complete st mp = Inr (S = {..k})"
proof (cases "k \<in> S")
  case True
  let ?c = "data_slices mp k L"
  note okD = package_okD [OF ok]
  have "(L + unat mp - 1) div unat mp = ?c"
  proof (rule div_nat_eqI)
    show "unat mp * ?c \<le> L + unat mp - 1"
    proof -
      obtain c' where c': "?c = Suc c'" using okD(12) gr0_implies_Suc by blast
      then have "c' * unat mp < L" using data_slice_iff [OF ok, of c'] by simp
      then show ?thesis using okD(2) by (simp add: c' algebra_simps)
    qed
    show "L + unat mp - 1 < unat mp * Suc ?c" using okD(2,8) by (simp add: algebra_simps)
  qed
  moreover have "L + unat mp < 4294967296" using okD(11) unat_u16_less [of mp] by linarith
  then have "unat (ucast (termination_at st) + ucast mp - 1 :: u32) = L + unat mp - 1"
    using True tm okD(2) by (simp add: unat_sub_if' unat_word_ariths word_le_nat_alt)
  ultimately have n: "mp_rx_termination_to_slice_count (ucast (termination_at st)) mp = Inr (of_nat ?c)"
    using okD(1,3,10)
    by (simp add: mp_rx_termination_to_slice_count_def u16_eq_iff unat_u32_to_u16 unat_div
        unat_u16_of_nat)
  have "?c \<le> card (S \<inter> {..<?c}) \<longleftrightarrow> S = {..k}"
  proof
    assume "?c \<le> card (S \<inter> {..<?c})"
    then have "S \<inter> {..<?c} = {..<?c}"
      using card_seteq [of "{..<?c}" "S \<inter> {..<?c}"] by simp
    then have "{..<?c} \<subseteq> S" by blast
    moreover have "{..k} \<subseteq> insert k {..<?c}" using okD(9) by auto
    ultimately show "S = {..k}" using S True by blast
  next
    assume "S = {..k}"
    moreover have "{..k} \<inter> {..<?c} = {..<?c}" using okD(10) by auto
    ultimately show "?c \<le> card (S \<inter> {..<?c})" by simp
  qed
  moreover have "termination_at st > 0" using True tm okD(4) by (simp add: word_less_nat_alt)
  ultimately show ?thesis
    using cnt okD(3,10)
    by (simp add: mp_rx_is_complete_def n word_le_nat_alt unat_u16_of_nat)
next
  case False
  then have "termination_at st = 0" using tm by (simp add: unat_eq_0)
  moreover have "S \<noteq> {..k}" using False by auto
  ultimately show ?thesis by (simp add: mp_rx_is_complete_def)
qed

text \<open>
  The transition refines insertion into the set: it never faults on a slice of the package,
  reports exactly the event of the abstract state, and leaves a state that represents the
  bigger set.
\<close>

lemma step_package_seen:
  assumes "package_ok mp k L" and "package_view mp k L S st" and "i \<in> S"
  shows "step_package mp k L st i = Inr \<lparr> inst_event = MP_RX_STREAM_DUPLICATE, next_state = st \<rparr>"
proof -
  have "i \<le> k" using assms(2,3) by (auto simp: package_view_def)
  then show ?thesis
    using assms package_okD(3) [OF assms(1)]
    by (auto simp: calc_slice_step_eq unat_u8_of_nat_le package_view_def)
qed

lemma step_package_refines:
  assumes ok: "package_ok mp k L" and view: "package_view mp k L S st"
    and S: "S \<noteq> {..k}" and i: "i \<le> k"
  shows "\<exists>st'. step_package mp k L st i =
      Inr \<lparr> inst_event = slice_event k S i, next_state = st' \<rparr> \<and>
    package_view mp k L (insert i S) st' \<and> (i \<in> S \<longrightarrow> st' = st)"
proof (cases "i \<in> S")
  case True
  then show ?thesis
    using view step_package_seen [OF ok view True] by (simp add: slice_event_def insert_absorb)
next
  case False
  note okD = package_okD [OF ok]
  let ?r = "record_slice st (of_nat i) (slice_len mp k L i) mp (i = k)"
  note rec = record_package [OF ok view i False]
  have sub: "S \<subseteq> {..k}" "insert i S \<subseteq> {..k}" using view i by (auto simp: package_view_def)
  have fin: "finite S" using sub(1) by (rule subset_atMost_finite)
  have notseen: "\<not> slice_seen st (unat (of_nat i :: u8))"
    using view False i okD(3) by (simp add: package_view_def unat_u8_of_nat_le)
  have wm: "unat (watermark st) = first_missing S * unat mp"
      "watermark st = of_nat (first_missing S * unat mp)"
    using ok view S by (rule view_watermark)+
  have off: "unat (mp_slice_idx_to_offset (of_nat i) mp) > unat (watermark st) \<longleftrightarrow>
      i \<noteq> first_missing S"
    using slice_offset_package [OF ok i] wm(1) okD(2) first_missing_le [OF False] by auto
  show ?thesis
  proof (cases "i = first_missing S")
    case inorder: True
    have "\<exists>w. mp_rx_advance_watermark ?r mp = Inr w \<and>
        unat w = min L (first_missing (insert i S) * unat mp)"
    proof (rule scan_package [OF ok sub(2) rec(2,3)])
      show "first_missing S \<le> first_missing (insert i S)"
        using fin by (intro first_missing_mono) auto
      show "first_missing S \<le> k" using sub(1) S by (rule first_missing_le_k)
      show "watermark ?r = of_nat (first_missing S * unat mp)" using rec(5) wm(2) by simp
    qed
    then obtain w where w: "mp_rx_advance_watermark ?r mp = Inr w"
        "unat w = min L (first_missing (insert i S) * unat mp)" by blast
    let ?n = "?r\<lparr> watermark := w \<rparr>"
    have view': "package_view mp k L (insert i S) ?n"
      using rec sub(2) w(2) by (simp add: package_view_def bitmap_wf_def slice_seen_def)
    have "mp_rx_is_complete ?n mp = Inr (insert i S = {..k})"
      by (rule complete_package [OF ok sub(2)]) (use rec in simp_all)
    then show ?thesis
      using False inorder notseen off w(1) view'
      by (auto simp: calc_slice_step_eq slice_event_def)
  next
    case ooo: False
    have same: "first_missing (insert i S) = first_missing S"
      using fin ooo by (rule first_missing_insert_other)
    then have "insert i S \<noteq> {..k}"
      using first_missing_le_k [OF sub(1) S] by (auto dest: arg_cong [of _ _ first_missing])
    moreover have "package_view mp k L (insert i S) ?r"
      using rec sub(2) view same by (simp add: package_view_def)
    ultimately show ?thesis
      using False ooo notseen off by (auto simp: calc_slice_step_eq slice_event_def)
  qed
qed

section \<open>Arrival sequences\<close>

text \<open>The transition repeated over arriving slices, collecting the events.\<close>

fun rx_run :: "u16 \<Rightarrow> mp_rx_slice_state \<Rightarrow> (u8 \<times> u16 \<times> bool) list \<Rightarrow>
    (mp_rx_stream_event list \<times> mp_rx_slice_state) res" where
  "rx_run mp st [] = Inr ([], st)"
| "rx_run mp st ((i, n, e) # xs) =
     bindE (mp_rx_calc_slice_step st i n mp e) (\<lambda>r.
     bindE (rx_run mp (next_state r) xs) (\<lambda>(es, st'). Inr (inst_event r # es, st')))"

fun slice_events :: "nat \<Rightarrow> nat set \<Rightarrow> nat list \<Rightarrow> mp_rx_stream_event list" where
  "slice_events k S [] = []"
| "slice_events k S (i # is) = slice_event k S i # slice_events k (insert i S) is"

definition package_slice :: "u16 \<Rightarrow> nat \<Rightarrow> nat \<Rightarrow> nat \<Rightarrow> u8 \<times> u16 \<times> bool" where
  "package_slice mp k L i = (of_nat i, slice_len mp k L i, i = k)"

lemma rx_run_append:
  "rx_run mp st (xs @ ys) =
     bindE (rx_run mp st xs) (\<lambda>(es, st1).
     bindE (rx_run mp st1 ys) (\<lambda>(fs, st2). Inr (es @ fs, st2)))"
proof (induction xs arbitrary: st)
  case Nil
  show ?case by (cases "rx_run mp st ys") (auto split: prod.splits)
next
  case (Cons x xs)
  obtain i n e where x: "x = (i, n, e)" by (cases x)
  show ?case
    by (cases "mp_rx_calc_slice_step st i n mp e")
      (auto simp: x Cons.IH bindE_assoc bindE_def split: sum.splits prod.splits)
qed

lemma slice_events_append:
  "slice_events k S (xs @ ys) = slice_events k S xs @ slice_events k (S \<union> set xs) ys"
  by (induction xs arbitrary: S) simp_all

lemma run_package:
  assumes ok: "package_ok mp k L" and view: "package_view mp k L S st"
    and ids: "set is \<subseteq> {..k}" and open_until: "is \<noteq> [] \<Longrightarrow> S \<union> set (butlast is) \<noteq> {..k}"
  shows "\<exists>st'. rx_run mp st (map (package_slice mp k L) is) = Inr (slice_events k S is, st') \<and>
    package_view mp k L (S \<union> set is) st'"
  using view ids open_until
proof (induction "is" arbitrary: S st)
  case (Cons i js)
  have sub: "S \<subseteq> {..k}" using Cons.prems(1) by (simp add: package_view_def)
  have S: "S \<noteq> {..k}"
    using Cons.prems(2,3) sub by (cases js) (auto split: if_splits dest: in_set_butlastD)
  obtain st1 where st1: "step_package mp k L st i =
        Inr \<lparr> inst_event = slice_event k S i, next_state = st1 \<rparr>"
      "package_view mp k L (insert i S) st1"
    using step_package_refines [OF ok Cons.prems(1) S, of i] Cons.prems(2) by auto
  have "js \<noteq> [] \<Longrightarrow> insert i S \<union> set (butlast js) \<noteq> {..k}"
    using Cons.prems(3) by auto
  then obtain st2 where st2:
      "rx_run mp st1 (map (package_slice mp k L) js) = Inr (slice_events k (insert i S) js, st2)"
      "package_view mp k L (insert i S \<union> set js) st2"
    using Cons.IH [OF st1(2)] Cons.prems(2) by auto
  have "rx_run mp st (map (package_slice mp k L) (i # js)) = Inr (slice_events k S (i # js), st2)"
    by (simp add: package_slice_def [of mp k L i] st1(1) st2(1))
  then show ?case using st2(2) by (intro exI [of _ st2]) simp
qed simp

text \<open>The full slices of a package arriving in order from its start.\<close>

lemma run_in_order:
  assumes ok: "package_ok mp k L" and m: "m \<le> k"
  shows "\<exists>st. rx_run mp zero_state (map (\<lambda>i. (of_nat i, mp, False)) [0..<m]) =
      Inr (slice_events k {} [0..<m], st) \<and> package_view mp k L {..<m} st"
proof -
  have "k \<notin> set (butlast [0..<m])" using m by (auto dest: in_set_butlastD)
  then have "{} \<union> set (butlast [0..<m]) \<noteq> {..k}" by (metis Un_empty_left atMost_iff le_refl)
  then have "\<exists>st. rx_run mp zero_state (map (package_slice mp k L) [0..<m]) =
      Inr (slice_events k {} [0..<m], st) \<and> package_view mp k L ({} \<union> set [0..<m]) st"
    using m by (intro run_package [OF ok view_zero [OF ok]]) auto
  moreover have "map (package_slice mp k L) [0..<m] = map (\<lambda>i. (of_nat i, mp, False)) [0..<m]"
    using m by (intro map_cong) (auto simp: package_slice_def slice_len_def)
  ultimately show ?thesis by (simp add: atLeast0LessThan)
qed

text \<open>The abstract state determines the struct.\<close>

lemma package_view_unique:
  assumes "package_view mp k L S a" and "package_view mp k L S b"
  shows "a = b"
proof -
  have "bitmap a = bitmap b"
    using assms by (intro bitmap_eqI) (simp_all add: package_view_def)
  then show ?thesis
    using assms by (cases a; cases b) (simp add: package_view_def u16_eq_iff)
qed

lemma complete_only_at_end:
  "S \<union> set is \<noteq> {..k} \<Longrightarrow> S \<subseteq> {..k} \<Longrightarrow> set is \<subseteq> {..k} \<Longrightarrow>
    MP_RX_STREAM_COMPLETE \<notin> set (slice_events k S is)"
proof (induction "is" arbitrary: S)
  case (Cons i js)
  have "insert i S \<noteq> {..k}" using Cons.prems by auto
  then have "slice_event k S i \<noteq> MP_RX_STREAM_COMPLETE" by (simp add: slice_event_def)
  then show ?case using Cons by auto
qed simp

section \<open>Packages past the 16-bit range\<close>

text \<open>
  With a transmission unit of 300 the maximum payload is 296 and slice 221 starts at 65416.
  Every watermark is a multiple of 8, because 296 and 65536 are. When the slices 0..221 have
  all been seen and the end is unknown or beyond 65528, no watermark ever stops the scan.
\<close>

lemma orbit_296_mod_8:
  assumes "unat wm mod 8 = 0"
  shows "unat (wm + of_nat j * 296 :: u16) mod 8 = 0"
proof (induction j)
  case (Suc j)
  have succ: "wm + of_nat (Suc j) * 296 = (wm + of_nat j * 296 :: u16) + 296"
    by (simp add: algebra_simps)
  have "unat (wm + of_nat (Suc j) * 296 :: u16) =
      (unat (wm + of_nat j * 296 :: u16) + 296) mod 65536"
    unfolding succ by (subst unat_u16_add) simp
  moreover have "x mod 8 = 0 \<Longrightarrow> (x + 296) mod 65536 mod 8 = 0" for x :: nat
    by (simp add: mod_mod_cancel) presburger
  ultimately show ?case using Suc.IH by simp
qed (use assms in simp)

lemma no_stop_296:
  assumes seen: "\<forall>i\<le>221. slice_seen st i" and tm: "termination_at st = 0 \<or> 65528 < unat (termination_at st)"
    and wm: "unat wm mod 8 = 0"
  shows "\<not> wm_stops st 296 wm"
proof -
  have "unat wm \<le> 65528" using wm unat_u16_less [of wm] by presburger
  then show ?thesis using seen tm by (auto simp: wm_stops_def word_le_nat_alt)
qed

lemma scan_hangs_296:
  assumes "\<forall>i\<le>221. slice_seen st i" and "termination_at st = 0 \<or> 65528 < unat (termination_at st)"
    and "unat wm mod 8 = 0"
  shows "mp_rx_watermark_loop fuel st 296 wm = Inl Diverges"
  using no_stop_296 [OF assms(1,2) orbit_296_mod_8 [OF assms(3)]]
  by (simp add: watermark_loop_eq)

lemma last_slice_hangs_296:
  assumes view: "package_view 296 221 65416 {..<221} st"
    and n: "(n = 296 \<and> \<not> e) \<or> (112 < unat n \<and> unat n < 120 \<and> e)"
  shows "mp_rx_calc_slice_step st 221 n 296 e = Inl Diverges"
proof -
  have fm: "first_missing {..<221 :: nat} = 221"
    unfolding first_missing_def by (rule Least_equality) auto
  have wf: "bitmap_wf st" and seen: "\<forall>i<256. slice_seen st i \<longleftrightarrow> i < 221"
    and tm: "termination_at st = 0" and wm: "unat (watermark st) = 65416"
    using view by (simp_all add: package_view_def fm unat_eq_0)
  let ?r = "record_slice st 221 n 296 e"
  have un: "unat n < 296 \<longleftrightarrow> n < 296" by (simp add: word_less_nat_alt)
  have "mp_rx_watermark_loop watermark_fuel ?r 296 (watermark ?r) = Inl Diverges"
  proof (rule scan_hangs_296)
    show "\<forall>i\<le>221. slice_seen ?r i"
      using seen wf by (auto simp: le_less)
    show "termination_at ?r = 0 \<or> 65528 < unat (termination_at ?r)"
      using n tm by (auto simp: mp_rx_calc_termination_def unat_u16_add unat_slice_offset)
    show "unat (watermark ?r) mod 8 = 0" using wm by simp
  qed
  then show ?thesis
    using seen wm by (simp add: calc_slice_step_eq unat_slice_offset mp_rx_advance_watermark_def)
qed

section \<open>Properties\<close>

text \<open>C16: The slices of a package may arrive in any order and any of them more than once: the
  transitions never fault, nothing but the slice that fills the last gap reports COMPLETE, and at
  that moment the known end of the package and the watermark are both the package's length.\<close>

theorem any_order_completes:
  assumes "package_ok mp k L" and "set is \<union> {i} = {..k}" and "set is \<noteq> {..k}"
  shows "\<exists>es st. rx_run mp zero_state (map (package_slice mp k L) (is @ [i])) =
      Inr (es @ [MP_RX_STREAM_COMPLETE], st) \<and> MP_RX_STREAM_COMPLETE \<notin> set es \<and>
    unat (termination_at st) = L \<and> unat (watermark st) = L"
proof -
  have ids: "set (is @ [i]) = {..k}" "set is \<subseteq> {..k}" using assms(2) by auto
  then obtain st where st: "rx_run mp zero_state (map (package_slice mp k L) (is @ [i])) =
        Inr (slice_events k {} (is @ [i]), st)"
      "package_view mp k L {..k} st"
    using run_package [OF assms(1) view_zero [OF assms(1)], of "is @ [i]"] assms(3) by auto
  have "slice_event k (set is) i = MP_RX_STREAM_COMPLETE"
    using assms(2,3) by (auto simp: slice_event_def insert_absorb)
  moreover have "MP_RX_STREAM_COMPLETE \<notin> set (slice_events k {} is)"
    using assms(3) ids(2) by (intro complete_only_at_end) simp_all
  moreover have "unat (termination_at st) = L" "unat (watermark st) = L"
    using st(2) package_okD(6) [OF assms(1)] by (simp_all add: package_view_def)
  ultimately show ?thesis using st(1) by (auto simp: slice_events_append)
qed

theorem any_order_completes_witness:
  "\<exists>es st. rx_run 4 zero_state (map (package_slice 4 2 10) ([2, 0, 2] @ [1])) =
      Inr (es @ [MP_RX_STREAM_COMPLETE], st) \<and> MP_RX_STREAM_COMPLETE \<notin> set es \<and>
    unat (termination_at st) = 10 \<and> unat (watermark st) = 10"
proof (rule any_order_completes)
  show "package_ok 4 2 10" by (simp add: package_ok_def)
  show "set [2, 0, 2] \<union> {1} = {..2 :: nat}" by auto
  show "set [2, 0, 2] \<noteq> {..2 :: nat}"
  proof
    assume "set [2, 0, 2] = {..2 :: nat}"
    moreover have "(1 :: nat) \<in> {..2}" by simp
    ultimately show False by (metis empty_iff empty_set insert_iff list.simps(15) one_neq_zero
        numeral_eq_one_iff semiring_norm(85))
  qed
qed

text \<open>Every event the receiver reports for the slices of one package is the one the set of the
  slices seen so far prescribes: DUPLICATE for a slice already seen, COMPLETE for the one that
  fills the set, IN_ORDER for the first missing one, OUT_OF_ORDER for any other.\<close>

lemma events_follow_the_set:
  assumes "package_ok mp k L" and "set is \<subset> {..k}"
  shows "\<exists>st. rx_run mp zero_state (map (package_slice mp k L) is) =
      Inr (slice_events k {} is, st)"
proof -
  have "set (butlast is) \<noteq> {..k}" using assms(2) by (auto dest: in_set_butlastD)
  then show ?thesis
    using run_package [OF assms(1) view_zero [OF assms(1)], of "is"] assms(2) by auto
qed

lemma events_follow_the_set_witness:
  "\<exists>st. rx_run 4 zero_state (map (package_slice 4 2 10) [2, 0, 2]) =
      Inr (slice_events 2 {} [2, 0, 2], st)"
proof (rule events_follow_the_set)
  show "package_ok 4 2 10" by (simp add: package_ok_def)
  have "(1 :: nat) \<in> {..2}" "(1 :: nat) \<notin> set [2, 0, 2]" by simp_all
  moreover have "set [2, 0, 2] \<subseteq> {..2 :: nat}" by simp
  ultimately show "set [2, 0, 2] \<subset> {..2 :: nat}" by blast
qed

text \<open>The receiver's state does not depend on the order in which the slices of an unfinished
  package arrived, nor on how often each arrived: equal sets of slices leave equal structs.\<close>

lemma arrival_order_irrelevant:
  assumes "package_ok mp k L" and "set is = set js" and "set is \<subset> {..k}"
  shows "\<exists>es fs st. rx_run mp zero_state (map (package_slice mp k L) is) = Inr (es, st) \<and>
    rx_run mp zero_state (map (package_slice mp k L) js) = Inr (fs, st)"
proof -
  have reach: "\<exists>gs st. rx_run mp zero_state (map (package_slice mp k L) xs) = Inr (gs, st) \<and>
      package_view mp k L (set xs) st" if xs: "set xs \<subset> {..k}" for xs
  proof -
    have "set (butlast xs) \<noteq> {..k}" using xs by (auto dest: in_set_butlastD)
    then show ?thesis
      using run_package [OF assms(1) view_zero [OF assms(1)], of xs] xs by auto
  qed
  show ?thesis
    using reach [of "is"] reach [of js] assms(2,3) package_view_unique by metis
qed

lemma arrival_order_irrelevant_witness:
  "\<exists>es fs st. rx_run 4 zero_state (map (package_slice 4 2 10) [2, 0]) = Inr (es, st) \<and>
    rx_run 4 zero_state (map (package_slice 4 2 10) [0, 2, 2, 0]) = Inr (fs, st)"
proof (rule arrival_order_irrelevant)
  show "package_ok 4 2 10" by (simp add: package_ok_def)
  have "(1 :: nat) \<in> {..2}" "(1 :: nat) \<notin> set [2, 0]" by simp_all
  moreover have "set [2, 0] \<subseteq> {..2 :: nat}" by simp
  ultimately show "set [2, 0] \<subset> {..2 :: nat}" by blast
qed auto

text \<open>C27: With the transmission unit of 300 bytes of the referee link, a package that fills slices 0
  to 221 hangs the receiver: after slices 0..220 have arrived in order, slice 221 sends the watermark
  scan into an endless loop when it is full and not the last, and also when it is the last one with
  113 to 119 bytes, which is a package of 65529 to 65535 bytes.\<close>

theorem package_near_64k_hangs:
  assumes "113 \<le> n" and "n \<le> 119"
  shows "\<exists>es st. rx_run 296 zero_state (map (\<lambda>i. (of_nat i, 296, False)) [0..<221]) = Inr (es, st) \<and>
    mp_rx_calc_slice_step st 221 296 296 False = Inl Diverges \<and>
    mp_rx_calc_slice_step st 221 (of_nat n) 296 True = Inl Diverges"
proof -
  have ok: "package_ok 296 221 65416" by (simp add: package_ok_def)
  obtain st where st:
      "rx_run 296 zero_state (map (\<lambda>i. (of_nat i, 296, False)) [0..<221]) =
        Inr (slice_events 221 {} [0..<221], st)"
      "package_view 296 221 65416 {..<221} st"
    using run_in_order [OF ok order_refl] by blast
  have "mp_rx_calc_slice_step st 221 (of_nat n) 296 True = Inl Diverges"
    using assms by (intro last_slice_hangs_296 [OF st(2)]) (simp add: unat_u16_of_nat)
  moreover have "mp_rx_calc_slice_step st 221 296 296 False = Inl Diverges"
    by (rule last_slice_hangs_296 [OF st(2)]) simp
  ultimately show ?thesis using st(1) by blast
qed

theorem package_near_64k_hangs_witness:
  "\<exists>es st. rx_run 296 zero_state (map (\<lambda>i. (of_nat i, 296, False)) [0..<221]) = Inr (es, st) \<and>
    mp_rx_calc_slice_step st 221 296 296 False = Inl Diverges \<and>
    mp_rx_calc_slice_step st 221 (of_nat 115) 296 True = Inl Diverges"
  by (rule package_near_64k_hangs) simp_all

text \<open>C30: An empty package, a lone slice 0 without data and with the end mark, is never reported as
  complete: the receiver takes it for an ordinary slice in order, moves the watermark over a whole
  slice that was never received and keeps the package open with its end unknown.\<close>

theorem empty_package_stays_open:
  assumes "mp \<noteq> 0"
  shows "\<exists>st. mp_rx_calc_slice_step zero_state 0 0 mp True =
      Inr \<lparr> inst_event = MP_RX_STREAM_NEW_SLICE_IN_ORDER, next_state = st \<rparr> \<and>
    watermark st = mp \<and> termination_at st = 0 \<and> received_count st = 0 \<and> slice_seen st 0"
proof -
  let ?r = "record_slice zero_state 0 0 mp True"
  have mp: "0 < unat mp" "unat mp \<noteq> 0" using assms by (simp_all add: unat_gt_0)
  have seen: "slice_seen ?r j \<longleftrightarrow> j = 0" if "j < 256" for j
    using that by simp
  have tm: "mp_rx_calc_termination 0 0 mp = 0"
    by (simp add: mp_rx_calc_termination_def mp_slice_idx_to_offset_def)
  have "mp_rx_watermark_loop watermark_fuel ?r mp 0 = Inr (0 + of_nat 1 * mp)"
  proof (rule watermark_loop_first [OF assms])
    show "wm_stops ?r mp (0 + of_nat 1 * mp)"
      using mp seen [of 1] by (simp add: wm_stops_def tm)
    show "\<not> wm_stops ?r mp (0 + of_nat j * mp)" if "j < 1" for j
      using that seen [of 0] by (simp add: wm_stops_def tm)
  qed (simp add: watermark_fuel_def)
  then show ?thesis
    using seen [of 0] tm assms
    by (simp add: calc_slice_step_eq unat_slice_offset mp_rx_advance_watermark_def
        mp_rx_is_complete_def)
qed

theorem empty_package_stays_open_witness:
  "\<exists>st. mp_rx_calc_slice_step zero_state 0 0 296 True =
      Inr \<lparr> inst_event = MP_RX_STREAM_NEW_SLICE_IN_ORDER, next_state = st \<rparr> \<and>
    watermark st = 296 \<and> termination_at st = 0 \<and> received_count st = 0 \<and> slice_seen st 0"
  by (rule empty_package_stays_open) simp

end
