(* ===== verification/Stream_Rx.thy ===== *)
theory Stream_Rx
  imports Package
begin

text \<open>
  \<^bold>\<open>src/core/customdata-stream-rx.h\<close> and \<^bold>\<open>customdata-stream-rx.c\<close>: the receiving
  stream. A frame is parsed, the slice transition is computed on the state the coordinator
  keeps for the package, the new state is stored and the downstream is told. The coordinator
  and the downstream work on one state \<open>'w\<close>, the memory behind \<open>ctx\<close> and \<open>user\<close>; a
  pointer they exchange is the list of the bytes that may be read from it.
\<close>

section \<open>The stream\<close>

record 'w mp_rx_coordinator =
  state_get :: "'w \<Rightarrow> mp_coordinate \<Rightarrow> mp_rx_slice_state"
  state_put :: "'w \<Rightarrow> mp_coordinate \<Rightarrow> mp_rx_slice_state \<Rightarrow> 'w"
  payload_put :: "'w \<Rightarrow> mp_coordinate \<Rightarrow> u8 list \<Rightarrow> u16 \<Rightarrow> 'w res"
  payload_get :: "'w \<Rightarrow> mp_coordinate \<Rightarrow> u8 list"

type_synonym 'w mp_rx_event_cb =
  "'w \<Rightarrow> mp_rx_stream_event \<Rightarrow> mp_coordinate \<Rightarrow> 'w mp_rx_coordinator \<Rightarrow>
    mp_rx_slice_state \<Rightarrow> u32 \<Rightarrow> u8 list \<Rightarrow> u16 \<Rightarrow> 'w res"

record 'w mp_rx_stream =
  rx_config :: mp_config
  coordinator :: "'w mp_rx_coordinator"
  on_event :: "'w mp_rx_event_cb"

text \<open>
  The header is read as a 32-bit integer in place, which is the little-endian reading on the
  targets of the library.
\<close>

definition mp_rx_stream_feed ::
    "'w mp_rx_stream \<Rightarrow> 'w \<Rightarrow> u8 list \<Rightarrow> u16 \<Rightarrow> 'w res" where
  "mp_rx_stream_feed s w frame frame_size =
     (if unat frame_size < MP_HEADER_SIZE then Inr w
      else
        bindE (mem_read frame 0 MP_HEADER_SIZE) (\<lambda>p_header.
        let hdr = mp_header_unpack (MP_ARRAY_TO_PACKED_HEADER p_header);
            max_payload = mp_max_payload (rx_config s);
            payload_size = slice_payload_size hdr;
            payload = drop MP_HEADER_SIZE frame;
            coord = mp_rx_header_to_coordinate (rx_config s) hdr;
            old_state = state_get (coordinator s) w coord;
            old_watermark = (ucast (watermark old_state) :: u32)
        in
          bindE (mp_rx_calc_slice_step old_state (slice_serial hdr) payload_size max_payload
              (eop hdr \<noteq> 0)) (\<lambda>step.
            if inst_event step = MP_RX_STREAM_DUPLICATE then Inr w
            else
              let w' = (if inst_event step = MP_RX_STREAM_COMPLETE
                        then state_put (coordinator s) w coord zero_state
                        else state_put (coordinator s) w coord (next_state step))
              in on_event s w' (inst_event step) coord (coordinator s) (next_state step)
                   old_watermark payload payload_size)))"

text \<open>A sequence of frames of the same size, as every caller feeds them.\<close>

definition feed_frames :: "'w mp_rx_stream \<Rightarrow> 'w \<Rightarrow> u8 list list \<Rightarrow> 'w res" where
  "feed_frames s w fs = foldE (\<lambda>w f. mp_rx_stream_feed s w f (of_nat (length f))) w fs"

section \<open>Frames and the slices they carry\<close>

text \<open>The bytes of slice \<open>i\<close> of a package, its header, and the frames that carry it.\<close>

definition slice_bytes :: "u16 \<Rightarrow> nat \<Rightarrow> u8 list \<Rightarrow> nat \<Rightarrow> u8 list" where
  "slice_bytes mp k bytes i =
     take (unat (slice_len mp k (length bytes) i)) (drop (i * unat mp) bytes)"

definition slice_header_of ::
    "u16 \<Rightarrow> u8 \<Rightarrow> u8 \<Rightarrow> nat \<Rightarrow> u8 list \<Rightarrow> nat \<Rightarrow> mp_header_meta" where
  "slice_header_of mp sender package k bytes i =
     \<lparr> package_serial = package, slice_serial = of_nat i, hdr_sender_id = sender,
       eop = (if i = k then 1 else 0), slice_payload_size = slice_len mp k (length bytes) i \<rparr>"

definition carries_slice ::
    "u16 \<Rightarrow> u8 \<Rightarrow> u8 \<Rightarrow> nat \<Rightarrow> u8 list \<Rightarrow> nat \<Rightarrow> u8 list \<Rightarrow> bool" where
  "carries_slice mp sender package k bytes i f \<longleftrightarrow>
     length f < 65536 \<and> MP_HEADER_SIZE \<le> length f \<and>
     take MP_HEADER_SIZE f =
       MP_PACKED_HEADER_TO_ARRAY (mp_header_pack (slice_header_of mp sender package k bytes i)) \<and>
     take (unat (slice_len mp k (length bytes) i)) (drop MP_HEADER_SIZE f) =
       slice_bytes mp k bytes i"

text \<open>What the wire can carry: three bits of sender, twelve bits of payload size.\<close>

definition wire_ok :: "u16 \<Rightarrow> u8 \<Rightarrow> bool" where
  "wire_ok mp sender \<longleftrightarrow> sender < 8 \<and> mp < 4096"

lemma length_slice_bytes:
  assumes "package_ok mp k (length bytes)" and "i \<le> k"
  shows "length (slice_bytes mp k bytes i) = unat (slice_len mp k (length bytes) i)"
    and "i * unat mp + unat (slice_len mp k (length bytes) i) \<le> length bytes"
proof -
  show le: "i * unat mp + unat (slice_len mp k (length bytes) i) \<le> length bytes"
  proof (cases "i < k")
    case True
    then have "Suc i * unat mp \<le> k * unat mp" by (intro mult_le_mono1) simp
    then show ?thesis
      using True package_okD(5) [OF assms(1)] by (simp add: unat_slice_len [OF assms])
  next
    case False
    then have "i = k" using assms(2) by simp
    then show ?thesis
      using package_okD(5) [OF assms(1)] unat_slice_len [OF assms(1) order_refl] by simp
  qed
  then show "length (slice_bytes mp k bytes i) = unat (slice_len mp k (length bytes) i)"
    by (simp add: slice_bytes_def)
qed

text \<open>The slice that holds the byte at position \<open>c\<close>, and how far it goes.\<close>

lemma slice_position:
  assumes ok: "package_ok mp k L" and c: "c < L"
  shows "c div unat mp \<le> k"
    and "c mod unat mp + min (unat mp - c mod unat mp) (L - c) \<le>
      unat (slice_len mp k L (c div unat mp))"
proof -
  note okD = package_okD [OF ok]
  let ?i = "c div unat mp"
  have "?i < Suc k" using c okD(6) by (intro less_mult_imp_div_less) linarith
  then show ik: "?i \<le> k" by simp
  have le: "?i * unat mp \<le> c" by simp
  have lt: "c mod unat mp < unat mp" using okD(2) by simp
  have "c mod unat mp + (L - c) = L - ?i * unat mp"
    using c le by (simp add: minus_div_mult_eq_mod [symmetric])
  then show "c mod unat mp + min (unat mp - c mod unat mp) (L - c) \<le> unat (slice_len mp k L ?i)"
    using ik lt unat_slice_len [OF ok ik] unat_slice_len [OF ok order_refl]
    by (cases "?i < k") auto
qed

text \<open>A buffer in which every slice lies at its place holds the package.\<close>

lemma slices_whole:
  assumes ok: "package_ok mp k (length bytes)"
    and all: "\<And>i. i \<le> k \<Longrightarrow>
      take (unat (slice_len mp k (length bytes) i)) (drop (i * unat mp) m) = slice_bytes mp k bytes i"
  shows "length bytes \<le> length m" and "take (length bytes) m = bytes"
proof -
  note okD = package_okD [OF ok]
  have byte: "c < length m \<and> m ! c = bytes ! c" if c: "c < length bytes" for c
  proof -
    let ?i = "c div unat mp" and ?p = "c mod unat mp"
    note pos = slice_position [OF ok c]
    have "?p < unat mp" using okD(2) by simp
    then have p: "?p < unat (slice_len mp k (length bytes) ?i)" using pos(2) c by linarith
    have sl: "take (unat (slice_len mp k (length bytes) ?i)) (drop (?i * unat mp) m) =
        slice_bytes mp k bytes ?i"
      using all pos(1) .
    have "?p < length (take (unat (slice_len mp k (length bytes) ?i)) (drop (?i * unat mp) m))"
      unfolding sl using p length_slice_bytes(1) [OF ok pos(1)] by simp
    then have "?p < length m - ?i * unat mp" by simp
    then have "c < length m" using div_mult_mod_eq [of c "unat mp"] by linarith
    moreover have "drop (?i * unat mp) m ! ?p = slice_bytes mp k bytes ?i ! ?p"
      using p by (simp flip: sl)
    moreover have "?i * unat mp \<le> c" by simp
    ultimately show ?thesis
      using p c le_trans [of "?i * unat mp" c "length m"] le_trans [of "?i * unat mp" c "length bytes"]
      by (simp add: slice_bytes_def)
  qed
  have "length bytes - 1 < length m" using byte [of "length bytes - 1"] okD(4) by simp
  then show len: "length bytes \<le> length m" by linarith
  show "take (length bytes) m = bytes"
    using byte len by (intro nth_equalityI) simp_all
qed

lemma slice_header_wf:
  assumes "package_ok mp k (length bytes)" and "i \<le> k" and "wire_ok mp sender"
  shows "header_wf (slice_header_of mp sender package k bytes i)"
proof -
  have "unat (slice_len mp k (length bytes) i) \<le> unat mp"
    using package_okD(6) [OF assms(1)] by (simp add: unat_slice_len [OF assms(1,2)] le_diff_conv)
  then show ?thesis
    using assms(3)
    by (simp add: header_wf_def slice_header_of_def wire_ok_def word_less_nat_alt)
qed

lemma header_to_slice_coord:
  assumes "package_ok mp k (length bytes)" and "i \<le> k" and "mp_max_payload c = mp"
  shows "mp_rx_header_to_coordinate c (slice_header_of mp sender package k bytes i) =
    slice_coord sender package mp i"
proof -
  have "mp_slice_idx_to_offset (of_nat i) mp = of_nat (i * unat mp)"
    using slice_offset_package [OF assms(1,2)]
    by (simp add: u16_eq_iff unat_u16_of_nat del: of_nat_mult)
  then show ?thesis
    using assms(3)
    by (simp add: mp_rx_header_to_coordinate_def slice_header_of_def Let_def slice_coord_def)
qed

text \<open>Parsing a frame that carries a slice.\<close>

lemma carried_header:
  assumes "carries_slice mp sender package k bytes i f" and "package_ok mp k (length bytes)"
    and "i \<le> k" and "wire_ok mp sender"
  shows "mem_read f 0 MP_HEADER_SIZE = Inr (take MP_HEADER_SIZE f)"
    and "mp_header_unpack (MP_ARRAY_TO_PACKED_HEADER (take MP_HEADER_SIZE f)) =
      slice_header_of mp sender package k bytes i"
    and "unat (of_nat (length f) :: u16) = length f" and "\<not> length f < MP_HEADER_SIZE"
  using assms(1) header_wire_roundtrip [OF slice_header_wf [OF assms(2-4)], of package]
  by (simp_all add: carries_slice_def unat_u16_of_nat)

text \<open>Such a frame, with zeros behind the payload.\<close>

definition slice_frame :: "u16 \<Rightarrow> u8 \<Rightarrow> u8 \<Rightarrow> nat \<Rightarrow> u8 list \<Rightarrow> nat \<Rightarrow> u8 list" where
  "slice_frame mp sender package k bytes i =
     MP_PACKED_HEADER_TO_ARRAY (mp_header_pack (slice_header_of mp sender package k bytes i)) @
     slice_bytes mp k bytes i @ replicate (unat mp - unat (slice_len mp k (length bytes) i)) 0"

lemma slice_len_le:
  assumes "package_ok mp k L" and "i \<le> k"
  shows "unat (slice_len mp k L i) \<le> unat mp"
  using package_okD(6) [OF assms(1)] by (simp add: unat_slice_len [OF assms] le_diff_conv)

lemma slice_frame_carries:
  assumes "package_ok mp k (length bytes)" and "i \<le> k" and "wire_ok mp sender"
  shows "carries_slice mp sender package k bytes i (slice_frame mp sender package k bytes i)"
    and "length (slice_frame mp sender package k bytes i) = unat mp + 4"
proof -
  have "unat mp < 4096" using assms(3) by (simp add: wire_ok_def word_less_nat_alt)
  moreover show len: "length (slice_frame mp sender package k bytes i) = unat mp + 4"
    using length_slice_bytes(1) [OF assms(1,2)] slice_len_le [OF assms(1,2)]
    by (simp add: slice_frame_def)
  ultimately show "carries_slice mp sender package k bytes i (slice_frame mp sender package k bytes i)"
    using length_slice_bytes(1) [OF assms(1,2)]
    by (simp add: carries_slice_def MP_HEADER_SIZE_def) (simp add: slice_frame_def)
qed

section \<open>What a coordinator promises\<close>

text \<open>
  The store of the slice states: what was put for a package is what is read for any slice of
  that package.
\<close>

definition same_package :: "mp_coordinate \<Rightarrow> mp_coordinate \<Rightarrow> bool" where
  "same_package a b \<longleftrightarrow>
     coord_sender_id a = coord_sender_id b \<and> coord_package_id a = coord_package_id b"

lemma same_package_slices [simp]:
  "same_package (slice_coord s p mp i) (slice_coord s p mp j)"
  by (simp add: same_package_def)

locale rx_state_store =
  fixes coord_ops :: "'w mp_rx_coordinator"
    and store_ok :: "'w \<Rightarrow> bool"
  assumes state_put_ok: "store_ok w \<Longrightarrow> bitmap_wf st \<Longrightarrow> store_ok (state_put coord_ops w c st)"
    and state_get_put: "store_ok w \<Longrightarrow> same_package c c' \<Longrightarrow>
      state_get coord_ops (state_put coord_ops w c st) c' = st"
begin

text \<open>
  One frame, for a package of which the slices \<open>S\<close> have arrived: a slice seen before changes
  nothing, any other is stored and reported with the event of the abstract state and the
  watermark it found. After the last slice the stored state is the empty one again.
\<close>

lemma feed_slice:
  assumes ok: "package_ok mp k (length bytes)" and S: "S \<noteq> {..k}" and i: "i \<le> k"
    and wire: "wire_ok mp sender" and cfg: "mp_max_payload (rx_config s) = mp"
    and ops: "coordinator s = coord_ops" and f: "carries_slice mp sender package k bytes i f"
    and view: "package_view mp k (length bytes) S (state_get coord_ops w (slice_coord sender package mp i))"
  shows "\<exists>st'. package_view mp k (length bytes) (insert i S) st' \<and>
    mp_rx_stream_feed s w f (of_nat (length f)) =
      (if i \<in> S then Inr w
       else on_event s
         (state_put coord_ops w (slice_coord sender package mp i)
           (if insert i S = {..k} then zero_state else st'))
         (slice_event k S i) (slice_coord sender package mp i) coord_ops st'
         (ucast (watermark (state_get coord_ops w (slice_coord sender package mp i))))
         (drop MP_HEADER_SIZE f) (slice_len mp k (length bytes) i))"
proof -
  let ?c = "slice_coord sender package mp i" and ?h = "slice_header_of mp sender package k bytes i"
  obtain st' where st': "step_package mp k (length bytes) (state_get coord_ops w ?c) i =
        Inr \<lparr> inst_event = slice_event k S i, next_state = st' \<rparr>"
      "package_view mp k (length bytes) (insert i S) st'"
    using step_package_refines [OF ok view S i] by blast
  have fields: "slice_serial ?h = of_nat i" "slice_payload_size ?h = slice_len mp k (length bytes) i"
      "eop ?h \<noteq> 0 \<longleftrightarrow> i = k"
    by (simp_all add: slice_header_of_def)
  have ev: "slice_event k S i = MP_RX_STREAM_DUPLICATE \<longleftrightarrow> i \<in> S"
      "i \<notin> S \<Longrightarrow> slice_event k S i = MP_RX_STREAM_COMPLETE \<longleftrightarrow> insert i S = {..k}"
    by (simp_all add: slice_event_def)
  have "mp_rx_stream_feed s w f (of_nat (length f)) =
      (if i \<in> S then Inr w
       else on_event s (state_put coord_ops w ?c (if insert i S = {..k} then zero_state else st'))
         (slice_event k S i) ?c coord_ops st' (ucast (watermark (state_get coord_ops w ?c)))
         (drop MP_HEADER_SIZE f) (slice_len mp k (length bytes) i))"
    using carried_header [OF f ok i wire] st'(1) ev cfg
    by (simp add: mp_rx_stream_feed_def Let_def fields header_to_slice_coord [OF ok i cfg] ops)
  then show ?thesis using st'(2) by blast
qed

end

text \<open>
  The store of the payloads: inside the first \<open>cap\<close> bytes of a package what was put at an
  offset is what is read there, and nothing else changes.
\<close>

definition apart :: "mp_coordinate \<Rightarrow> nat \<Rightarrow> mp_coordinate \<Rightarrow> nat \<Rightarrow> bool" where
  "apart c n c' m \<longleftrightarrow>
     unat (coord_offset c) + n \<le> unat (coord_offset c') \<or>
     unat (coord_offset c') + m \<le> unat (coord_offset c)"

text \<open>Both hold for one array addressed by the offset, which is how the program keeps it.\<close>

lemma mem_write_payload:
  assumes len: "length a = cap" and n: "unat n \<le> length d" and fits: "unat (coord_offset c) + unat n \<le> cap"
  shows "\<exists>a'. mem_write a (unat (coord_offset c)) (take (unat n) d) = Inr a' \<and> length a' = cap \<and>
    take (unat n) (drop (unat (coord_offset c)) a') = take (unat n) d \<and>
    (\<forall>c' m. apart c (unat n) c' m \<longrightarrow>
      take m (drop (unat (coord_offset c')) a') = take m (drop (unat (coord_offset c')) a))"
proof -
  let ?d = "take (unat n) d" and ?p = "unat (coord_offset c)"
  have ld: "length ?d = unat n" using n by simp
  obtain a' where a': "mem_write a ?p ?d = Inr a'" using fits len ld by simp
  have "take m (drop (unat (coord_offset c')) a') = take m (drop (unat (coord_offset c')) a)"
    if "apart c (unat n) c' m" for c' m
    using that mem_write_before [OF a', of "unat (coord_offset c')" m]
      mem_write_after [OF a', of "unat (coord_offset c')"] ld
    by (auto simp: apart_def)
  then show ?thesis
    using a' mem_write_same [OF a'] mem_write_length [OF a'] ld len by auto
qed

lemma slices_apart:
  assumes ok: "package_ok mp k (length bytes)" and "i \<le> k" and "j \<le> k" and "i \<noteq> j"
  shows "apart (slice_coord sender package mp i) (unat (slice_len mp k (length bytes) i))
    (slice_coord sender package mp j) (unat (slice_len mp k (length bytes) j))"
proof -
  have off: "unat (of_nat (j * unat mp) :: u16) = j * unat mp" if "j \<le> k" for j
    using slice_offset_package(2) [OF ok that] by (simp add: unat_u16_of_nat del: of_nat_mult)
  have before: "i * unat mp + unat (slice_len mp k (length bytes) i) \<le> j * unat mp"
    if "i < j" "j \<le> k" for i j
  proof -
    have "Suc i * unat mp \<le> j * unat mp" using that by (intro mult_le_mono1) simp
    then show ?thesis using that by (simp add: slice_len_def)
  qed
  show ?thesis
    using before [of i j] before [of j i] assms
    by (auto simp: apart_def off neq_iff simp del: of_nat_mult)
qed

locale rx_payload_store = rx_state_store coord_ops store_ok
  for coord_ops :: "'w mp_rx_coordinator" and store_ok :: "'w \<Rightarrow> bool" +
  fixes cap :: nat
  assumes payload_get_state_put: "store_ok w \<Longrightarrow>
      payload_get coord_ops (state_put coord_ops w c st) = payload_get coord_ops w"
    and payload_put_ok: "store_ok w \<Longrightarrow> unat n \<le> length d \<Longrightarrow>
      unat (coord_offset c) + unat n \<le> cap \<Longrightarrow>
      \<exists>w'. payload_put coord_ops w c d n = Inr w' \<and> store_ok w' \<and>
        state_get coord_ops w' = state_get coord_ops w \<and>
        take (unat n) (payload_get coord_ops w' c) = take (unat n) d \<and>
        (\<forall>c' m. same_package c c' \<and> apart c (unat n) c' m \<longrightarrow>
          take m (payload_get coord_ops w' c') = take m (payload_get coord_ops w c'))"
begin

text \<open>The slices \<open>S\<close> of a package lie in the store.\<close>

definition assembled :: "u8 \<Rightarrow> u8 \<Rightarrow> u16 \<Rightarrow> nat \<Rightarrow> u8 list \<Rightarrow> nat set \<Rightarrow> 'w \<Rightarrow> bool" where
  "assembled sender package mp k bytes S w \<longleftrightarrow>
     store_ok w \<and>
     (\<forall>i\<in>S. take (unat (slice_len mp k (length bytes) i))
        (payload_get coord_ops w (slice_coord sender package mp i)) = slice_bytes mp k bytes i)"

lemma assembled_empty: "store_ok w \<Longrightarrow> assembled sender package mp k bytes {} w"
  by (simp add: assembled_def)

lemma assembled_state_put:
  "assembled sender package mp k bytes S w \<Longrightarrow> bitmap_wf st \<Longrightarrow>
     assembled sender package mp k bytes S (state_put coord_ops w c st)"
  by (simp add: assembled_def state_put_ok payload_get_state_put)

lemma assembled_put:
  assumes ok: "package_ok mp k (length bytes)" and cap: "length bytes \<le> cap"
    and S: "S \<subseteq> {..k}" and i: "i \<le> k" and asm: "assembled sender package mp k bytes S w"
    and d: "take (unat (slice_len mp k (length bytes) i)) d = slice_bytes mp k bytes i"
  defines "n \<equiv> slice_len mp k (length bytes) i"
  shows "\<exists>w'. (if n > 0 then payload_put coord_ops w (slice_coord sender package mp i) d n
      else Inr w) = Inr w' \<and>
    assembled sender package mp k bytes (insert i S) w' \<and>
    state_get coord_ops w' = state_get coord_ops w"
proof (cases "n > 0")
  case False
  then have "unat n = 0" by (simp add: word_gt_0)
  then show ?thesis
    using False asm d by (auto simp: assembled_def n_def)
next
  case True
  let ?c = "slice_coord sender package mp i"
  have off: "unat (coord_offset ?c) = i * unat mp"
    using slice_offset_package(2) [OF ok i] by (simp add: unat_u16_of_nat del: of_nat_mult)
  have len: "unat n \<le> length d"
    using length_slice_bytes(1) [OF ok i] d by (metis length_take min.cobounded1 n_def)
  obtain w' where w': "payload_put coord_ops w ?c d n = Inr w'" "store_ok w'"
      "state_get coord_ops w' = state_get coord_ops w"
      "take (unat n) (payload_get coord_ops w' ?c) = take (unat n) d"
      "\<forall>c' m. same_package ?c c' \<and> apart ?c (unat n) c' m \<longrightarrow>
        take m (payload_get coord_ops w' c') = take m (payload_get coord_ops w c')"
    using payload_put_ok [of w n d ?c] asm len length_slice_bytes(2) [OF ok i] cap off
    by (auto simp: assembled_def n_def)
  have "take (unat (slice_len mp k (length bytes) j))
      (payload_get coord_ops w' (slice_coord sender package mp j)) = slice_bytes mp k bytes j"
    if "j \<in> insert i S" for j
  proof (cases "j = i")
    case True
    then show ?thesis using w'(4) d by (simp add: n_def)
  next
    case False
    then have "j \<in> S" "j \<le> k" using that S by auto
    then show ?thesis
      using w'(5) slices_apart [OF ok i \<open>j \<le> k\<close>, of sender package] False asm
      by (auto simp: assembled_def n_def)
  qed
  then show ?thesis using w' True by (simp add: assembled_def)
qed

end

section \<open>What a downstream makes of a package\<close>

text \<open>
  A downstream that keeps an invariant \<open>mid S\<close> while the slices \<open>S\<close> of a package have
  arrived, and establishes \<open>fin\<close> when the last one does, whatever the order.
\<close>

locale rx_client = rx_state_store coord_ops store_ok
  for coord_ops :: "'w mp_rx_coordinator" and store_ok :: "'w \<Rightarrow> bool" +
  fixes strm :: "'w mp_rx_stream"
    and mp :: u16 and sender :: u8 and package :: u8 and k :: nat and bytes :: "u8 list"
    and mid :: "nat set \<Rightarrow> 'w \<Rightarrow> bool" and fin :: "'w \<Rightarrow> bool"
  assumes config: "mp_max_payload (rx_config strm) = mp"
    and ops: "coordinator strm = coord_ops"
    and mid_package: "mid S w \<Longrightarrow> package_ok mp k (length bytes) \<and> wire_ok mp sender"
    and mid_view: "mid S w \<Longrightarrow>
      package_view mp k (length bytes) S (state_get coord_ops w (slice_coord sender package mp i))"
    and event: "mid S w \<Longrightarrow> i \<le> k \<Longrightarrow> i \<notin> S \<Longrightarrow>
      package_view mp k (length bytes) (insert i S) st' \<Longrightarrow>
      take (unat (slice_len mp k (length bytes) i)) d = slice_bytes mp k bytes i \<Longrightarrow>
      \<exists>w'. on_event strm
          (state_put coord_ops w (slice_coord sender package mp i)
            (if insert i S = {..k} then zero_state else st'))
          (slice_event k S i) (slice_coord sender package mp i) coord_ops st'
          (ucast (watermark (state_get coord_ops w (slice_coord sender package mp i))))
          d (slice_len mp k (length bytes) i) = Inr w' \<and>
        (if insert i S = {..k} then fin w' else mid (insert i S) w')"
begin

lemma feed_one:
  assumes mid: "mid S w" and S: "S \<noteq> {..k}" and i: "i \<le> k"
    and f: "carries_slice mp sender package k bytes i f"
  shows "\<exists>w'. mp_rx_stream_feed strm w f (of_nat (length f)) = Inr w' \<and>
    (if insert i S = {..k} then fin w' else mid (insert i S) w')"
proof -
  note ok = mid_package [OF mid, THEN conjunct1] and wire = mid_package [OF mid, THEN conjunct2]
  obtain st' where st': "package_view mp k (length bytes) (insert i S) st'"
      "mp_rx_stream_feed strm w f (of_nat (length f)) =
        (if i \<in> S then Inr w
         else on_event strm
           (state_put coord_ops w (slice_coord sender package mp i)
             (if insert i S = {..k} then zero_state else st'))
           (slice_event k S i) (slice_coord sender package mp i) coord_ops st'
           (ucast (watermark (state_get coord_ops w (slice_coord sender package mp i))))
           (drop MP_HEADER_SIZE f) (slice_len mp k (length bytes) i))"
    using feed_slice [OF ok S i wire config ops f mid_view [OF mid]] by blast
  show ?thesis
  proof (cases "i \<in> S")
    case True
    then show ?thesis using st'(2) S mid by (auto simp: insert_absorb)
  next
    case False
    have "take (unat (slice_len mp k (length bytes) i)) (drop MP_HEADER_SIZE f) =
        slice_bytes mp k bytes i"
      using f by (simp add: carries_slice_def)
    then show ?thesis
      using event [OF mid i False st'(1), of "drop MP_HEADER_SIZE f"] False
      by (simp only: st'(2) if_False)
  qed
qed

text \<open>Any frames of the package that leave a slice missing.\<close>

lemma feed_some:
  assumes "list_all2 (carries_slice mp sender package k bytes) ids fs"
    and "set ids \<subseteq> {..k}" and "S \<union> set ids \<noteq> {..k}" and "mid S w"
  shows "\<exists>w'. feed_frames strm w fs = Inr w' \<and> mid (S \<union> set ids) w'"
  using assms
proof (induction ids fs arbitrary: S w rule: list_all2_induct)
  case (Cons i ids f fs)
  have "S \<subseteq> {..k}" using mid_view [OF Cons.prems(3)] by (simp add: package_view_def)
  then have ne: "S \<noteq> {..k}" "insert i S \<noteq> {..k}" using Cons.prems(1,2) by auto
  obtain w1 where w1: "mp_rx_stream_feed strm w f (of_nat (length f)) = Inr w1"
      "mid (insert i S) w1"
    using feed_one [OF Cons.prems(3) ne(1) _ Cons.hyps(1)] Cons.prems(1) ne(2) by auto
  then show ?case using Cons.IH [OF _ _ w1(2)] Cons.prems by (simp add: feed_frames_def)
qed (simp add: feed_frames_def)

text \<open>All of them, in any order, up to the last missing one.\<close>

lemma feed_package:
  assumes "list_all2 (carries_slice mp sender package k bytes) (ids @ [i]) fs"
    and ids: "set ids \<union> {i} = {..k}" "set ids \<noteq> {..k}" and "mid {} w"
  shows "\<exists>w'. feed_frames strm w fs = Inr w' \<and> fin w'"
proof -
  obtain gs f where gs: "fs = gs @ [f]" "list_all2 (carries_slice mp sender package k bytes) ids gs"
      "carries_slice mp sender package k bytes i f"
    using assms(1) by (auto simp: list_all2_append1 list_all2_Cons1)
  have sub: "set ids \<subseteq> {..k}" "i \<le> k" using ids(1) by auto
  obtain w1 where w1: "feed_frames strm w gs = Inr w1" "mid (set ids) w1"
    using feed_some [OF gs(2) sub(1) _ assms(4)] ids(2) by auto
  have "insert i (set ids) = {..k}" using ids(1) by simp
  then show ?thesis
    using feed_one [OF w1(2) ids(2) sub(2) gs(3)] w1(1)
    by (auto simp: gs(1) feed_frames_def foldE_append)
qed

end

end
