(* ===== verification/Tools_Rx.thy ===== *)
theory Tools_Rx
  imports Stream_Rx Tools_Args
begin

text \<open>
  \<^bold>\<open>src/tools/rx.c\<close>: the \<open>rx\<close> command. It reads blocks of one transmission unit from
  stdin and feeds them to the receiving stream, whose slice state is the session's and whose
  payloads go to the assembly buffer; on every event the bytes that have become contiguous are
  written to stdout.
\<close>

section \<open>The coordinator and the downstream\<close>

text \<open>The memory behind \<open>rx_ctx_t\<close>, and stdout.\<close>

record rx_world =
  ctx_session :: mp_rx_session
  assembly :: "u8 list"
  rx_out :: out_fd

definition rx_state_get :: "rx_world \<Rightarrow> mp_coordinate \<Rightarrow> mp_rx_slice_state" where
  "rx_state_get w coord = session_state (ctx_session w)"

definition rx_state_put :: "rx_world \<Rightarrow> mp_coordinate \<Rightarrow> mp_rx_slice_state \<Rightarrow> rx_world" where
  "rx_state_put w coord state =
     w\<lparr> ctx_session := (ctx_session w)\<lparr> session_state := state \<rparr> \<rparr>"

definition rx_payload_put :: "rx_world \<Rightarrow> mp_coordinate \<Rightarrow> u8 list \<Rightarrow> u16 \<Rightarrow> rx_world res" where
  "rx_payload_put w coord data sz =
     bindE (mem_read data 0 (unat sz)) (\<lambda>bytes.
     bindE (mem_write (assembly w) (unat (coord_offset coord)) bytes) (\<lambda>a.
       Inr (w\<lparr> assembly := a \<rparr>)))"

definition rx_payload_get :: "rx_world \<Rightarrow> mp_coordinate \<Rightarrow> u8 list" where
  "rx_payload_get w coord = drop (unat (coord_offset coord)) (assembly w)"

definition rx_coordinator :: "rx_world mp_rx_coordinator" where
  "rx_coordinator = \<lparr> state_get = rx_state_get, state_put = rx_state_put,
     payload_put = rx_payload_put, payload_get = rx_payload_get \<rparr>"

text \<open>
  The flush \<open>while (cur_off < state->watermark)\<close>. With a maximum payload of 0 it would make no
  progress and never end. A failed write ends the callback early, without an error.
\<close>

function rx_flush ::
    "rx_world mp_rx_coordinator \<Rightarrow> mp_coordinate \<Rightarrow> u16 \<Rightarrow> u16 \<Rightarrow> rx_world \<Rightarrow> u32 \<Rightarrow> rx_world res" where
  "rx_flush ops coord wm max_p w cur_off =
     (if cur_off < ucast wm then
        if max_p = 0 then Inl Diverges
        else
          let sz = mp_rx_deliver_size cur_off (ucast wm) max_p;
              data = payload_get ops w
                \<lparr> coord_sender_id = coord_sender_id coord,
                  coord_package_id = coord_package_id coord, coord_offset = ucast cur_off \<rparr>
          in bindE (mem_read data 0 (unat sz)) (\<lambda>bytes.
               case write_all (rx_out w) bytes of
                 (False, out') \<Rightarrow> Inr (w\<lparr> rx_out := out' \<rparr>)
               | (True, out') \<Rightarrow>
                   rx_flush ops coord wm max_p (w\<lparr> rx_out := out' \<rparr>) (cur_off + ucast max_p))
      else Inr w)"
  by pat_completeness auto

lemma flush_step_grows:
  assumes "cur_off < ucast (wm :: u16)" and "max_p \<noteq> (0 :: u16)"
  shows "unat (cur_off + ucast max_p :: u32) = unat cur_off + unat max_p" and "0 < unat max_p"
    and "unat cur_off < unat wm"
proof -
  show lt: "unat cur_off < unat wm" using assms(1) by (simp add: word_less_nat_alt)
  have "unat cur_off + unat max_p < 4294967296"
    using lt unat_u16_less [of wm] unat_u16_less [of max_p] by linarith
  then show "unat (cur_off + ucast max_p :: u32) = unat cur_off + unat max_p"
    by (simp add: unat_word_ariths)
  show "0 < unat max_p" using assms(2) by (simp add: unat_gt_0)
qed

termination rx_flush
proof (relation "measure (\<lambda>(ops, coord, wm, max_p, w, cur_off). unat wm - unat cur_off)")
  fix ops coord wm max_p and w :: rx_world and cur_off :: u32 and sz data bytes p ok out'
  assume "cur_off < ucast (wm :: u16)" and "max_p \<noteq> (0 :: u16)"
  note grows = flush_step_grows [OF this]
  show "((ops, coord, wm, max_p, w\<lparr> rx_out := out' \<rparr>, cur_off + ucast max_p),
      (ops, coord, wm, max_p, w, cur_off)) \<in>
    measure (\<lambda>(ops, coord, wm, max_p, w, cur_off). unat wm - unat cur_off)"
    using grows by simp
qed simp

declare rx_flush.simps [simp del]

definition rx_on_event :: "rx_world mp_rx_event_cb" where
  "rx_on_event w e coord ops state old_watermark payload payload_size =
     bindE (if payload_size > 0 then payload_put ops w coord payload payload_size else Inr w)
       (\<lambda>w1.
        if old_watermark < ucast (watermark state) then
          rx_flush ops coord (watermark state)
            (mp_max_payload \<lparr> transmission_unit = rx_transmission_unit (ctx_session w1) \<rparr>)
            w1 old_watermark
        else Inr w1)"

section \<open>The command\<close>

text \<open>One block: reads until it is full, or stdin ends or fails.\<close>

function read_block :: "in_fd \<Rightarrow> nat \<Rightarrow> u8 list option \<times> in_fd" where
  "read_block inp remain =
     (if 0 < remain then
        case os_read inp remain of
          (Some (x # xs), inp') \<Rightarrow>
            (case read_block inp' (remain - length (x # xs)) of
               (None, i) \<Rightarrow> (None, i)
             | (Some ys, i) \<Rightarrow> (Some ((x # xs) @ ys), i))
        | (_, inp') \<Rightarrow> (None, inp')
      else (Some [], inp))"
  by pat_completeness auto
termination by (relation "measure snd") auto

declare read_block.simps [simp del]

lemma read_block_front:
  "read_block inp n = (Some b, inp') \<Longrightarrow> in_bytes inp = b @ in_bytes inp' \<and> length b = n"
proof (induction inp n arbitrary: b inp' rule: read_block.induct)
  case (1 inp n)
  show ?case
  proof (cases "0 < n")
    case True
    with "1.prems" obtain x xs i ys where r: "os_read inp n = (Some (x # xs), i)"
        "read_block i (n - length (x # xs)) = (Some ys, inp')" "b = (x # xs) @ ys"
      by (subst (asm) read_block.simps) (auto split: prod.splits option.splits list.splits)
    show ?thesis
      using "1.IH" [OF True r(1) [symmetric] refl refl r(2)] os_read_front [OF r(1)] r(3) by simp
  next
    case False
    then show ?thesis using "1.prems" by (subst (asm) read_block.simps) simp
  qed
qed

text \<open>
  The loop over the blocks. A transmission unit of 0 would make it spin on empty frames.
\<close>

function rx_loop :: "rx_world mp_rx_stream \<Rightarrow> u16 \<Rightarrow> rx_world \<Rightarrow> in_fd \<Rightarrow> (rx_world \<times> in_fd) res" where
  "rx_loop stream tu w inp =
     (if tu = 0 then Inl Diverges
      else case read_block inp (unat tu) of
        (None, inp') \<Rightarrow> Inr (w, inp')
      | (Some block, inp') \<Rightarrow>
          bindE (mp_rx_stream_feed stream w block tu) (\<lambda>w'. rx_loop stream tu w' inp'))"
  by pat_completeness auto
termination
  by (relation "measure (\<lambda>(s, tu, w, inp). length (in_bytes inp))")
    (auto dest!: sym [THEN read_block_front] simp: unat_gt_0)

declare rx_loop.simps [simp del]

definition rx_stream :: "u16 \<Rightarrow> rx_world mp_rx_stream" where
  "rx_stream tu = \<lparr> rx_config = \<lparr> transmission_unit = tu \<rparr>, coordinator = rx_coordinator,
     on_event = rx_on_event \<rparr>"

definition cmd_rx ::
    "opt list \<Rightarrow> files \<Rightarrow> in_fd \<Rightarrow> out_fd \<Rightarrow> (int \<times> files \<times> in_fd \<times> out_fd) res" where
  "cmd_rx opts fs inp out =
     (case require_session_file opts of
        None \<Rightarrow> Inr (1, fs, inp, out)
      | Some session_path \<Rightarrow>
     (case mp_session_rx_load (fs session_path) of
        None \<Rightarrow> Inr (1, fs, inp, out)
      | Some (session, buf) \<Rightarrow>
        let tu = rx_transmission_unit session;
            w = \<lparr> ctx_session = session, assembly = buf, rx_out = out \<rparr>
        in bindE (rx_loop (rx_stream tu) tu w inp) (\<lambda>(w', inp').
             Inr (0, fs(session_path \<mapsto> mp_session_rx_save (ctx_session w') (assembly w')),
               inp', rx_out w'))))"

section \<open>The command keeps the contract of a coordinator\<close>

definition rx_ok :: "nat \<Rightarrow> rx_world \<Rightarrow> bool" where
  "rx_ok cap w \<longleftrightarrow> bitmap_wf (session_state (ctx_session w)) \<and> length (assembly w) = cap"

lemma rx_payload_put_law:
  assumes ok: "rx_ok cap w" and n: "unat n \<le> length d" and fits: "unat (coord_offset c) + unat n \<le> cap"
  shows "\<exists>w'. rx_payload_put w c d n = Inr w' \<and> rx_ok cap w' \<and> rx_state_get w' = rx_state_get w \<and>
    take (unat n) (rx_payload_get w' c) = take (unat n) d \<and>
    (\<forall>c' m. same_package c c' \<and> apart c (unat n) c' m \<longrightarrow>
      take m (rx_payload_get w' c') = take m (rx_payload_get w c'))"
  using mem_write_payload [of "assembly w" cap n d c] ok n fits
  by (auto simp: rx_payload_put_def rx_payload_get_def rx_ok_def rx_state_get_def fun_eq_iff)

interpretation rx_tool: rx_payload_store rx_coordinator "rx_ok cap" cap
  for cap
proof
  show "\<exists>w'. payload_put rx_coordinator w c d n = Inr w' \<and> rx_ok cap w' \<and>
      state_get rx_coordinator w' = state_get rx_coordinator w \<and>
      take (unat n) (payload_get rx_coordinator w' c) = take (unat n) d \<and>
      (\<forall>c' m. same_package c c' \<and> apart c (unat n) c' m \<longrightarrow>
        take m (payload_get rx_coordinator w' c') = take m (payload_get rx_coordinator w c'))"
    if "rx_ok cap w" "unat n \<le> length d" "unat (coord_offset c) + unat n \<le> cap" for w n d c
    using rx_payload_put_law [OF that] by (simp add: rx_coordinator_def)
qed (auto simp: rx_coordinator_def rx_ok_def rx_state_put_def rx_state_get_def rx_payload_get_def
    fun_eq_iff)

lemma rx_coordinator_simps [simp]:
  "state_get rx_coordinator = rx_state_get" "state_put rx_coordinator = rx_state_put"
  "payload_put rx_coordinator = rx_payload_put" "payload_get rx_coordinator = rx_payload_get"
  by (simp_all add: rx_coordinator_def)

lemma assembled_rx_out [simp]:
  "rx_tool.assembled cap sender package mp k bytes S (w\<lparr> rx_out := out \<rparr>) =
     rx_tool.assembled cap sender package mp k bytes S w"
  by (simp add: rx_tool.assembled_def rx_ok_def rx_payload_get_def)

section \<open>Flushing\<close>

text \<open>What the flush leaves alone, and what it writes.\<close>

lemma flush_slice_piece:
  fixes wm :: u16
  assumes ok: "package_ok mp k (length bytes)" and b: "b \<le> Suc k" and a: "a < b"
    and wm: "unat wm = min (length bytes) (b * unat mp)" and lt: "a * unat mp < unat wm"
  shows "unat (mp_rx_deliver_size (of_nat (a * unat mp)) (ucast wm) mp) =
      unat (slice_len mp k (length bytes) a)"
    and "take (unat wm) bytes = take (a * unat mp) bytes @ slice_bytes mp k bytes a @
      drop (Suc a * unat mp) (take (unat wm) bytes)"
    and "unat (of_nat (a * unat mp) :: u32) = a * unat mp"
proof -
  note okD = package_okD [OF ok]
  have small: "a * unat mp < 65536" using lt unat_u16_less [of wm] by linarith
  show un: "unat (of_nat (a * unat mp) :: u32) = a * unat mp"
    using small by (simp add: unat_of_nat take_bit_eq_mod del: of_nat_mult)
  have ak: "a \<le> k" using a b by simp
  have Suc_a: "Suc a * unat mp \<le> b * unat mp" using a by (intro mult_le_mono1) simp
  have len: "unat (slice_len mp k (length bytes) a) = min (unat mp) (unat wm - a * unat mp)"
  proof (cases "a < k")
    case True
    then have "Suc a * unat mp \<le> k * unat mp" by (intro mult_le_mono1) simp
    then have "Suc a * unat mp \<le> unat wm" using wm Suc_a okD(5) by simp
    then show ?thesis using True by (simp add: slice_len_def)
  next
    case False
    then have "a = k" "b = Suc k" using ak a b by simp_all
    moreover have "length bytes \<le> b * unat mp" using okD(6) calculation by simp
    ultimately show ?thesis
      using okD(6) wm unat_slice_len [OF ok order_refl] by simp
  qed
  then show "unat (mp_rx_deliver_size (of_nat (a * unat mp)) (ucast wm) mp) =
      unat (slice_len mp k (length bytes) a)"
    using lt un unat_u16_less [of wm]
    by (subst unat_deliver_size) (simp_all del: of_nat_mult unat_u16_less)
  have "slice_bytes mp k bytes a = take (unat mp) (drop (a * unat mp) (take (unat wm) bytes))"
    by (simp add: slice_bytes_def len drop_take min.commute)
  moreover have "take (a * unat mp) bytes = take (a * unat mp) (take (unat wm) bytes)"
    using lt by (simp add: min_def)
  ultimately show "take (unat wm) bytes = take (a * unat mp) bytes @ slice_bytes mp k bytes a @
      drop (Suc a * unat mp) (take (unat wm) bytes)"
    by (metis append_take_drop_id drop_drop mult_Suc)
qed

lemma flush_writes:
  assumes ok: "package_ok mp k (length bytes)" and b: "b \<le> Suc k"
    and wm: "unat wm = min (length bytes) (b * unat mp)" and S: "{..<b} \<subseteq> S"
    and asm: "rx_tool.assembled cap sender package mp k bytes S w" and out: "out_writes (rx_out w) = []"
    and a: "a \<le> b"
  shows "rx_flush rx_coordinator (slice_coord sender package mp i) wm mp w (of_nat (a * unat mp)) =
    Inr (w\<lparr> rx_out := (rx_out w)\<lparr> out_bytes :=
      out_bytes (rx_out w) @ drop (a * unat mp) (take (unat wm) bytes) \<rparr> \<rparr>)"
  using asm out a
proof (induction "b - a" arbitrary: a w rule: less_induct)
  case less
  have un: "unat (of_nat (a * unat mp) :: u32) = a * unat mp" if "a * unat mp < 4294967296"
    using that by (simp add: unat_of_nat take_bit_eq_mod del: of_nat_mult)
  have "a * unat mp \<le> Suc k * unat mp" using less.prems(3) b by (intro mult_le_mono1) simp
  also have "\<dots> = unat mp + k * unat mp" by simp
  also have "\<dots> \<le> 65536 + 65536"
    using package_okD(5,11) [OF ok] unat_u16_less [of mp] by linarith
  finally have cur: "unat (of_nat (a * unat mp) :: u32) = a * unat mp" by (intro un) simp
  show ?case
  proof (cases "a * unat mp < unat wm")
    case False
    then show ?thesis
      using cur by (subst rx_flush.simps) (simp add: word_less_nat_alt del: of_nat_mult)
  next
    case True
    then have "a * unat mp < b * unat mp" using wm by simp
    then have ab: "a < b" by simp
    note piece = flush_slice_piece [OF ok b ab wm True]
    let ?n = "unat (slice_len mp k (length bytes) a)" and ?d = "slice_bytes mp k bytes a"
    have ak: "a \<le> k" using ab b by simp
    let ?w = "w\<lparr> rx_out := (rx_out w)\<lparr> out_bytes := out_bytes (rx_out w) @ ?d \<rparr> \<rparr>"
    have off: "ucast (of_nat (a * unat mp) :: u32) = (of_nat (a * unat mp) :: u16)"
      by (simp add: u16_eq_iff unat_u32_to_u16 cur unat_u16_of_nat del: of_nat_mult)
    have get: "take ?n (rx_payload_get w (slice_coord sender package mp a)) = ?d"
      using less.prems(1) ab S by (auto simp: rx_tool.assembled_def)
    then have "?n \<le> length (rx_payload_get w (slice_coord sender package mp a))"
      using length_slice_bytes(1) [OF ok ak] by (metis length_take min.cobounded1)
    then have read: "mem_read (rx_payload_get w (slice_coord sender package mp a)) 0
        (unat (mp_rx_deliver_size (of_nat (a * unat mp)) (ucast wm) mp)) = Inr ?d"
      using get by (simp add: piece(1) del: of_nat_mult)
    have asm': "rx_tool.assembled cap sender package mp k bytes S ?w"
      using less.prems(1) by simp
    have next_off: "of_nat (a * unat mp) + ucast mp = (of_nat (Suc a * unat mp) :: u32)"
      by (simp add: algebra_simps)
    have "rx_flush rx_coordinator (slice_coord sender package mp i) wm mp w (of_nat (a * unat mp)) =
        rx_flush rx_coordinator (slice_coord sender package mp i) wm mp ?w (of_nat (Suc a * unat mp))"
      using True cur package_okD(1) [OF ok] read less.prems(2)
      by (subst rx_flush.simps)
        (simp add: word_less_nat_alt Let_def off slice_coord_def [symmetric] next_off
          del: of_nat_mult mult_Suc)
    also have "\<dots> = Inr (?w\<lparr> rx_out := (rx_out ?w)\<lparr> out_bytes :=
        out_bytes (rx_out ?w) @ drop (Suc a * unat mp) (take (unat wm) bytes) \<rparr> \<rparr>)"
      using ab less.prems(2) by (intro less.hyps [OF _ asm']) auto
    also have "out_bytes (rx_out ?w) @ drop (Suc a * unat mp) (take (unat wm) bytes) =
        out_bytes (rx_out w) @ drop (a * unat mp) (take (unat wm) bytes)"
      using arg_cong [OF piece(2), of "drop (a * unat mp)"] True wm by simp
    finally show ?thesis by simp
  qed
qed

section \<open>Receiving a package\<close>

text \<open>
  In the middle of a package: the slices \<open>S\<close> lie in the buffer, the session's state says so,
  and stdout has got the contiguous part. At its end: the state is empty and stdout has got
  everything.
\<close>

definition rx_at ::
    "nat \<Rightarrow> u16 \<Rightarrow> u8 \<Rightarrow> u8 \<Rightarrow> nat \<Rightarrow> u8 list \<Rightarrow> u8 list \<Rightarrow> nat set \<Rightarrow> rx_world \<Rightarrow> bool" where
  "rx_at cap tu sender package k bytes base S w \<longleftrightarrow>
     package_ok (tu - 4) k (length bytes) \<and> wire_ok (tu - 4) sender \<and> length bytes \<le> cap \<and>
     rx_tool.assembled cap sender package (tu - 4) k bytes S w \<and>
     package_view (tu - 4) k (length bytes) S (session_state (ctx_session w)) \<and>
     rx_magic (ctx_session w) = MP_SESSION_RECV_MAGIC \<and>
     rx_transmission_unit (ctx_session w) = tu \<and> out_writes (rx_out w) = [] \<and>
     out_bytes (rx_out w) =
       base @ take (unat (watermark (session_state (ctx_session w)))) bytes"

definition rx_idle :: "nat \<Rightarrow> u16 \<Rightarrow> u8 list \<Rightarrow> rx_world \<Rightarrow> bool" where
  "rx_idle cap tu base w \<longleftrightarrow>
     rx_ok cap w \<and> session_state (ctx_session w) = zero_state \<and>
     rx_magic (ctx_session w) = MP_SESSION_RECV_MAGIC \<and>
     rx_transmission_unit (ctx_session w) = tu \<and> out_writes (rx_out w) = [] \<and>
     out_bytes (rx_out w) = base"

lemma rx_idle_at:
  "rx_idle cap tu base w \<Longrightarrow> package_ok (tu - 4) k (length bytes) \<Longrightarrow>
     wire_ok (tu - 4) sender \<Longrightarrow> length bytes \<le> cap \<Longrightarrow> rx_at cap tu sender package k bytes base {} w"
  by (simp add: rx_idle_def rx_at_def rx_tool.assembled_empty view_zero)

lemma rx_payload_put_frame:
  "rx_payload_put w c d n = Inr w' \<Longrightarrow> rx_out w' = rx_out w \<and> ctx_session w' = ctx_session w"
  by (auto simp: rx_payload_put_def bindE_eq_Inr)

text \<open>The output follows the watermark: it gets the bytes between the old and the new one.\<close>

lemma flush_if_advanced:
  assumes ok: "package_ok mp k (length bytes)" and S: "S \<subseteq> S'" "S' \<subseteq> {..k}"
    and old: "unat (wm :: u16) = first_missing S * unat mp" "unat wm \<le> length bytes"
    and new: "unat wm' = min (length bytes) (first_missing S' * unat mp)"
    and asm: "rx_tool.assembled cap sender package mp k bytes S' w" and out: "out_writes (rx_out w) = []"
    and before: "out_bytes (rx_out w) = base @ take (unat wm) bytes"
  shows "(if (ucast wm :: u32) < ucast wm'
      then rx_flush rx_coordinator (slice_coord sender package mp i) wm' mp w (ucast wm) else Inr w) =
    Inr (w\<lparr> rx_out := (rx_out w)\<lparr> out_bytes := base @ take (unat wm') bytes \<rparr> \<rparr>)"
proof -
  let ?a = "first_missing S" and ?b = "first_missing S'"
  have ab: "?a \<le> ?b" using S subset_atMost_finite by (intro first_missing_mono) blast+
  have mono: "unat wm \<le> unat wm'" using mult_le_mono1 [OF ab, of "unat mp"] old new by simp
  show ?thesis
  proof (cases "unat wm < unat wm'")
    case True
    have cur: "ucast wm = (of_nat (?a * unat mp) :: u32)"
      using old(1) unat_u16_less [of wm]
      by (simp add: word_unat_eq_iff unat_of_nat take_bit_eq_mod del: of_nat_mult unat_u16_less)
    have "take (?a * unat mp) bytes = take (?a * unat mp) (take (unat wm') bytes)"
      using mono old(1) by (simp add: min_def)
    then have joined: "out_bytes (rx_out w) @ drop (?a * unat mp) (take (unat wm') bytes) =
        base @ take (unat wm') bytes"
      using before old(1) by (metis append.assoc append_take_drop_id)
    have "rx_flush rx_coordinator (slice_coord sender package mp i) wm' mp w (ucast wm) =
        Inr (w\<lparr> rx_out := (rx_out w)\<lparr> out_bytes := base @ take (unat wm') bytes \<rparr> \<rparr>)"
      unfolding cur joined [symmetric]
    proof (rule flush_writes [OF ok _ new _ asm out ab])
      show "?b \<le> Suc k" using S(2) by (rule first_missing_le_Suc)
      show "{..<?b} \<subseteq> S'" using first_missing_below by blast
    qed
    then show ?thesis using True by (simp add: word_less_nat_alt)
  next
    case False
    then have "unat wm = unat wm'" using mono by simp
    then show ?thesis using False before by (simp add: word_less_nat_alt)
  qed
qed

lemma rx_event_flushes:
  assumes at: "rx_at cap tu sender package k bytes base S w" and S: "S \<noteq> {..k}" and i: "i \<le> k"
    and view': "package_view (tu - 4) k (length bytes) (insert i S) st'" and st0: "bitmap_wf st0"
    and d: "take (unat (slice_len (tu - 4) k (length bytes) i)) d = slice_bytes (tu - 4) k bytes i"
  shows "\<exists>w'. rx_on_event (rx_state_put w (slice_coord sender package (tu - 4) i) st0) e
      (slice_coord sender package (tu - 4) i) rx_coordinator st'
      (ucast (watermark (session_state (ctx_session w)))) d (slice_len (tu - 4) k (length bytes) i) =
      Inr w' \<and>
    rx_tool.assembled cap sender package (tu - 4) k bytes (insert i S) w' \<and>
    ctx_session w' = (ctx_session w)\<lparr> session_state := st0 \<rparr> \<and>
    rx_out w' = (rx_out w)\<lparr> out_bytes := base @ take (unat (watermark st')) bytes \<rparr>"
proof -
  note at = at [unfolded rx_at_def]
  have ok: "package_ok (tu - 4) k (length bytes)" and cap: "length bytes \<le> cap"
    and asm: "rx_tool.assembled cap sender package (tu - 4) k bytes S w"
    using at by simp_all
  let ?mp = "tu - 4" and ?st = "session_state (ctx_session w)"
  let ?c = "slice_coord sender package ?mp i" and ?n = "slice_len ?mp k (length bytes) i"
  let ?a = "first_missing S" and ?b = "first_missing (insert i S)"
  let ?w1 = "rx_state_put w ?c st0"
  have mp: "mp_max_payload \<lparr> transmission_unit = tu \<rparr> = ?mp"
    by (simp add: mp_max_payload_def MP_HEADER_SIZE_def)
  have sub: "S \<subseteq> {..k}" "insert i S \<subseteq> {..k}" using at i by (auto simp: package_view_def)
  have old: "unat (watermark ?st) = ?a * unat ?mp"
    using view_watermark [OF ok _ S, of ?st] at by blast
  have new: "unat (watermark st') = min (length bytes) (?b * unat ?mp)"
    using view' by (simp add: package_view_def)
  have asm1: "rx_tool.assembled cap sender package ?mp k bytes S ?w1"
    using rx_tool.assembled_state_put [OF asm st0] by simp
  obtain w2 where w2:
      "(if ?n > 0 then rx_payload_put ?w1 ?c d ?n else Inr ?w1) = Inr w2"
      "rx_tool.assembled cap sender package ?mp k bytes (insert i S) w2"
    using rx_tool.assembled_put [OF ok cap sub(1) i asm1 d] unfolding rx_coordinator_simps by blast
  have frame: "rx_out w2 = rx_out w" "ctx_session w2 = (ctx_session w)\<lparr> session_state := st0 \<rparr>"
    using w2(1) rx_payload_put_frame [of ?w1 ?c d ?n w2]
    by (auto simp: rx_state_put_def split: if_splits)
  have flush: "(if (ucast (watermark ?st) :: u32) < ucast (watermark st')
      then rx_flush rx_coordinator ?c (watermark st') ?mp w2 (ucast (watermark ?st)) else Inr w2) =
    Inr (w2\<lparr> rx_out := (rx_out w2)\<lparr> out_bytes := base @ take (unat (watermark st')) bytes \<rparr> \<rparr>)"
  proof (rule flush_if_advanced [OF ok subset_insertI sub(2) old _ new w2(2)])
    show "unat (watermark ?st) \<le> length bytes" using at by (simp add: package_view_def)
    show "out_writes (rx_out w2) = []" "out_bytes (rx_out w2) = base @ take (unat (watermark ?st)) bytes"
      using frame at by simp_all
  qed
  have "rx_transmission_unit (ctx_session w2) = tu" using frame at by simp
  then have "rx_on_event ?w1 e ?c rx_coordinator st' (ucast (watermark ?st)) d ?n =
      (if (ucast (watermark ?st) :: u32) < ucast (watermark st')
       then rx_flush rx_coordinator ?c (watermark st') ?mp w2 (ucast (watermark ?st)) else Inr w2)"
    unfolding rx_on_event_def rx_coordinator_simps w2(1) by (simp add: mp)
  then show ?thesis unfolding flush using w2(2) frame by simp
qed

text \<open>The command is a downstream of the kind the stream's lemmas speak of.\<close>

lemma rx_event_step:
  assumes at: "rx_at cap tu sender package k bytes base S w" and i: "i \<le> k" "i \<notin> S"
    and view': "package_view (tu - 4) k (length bytes) (insert i S) st'"
    and d: "take (unat (slice_len (tu - 4) k (length bytes) i)) d = slice_bytes (tu - 4) k bytes i"
  shows "\<exists>w'. rx_on_event
      (rx_state_put w (slice_coord sender package (tu - 4) i)
        (if insert i S = {..k} then zero_state else st'))
      (slice_event k S i) (slice_coord sender package (tu - 4) i) rx_coordinator st'
      (ucast (watermark (session_state (ctx_session w)))) d (slice_len (tu - 4) k (length bytes) i) =
      Inr w' \<and>
    (if insert i S = {..k} then rx_idle cap tu (base @ bytes) w'
     else rx_at cap tu sender package k bytes base (insert i S) w')"
proof -
  let ?st0 = "if insert i S = {..k} then zero_state else st'"
  note atD = at [unfolded rx_at_def]
  have wf: "bitmap_wf ?st0" using view' by (simp add: package_view_def)
  have S: "S \<noteq> {..k}" using i by auto
  obtain w' where w': "rx_on_event (rx_state_put w (slice_coord sender package (tu - 4) i) ?st0)
        (slice_event k S i) (slice_coord sender package (tu - 4) i) rx_coordinator st'
        (ucast (watermark (session_state (ctx_session w)))) d (slice_len (tu - 4) k (length bytes) i) =
        Inr w'"
      "rx_tool.assembled cap sender package (tu - 4) k bytes (insert i S) w'"
      "ctx_session w' = (ctx_session w)\<lparr> session_state := ?st0 \<rparr>"
      "rx_out w' = (rx_out w)\<lparr> out_bytes := base @ take (unat (watermark st')) bytes \<rparr>"
    using rx_event_flushes [OF at S i(1) view' wf d] by blast
  have "unat (watermark st') = length bytes" if "insert i S = {..k}"
    using view' that package_okD(6) atD by (simp add: package_view_def)
  then show ?thesis
    using w' atD view' by (auto simp: rx_idle_def rx_at_def rx_tool.assembled_def)
qed

interpretation rx_package: rx_client rx_coordinator "rx_ok cap" "rx_stream tu" "tu - 4"
    sender package k bytes "rx_at cap tu sender package k bytes base" "rx_idle cap tu (base @ bytes)"
  for cap tu sender package k bytes base
proof (unfold_locales, goal_cases)
  case (3 S w)
  then show ?case by (simp add: rx_at_def)
next
  case (4 S w i)
  then show ?case by (simp add: rx_at_def rx_state_get_def)
next
  case (5 S w i st' d)
  then show ?case
    using rx_event_step [OF 5] by (simp add: rx_stream_def rx_state_get_def)
qed (simp_all add: rx_stream_def mp_max_payload_def MP_HEADER_SIZE_def)

section \<open>The whole command\<close>

text \<open>A block is read whole, whatever the reads return, as long as there are bytes.\<close>

lemma read_block_all:
  "reads_progress inp \<Longrightarrow>
     (if n \<le> length (in_bytes inp)
      then \<exists>inp'. read_block inp n = (Some (take n (in_bytes inp)), inp') \<and>
        in_bytes inp' = drop n (in_bytes inp) \<and> reads_progress inp'
      else fst (read_block inp n) = None)"
proof (induction inp n rule: read_block.induct)
  case (1 inp n)
  show ?case
  proof (cases "0 < n")
    case False
    then show ?thesis using "1.prems" by (subst (1) read_block.simps) (subst read_block.simps; simp)
  next
    case n: True
    show ?thesis
    proof (cases "in_bytes inp = []")
      case True
      then show ?thesis
        using n by (subst (2) read_block.simps)
          (auto simp: os_read_def split: prod.split option.split list.split)
    next
      case False
      obtain x xs inp1 where r: "os_read inp n = (Some (x # xs), inp1)" "reads_progress inp1"
        using os_read_progress [OF n "1.prems" False] by blast
      note front = os_read_front [OF r(1)]
      have IH: "if n - length (x # xs) \<le> length (in_bytes inp1)
        then \<exists>inp'. read_block inp1 (n - length (x # xs)) =
            (Some (take (n - length (x # xs)) (in_bytes inp1)), inp') \<and>
          in_bytes inp' = drop (n - length (x # xs)) (in_bytes inp1) \<and> reads_progress inp'
        else fst (read_block inp1 (n - length (x # xs))) = None"
        using "1.IH" [OF n r(1) [symmetric] refl refl r(2)] .
      show ?thesis
      proof (cases "n \<le> length (in_bytes inp)")
        case True
        then obtain inp' where b: "read_block inp1 (n - length (x # xs)) =
              (Some (take (n - length (x # xs)) (in_bytes inp1)), inp')"
            "in_bytes inp' = drop (n - length (x # xs)) (in_bytes inp1)" "reads_progress inp'"
          using IH front by (auto split: if_splits)
        have "read_block inp n = (Some ((x # xs) @ take (n - length (x # xs)) (in_bytes inp1)), inp')"
          using n r(1) b(1) by (subst read_block.simps) simp
        then show ?thesis using True front b(2,3) by (auto simp: take_Cons' drop_Cons')
      next
        case short: False
        then have "fst (read_block inp1 (n - length (x # xs))) = None"
          using IH front by (auto split: if_splits)
        then show ?thesis
          using short n r(1) by (subst (2) read_block.simps) (auto split: prod.split)
      qed
    qed
  qed
qed

lemma rx_loop_frames:
  assumes "tu \<noteq> 0" and "reads_progress inp"
  shows "\<exists>inp'. rx_loop s tu w inp =
    bindE (feed_frames s w (full_slices (unat tu) (in_bytes inp))) (\<lambda>w'. Inr (w', inp'))"
  using assms(2)
proof (induction "length (in_bytes inp)" arbitrary: w inp rule: less_induct)
  case less
  have tu: "0 < unat tu" using assms(1) by (simp add: unat_gt_0)
  note block = read_block_all [OF less.prems, of "unat tu"]
  show ?case
  proof (cases "unat tu \<le> length (in_bytes inp)")
    case True
    let ?f = "take (unat tu) (in_bytes inp)"
    obtain inp1 where 1: "read_block inp (unat tu) = (Some ?f, inp1)"
        "in_bytes inp1 = drop (unat tu) (in_bytes inp)" "reads_progress inp1"
      using block True by auto
    have len: "(of_nat (length ?f) :: u16) = tu"
      using True by (simp only: length_take min.absorb2 of_nat_unat ucast_id)
    have slices: "full_slices (unat tu) (in_bytes inp) = ?f # full_slices (unat tu) (in_bytes inp1)"
      using True tu 1(2) by (simp add: full_slices_long)
    have loop: "rx_loop s tu w inp = bindE (mp_rx_stream_feed s w ?f tu) (\<lambda>w'. rx_loop s tu w' inp1)"
      using 1(1) assms(1) by (subst rx_loop.simps) simp
    show ?thesis
    proof (cases "mp_rx_stream_feed s w ?f tu")
      case (Inr w1)
      have "length (in_bytes inp1) < length (in_bytes inp)" using 1(2) tu True by simp
      then obtain inp' where "rx_loop s tu w1 inp1 =
          bindE (feed_frames s w1 (full_slices (unat tu) (in_bytes inp1))) (\<lambda>w'. Inr (w', inp'))"
        using less.hyps 1(3) by blast
      then show ?thesis
        using Inr len by (intro exI [of _ inp']) (simp add: loop slices feed_frames_def)
    qed (use len in \<open>simp add: loop slices feed_frames_def\<close>)
  next
    case False
    then have "\<exists>inp'. rx_loop s tu w inp = Inr (w, inp')"
      using block assms(1) by (subst rx_loop.simps) (auto split: prod.split)
    then show ?thesis using False by (simp add: feed_frames_def)
  qed
qed

lemma cmd_rx_frames:
  assumes "require_session_file opts = Some path" and "mp_session_rx_load (fs path) = Some (s, buf)"
    and "rx_transmission_unit s \<noteq> 0" and "reads_progress inp"
  shows "\<exists>inp'. cmd_rx opts fs inp out =
    bindE (feed_frames (rx_stream (rx_transmission_unit s))
        \<lparr> ctx_session = s, assembly = buf, rx_out = out \<rparr>
        (full_slices (unat (rx_transmission_unit s)) (in_bytes inp)))
      (\<lambda>w'. Inr (0, fs(path \<mapsto> mp_session_rx_save (ctx_session w') (assembly w')), inp', rx_out w'))"
proof -
  obtain inp' where "rx_loop (rx_stream (rx_transmission_unit s)) (rx_transmission_unit s)
        \<lparr> ctx_session = s, assembly = buf, rx_out = out \<rparr> inp =
      bindE (feed_frames (rx_stream (rx_transmission_unit s))
        \<lparr> ctx_session = s, assembly = buf, rx_out = out \<rparr>
        (full_slices (unat (rx_transmission_unit s)) (in_bytes inp))) (\<lambda>w'. Inr (w', inp'))"
    using rx_loop_frames [OF assms(3,4)] by blast
  then show ?thesis
    using assms(1,2) by (intro exI [of _ inp']) (simp add: cmd_rx_def bindE_assoc Let_def)
qed

text \<open>Complete packages one after the other, each in any order.\<close>

definition package_arrives :: "u16 \<Rightarrow> nat \<Rightarrow> u8 list \<Rightarrow> u8 list list \<Rightarrow> bool" where
  "package_arrives mp cap bytes fs \<longleftrightarrow>
     (\<exists>sender package k ids i. package_ok mp k (length bytes) \<and> length bytes \<le> cap \<and>
        wire_ok mp sender \<and> list_all2 (carries_slice mp sender package k bytes) (ids @ [i]) fs \<and>
        set ids \<union> {i} = {..k} \<and> set ids \<noteq> {..k})"

lemma rx_feed_packages:
  assumes "list_all2 (package_arrives (tu - 4) cap) bss fss" and "rx_idle cap tu base w"
  shows "\<exists>w'. feed_frames (rx_stream tu) w (concat fss) = Inr w' \<and> rx_idle cap tu (base @ concat bss) w'"
  using assms
proof (induction bss fss arbitrary: base w rule: list_all2_induct)
  case (Cons bs bss fs fss)
  obtain sender package k ids i where p: "package_ok (tu - 4) k (length bs)" "length bs \<le> cap"
      "wire_ok (tu - 4) sender" "list_all2 (carries_slice (tu - 4) sender package k bs) (ids @ [i]) fs"
      "set ids \<union> {i} = {..k}" "set ids \<noteq> {..k}"
    using Cons.hyps(1) unfolding package_arrives_def by blast
  obtain w1 where w1: "feed_frames (rx_stream tu) w fs = Inr w1" "rx_idle cap tu (base @ bs) w1"
    using rx_package.feed_package [OF p(4-6) rx_idle_at [OF Cons.prems p(1,3,2)]] by blast
  then show ?case using Cons.IH [OF w1(2)] by (auto simp: feed_frames_def foldE_append)
qed (simp add: feed_frames_def)

lemma cmd_rx_packages:
  assumes args: "require_session_file opts = Some path"
    and load: "mp_session_rx_load (fs path) = Some (\<lparr> rx_magic = MP_SESSION_RECV_MAGIC,
      rx_transmission_unit = tu, session_state = zero_state \<rparr>, buf)"
    and tu: "4 < unat tu" and ps: "list_all2 (package_arrives (tu - 4) (length buf)) bss fss"
    and len: "list_all (\<lambda>f. length f = unat tu) (concat fss)"
    and env: "in_bytes inp = concat (concat fss)" "reads_progress inp" "out_writes out = []"
  shows "\<exists>buf' inp' out'. cmd_rx opts fs inp out =
      Inr (0, fs(path \<mapsto> mp_session_rx_save \<lparr> rx_magic = MP_SESSION_RECV_MAGIC,
        rx_transmission_unit = tu, session_state = zero_state \<rparr> buf'), inp', out') \<and>
    length buf' = length buf \<and> out_bytes out' = out_bytes out @ concat bss"
proof -
  let ?session = "\<lparr> rx_magic = MP_SESSION_RECV_MAGIC, rx_transmission_unit = tu,
    session_state = zero_state \<rparr>"
  let ?w = "\<lparr> ctx_session = ?session, assembly = buf, rx_out = out \<rparr>"
  have "rx_idle (length buf) tu (out_bytes out) ?w"
    using env(3) by (simp add: rx_idle_def rx_ok_def)
  then obtain w' where w': "feed_frames (rx_stream tu) ?w (concat fss) = Inr w'"
      "rx_idle (length buf) tu (out_bytes out @ concat bss) w'"
    using rx_feed_packages [OF ps] by blast
  have slices: "full_slices (unat tu) (in_bytes inp) = concat fss"
    using len tu by (simp add: env(1) full_slices_concat)
  have "tu \<noteq> 0" using tu by auto
  then obtain inp' where "cmd_rx opts fs inp out =
      Inr (0, fs(path \<mapsto> mp_session_rx_save (ctx_session w') (assembly w')), inp', rx_out w')"
    using cmd_rx_frames [where fs = fs and path = path, OF args load _ env(2), of out] w'(1) slices by auto
  moreover have "ctx_session w' = ?session" using w'(2) by (cases "ctx_session w'") (simp add: rx_idle_def)
  ultimately show ?thesis
    using w'(2) by (intro exI [of _ "assembly w'"] exI [of _ inp'] exI [of _ "rx_out w'"])
      (simp add: rx_idle_def rx_ok_def)
qed

lemma cmd_rx_receives:
  assumes args: "require_session_file opts = Some path"
    and load: "mp_session_rx_load (fs path) = Some (\<lparr> rx_magic = MP_SESSION_RECV_MAGIC,
      rx_transmission_unit = tu, session_state = zero_state \<rparr>, buf)"
    and ok: "package_ok (tu - 4) k (length bytes)" and cap: "length bytes \<le> length buf"
    and tu: "4 < unat tu" and wire: "wire_ok (tu - 4) sender"
    and fs: "list_all2 (carries_slice (tu - 4) sender package k bytes) (ids @ [i]) frames"
    and len: "list_all (\<lambda>f. length f = unat tu) frames"
    and ids: "set ids \<union> {i} = {..k}" "set ids \<noteq> {..k}"
    and env: "in_bytes inp = concat frames" "reads_progress inp" "out_writes out = []"
  shows "\<exists>buf' inp' out'. cmd_rx opts fs inp out =
      Inr (0, fs(path \<mapsto> mp_session_rx_save \<lparr> rx_magic = MP_SESSION_RECV_MAGIC,
        rx_transmission_unit = tu, session_state = zero_state \<rparr> buf'), inp', out') \<and>
    length buf' = length buf \<and> out_bytes out' = out_bytes out @ bytes"
proof -
  have "package_arrives (tu - 4) (length buf) bytes frames"
    unfolding package_arrives_def using ok cap wire fs ids by blast
  then show ?thesis
    using cmd_rx_packages [where fs = fs and path = path, OF args load tu, of "[bytes]" "[frames]"] len env by simp
qed

section \<open>Any frame at all\<close>

text \<open>Whatever a frame holds, the session stays one that can be saved and loaded.\<close>

lemma rx_flush_keeps:
  "rx_flush ops c wm mp w off = Inr w' \<Longrightarrow> ctx_session w' = ctx_session w \<and> assembly w' = assembly w"
proof (induction ops c wm mp w off rule: rx_flush.induct)
  case (1 ops c wm mp w off)
  show ?case
  proof (cases "off < ucast wm \<and> mp \<noteq> 0")
    case True
    let ?sz = "mp_rx_deliver_size off (ucast wm) mp"
    let ?data = "payload_get ops w \<lparr> coord_sender_id = coord_sender_id c,
      coord_package_id = coord_package_id c, coord_offset = ucast off \<rparr>"
    obtain bytes where bytes: "mem_read ?data 0 (unat ?sz) = Inr bytes"
      using 1(2) True by (subst (asm) rx_flush.simps) (auto simp: Let_def bindE_eq_Inr)
    obtain ok out where out: "write_all (rx_out w) bytes = (ok, out)" by force
    show ?thesis
    proof (cases ok)
      case ok: True
      then have "rx_flush ops c wm mp (w\<lparr> rx_out := out \<rparr>) (off + ucast mp) = Inr w'"
        using 1(2) True bytes out by (subst (asm) rx_flush.simps) (simp add: Let_def)
      then show ?thesis
        using 1(1) [OF _ _ refl refl bytes out [symmetric]] True ok by simp
    next
      case False
      then show ?thesis
        using 1(2) True bytes out by (subst (asm) rx_flush.simps) (auto simp: Let_def)
    qed
  next
    case False
    then show ?thesis
      using 1(2) by (subst (asm) rx_flush.simps) (auto split: if_splits)
  qed
qed

lemma rx_feed_keeps:
  assumes "mp_rx_stream_feed (rx_stream tu) w f n = Inr w'" and "rx_ok cap w"
  shows "rx_ok cap w' \<and> rx_magic (ctx_session w') = rx_magic (ctx_session w) \<and>
    rx_transmission_unit (ctx_session w') = rx_transmission_unit (ctx_session w)"
  using assms
  by (auto simp: mp_rx_stream_feed_def rx_stream_def Let_def bindE_eq_Inr rx_on_event_def rx_ok_def
      rx_state_get_def rx_state_put_def rx_payload_put_def calc_slice_step_wf
      dest!: rx_flush_keeps mem_write_length split: if_splits)

lemma rx_feeds_keep:
  "feed_frames (rx_stream tu) w fs = Inr w' \<Longrightarrow> rx_ok cap w \<Longrightarrow>
     rx_ok cap w' \<and> rx_magic (ctx_session w') = rx_magic (ctx_session w) \<and>
     rx_transmission_unit (ctx_session w') = rx_transmission_unit (ctx_session w)"
proof (induction fs arbitrary: w)
  case (Cons f fs)
  then obtain w1 where "mp_rx_stream_feed (rx_stream tu) w f (of_nat (length f)) = Inr w1"
      "feed_frames (rx_stream tu) w1 fs = Inr w'"
    by (auto simp: feed_frames_def bindE_eq_Inr)
  then show ?case using Cons.IH [of w1] rx_feed_keeps [of tu w f _ w1 cap] Cons.prems(2) by simp
qed (simp add: feed_frames_def)

lemma loaded_session_kept:
  assumes load: "mp_session_rx_load file0 = Some (s, buf)"
    and feed: "feed_frames (rx_stream tu) \<lparr> ctx_session = s, assembly = buf, rx_out = out \<rparr> frames = Inr w'"
  shows "mp_session_rx_load (Some (mp_session_rx_save (ctx_session w') (assembly w'))) =
      Some (ctx_session w', assembly w')"
    and "rx_transmission_unit (ctx_session w') = rx_transmission_unit s"
proof -
  note wf = rx_session_load_wf [OF load]
  have "rx_ok (length buf) \<lparr> ctx_session = s, assembly = buf, rx_out = out \<rparr>"
    using wf(1) by (simp add: rx_ok_def)
  then have kept: "rx_ok (length buf) w'" "rx_magic (ctx_session w') = rx_magic s"
      "rx_transmission_unit (ctx_session w') = rx_transmission_unit s"
    using rx_feeds_keep [OF feed] by simp_all
  then show "rx_transmission_unit (ctx_session w') = rx_transmission_unit s" by simp
  show "mp_session_rx_load (Some (mp_session_rx_save (ctx_session w') (assembly w'))) =
      Some (ctx_session w', assembly w')"
    using kept wf(2,3) by (intro rx_session_load_saved) (simp_all add: rx_ok_def)
qed

section \<open>Properties\<close>

text \<open>Given the frames of one package in any order and with any repetitions, up to the last
  missing one, \<open>rx\<close> exits with 0, appends exactly the bytes of the package to stdout, and leaves
  a session file whose slice state is empty again, ready for the next package. The package is one
  within 16 bits that fits the assembly buffer, and the reads may cut the blocks as they like.\<close>

lemma rx_delivers_the_package:
  assumes "require_session_file opts = Some path"
    and "mp_session_rx_load (fs path) = Some (\<lparr> rx_magic = MP_SESSION_RECV_MAGIC,
      rx_transmission_unit = tu, session_state = zero_state \<rparr>, buf)"
    and "package_ok (tu - 4) k (length bytes)" and "length bytes \<le> length buf"
    and "4 < unat tu" and "wire_ok (tu - 4) sender"
    and "list_all2 (carries_slice (tu - 4) sender package k bytes) (ids @ [i]) frames"
    and "list_all (\<lambda>f. length f = unat tu) frames"
    and "set ids \<union> {i} = {..k}" and "set ids \<noteq> {..k}"
    and "in_bytes inp = concat frames" and "reads_progress inp" and "out_writes out = []"
  shows "\<exists>buf' inp' out'. cmd_rx opts fs inp out =
      Inr (0, fs(path \<mapsto> mp_session_rx_save \<lparr> rx_magic = MP_SESSION_RECV_MAGIC,
        rx_transmission_unit = tu, session_state = zero_state \<rparr> buf'), inp', out') \<and>
    length buf' = length buf \<and> out_bytes out' = out_bytes out @ bytes"
  using assms by (rule cmd_rx_receives)

lemma rx_delivers_the_package_witness:
  "\<exists>buf' inp' out'. cmd_rx [(CHR ''s'', ''a'')]
      [''a'' \<mapsto> mp_session_rx_save \<lparr> rx_magic = MP_SESSION_RECV_MAGIC,
        rx_transmission_unit = 8, session_state = zero_state \<rparr> (replicate 512 0)]
      \<lparr> in_bytes = concat [slice_frame 4 2 9 1 [1, 2, 3, 4, 5] 1, slice_frame 4 2 9 1 [1, 2, 3, 4, 5] 0],
        in_reads = [Some 3, Some 9] \<rparr> \<lparr> out_bytes = [7], out_writes = [] \<rparr> =
      Inr (0, [''a'' \<mapsto> mp_session_rx_save \<lparr> rx_magic = MP_SESSION_RECV_MAGIC,
          rx_transmission_unit = 8, session_state = zero_state \<rparr> (replicate 512 0)]
        (''a'' \<mapsto> mp_session_rx_save \<lparr> rx_magic = MP_SESSION_RECV_MAGIC,
          rx_transmission_unit = 8, session_state = zero_state \<rparr> buf'), inp', out') \<and>
    length buf' = length (replicate 512 (0 :: u8)) \<and>
    out_bytes out' = out_bytes \<lparr> out_bytes = [7], out_writes = [] \<rparr> @ [1, 2, 3, 4, 5]"
proof (rule rx_delivers_the_package [where k = 1 and ids = "[1]" and i = 0 and sender = 2 and package = 9
      and frames = "[slice_frame 4 2 9 1 [1, 2, 3, 4, 5] 1, slice_frame 4 2 9 1 [1, 2, 3, 4, 5] 0]"])
  have ok: "package_ok 4 1 (length [1 :: u8, 2, 3, 4, 5])" and wire: "wire_ok 4 2"
    by (simp_all add: package_ok_def wire_ok_def)
  show "package_ok (8 - 4) 1 (length [1 :: u8, 2, 3, 4, 5])" "wire_ok (8 - 4) 2"
    using ok wire by simp_all
  show "mp_session_rx_load ([''a'' \<mapsto> mp_session_rx_save \<lparr> rx_magic = MP_SESSION_RECV_MAGIC,
        rx_transmission_unit = 8, session_state = zero_state \<rparr> (replicate 512 0)] ''a'') =
      Some (\<lparr> rx_magic = MP_SESSION_RECV_MAGIC, rx_transmission_unit = 8,
        session_state = zero_state \<rparr>, replicate 512 0)"
    by (simp add: rx_session_load_saved rx_total_size_def sizeof_mp_header_meta_def)
  show "list_all2 (carries_slice (8 - 4) 2 9 1 [1, 2, 3, 4, 5]) ([1] @ [0])
      [slice_frame 4 2 9 1 [1, 2, 3, 4, 5] 1, slice_frame 4 2 9 1 [1, 2, 3, 4, 5] 0]"
    using slice_frame_carries(1) [OF ok _ wire] by simp
  show "list_all (\<lambda>f. length f = unat (8 :: u16))
      [slice_frame 4 2 9 1 [1, 2, 3, 4, 5] 1, slice_frame 4 2 9 1 [1, 2, 3, 4, 5] 0]"
    using slice_frame_carries(2) [OF ok _ wire] by simp
  show "set [1] \<union> {0} = {..1 :: nat}" "set [1] \<noteq> {..1 :: nat}"
    by (auto simp: atMost_Suc numeral_eq_Suc)
qed (simp_all add: require_session_file_def reads_progress_def)

text \<open>C18: While a package is incomplete, stdout has got exactly the bytes in front of the first
  missing slice, whatever slices have arrived, in whatever order and how often; nothing is written
  ahead of a gap, twice or out of order.\<close>

theorem rx_streams_the_prefix:
  assumes "package_ok (tu - 4) k (length bytes)" and "length bytes \<le> cap"
    and "wire_ok (tu - 4) sender"
    and "list_all2 (carries_slice (tu - 4) sender package k bytes) ids fs"
    and "set ids \<subset> {..k}" and "rx_idle cap tu base w"
  shows "\<exists>w'. feed_frames (rx_stream tu) w fs = Inr w' \<and>
    out_bytes (rx_out w') = base @ take (first_missing (set ids) * unat (tu - 4)) bytes"
proof -
  obtain w' where w': "feed_frames (rx_stream tu) w fs = Inr w'"
      "rx_at cap tu sender package k bytes base (set ids) w'"
    using rx_package.feed_some [OF assms(4) _ _ rx_idle_at [OF assms(6,1,3,2)]] assms(5) by auto
  have "unat (watermark (session_state (ctx_session w'))) = first_missing (set ids) * unat (tu - 4)"
    using w'(2) assms(5) by (intro view_watermark(1) [OF assms(1)]) (auto simp: rx_at_def)
  then show ?thesis using w' by (auto simp: rx_at_def)
qed

theorem rx_streams_the_prefix_witness:
  "\<exists>w'. feed_frames (rx_stream 8)
      \<lparr> ctx_session = \<lparr> rx_magic = MP_SESSION_RECV_MAGIC, rx_transmission_unit = 8,
          session_state = zero_state \<rparr>, assembly = replicate 512 0,
        rx_out = \<lparr> out_bytes = [], out_writes = [] \<rparr> \<rparr>
      [slice_frame 4 2 9 2 [1, 2, 3, 4, 5, 6, 7, 8, 9] 2, slice_frame 4 2 9 2 [1, 2, 3, 4, 5, 6, 7, 8, 9] 0] =
      Inr w' \<and>
    out_bytes (rx_out w') =
      [] @ take (first_missing (set [2, 0]) * unat (8 - 4 :: u16)) [1, 2, 3, 4, 5, 6, 7, 8, 9]"
proof (rule rx_streams_the_prefix [where k = 2 and sender = 2 and package = 9 and cap = 512])
  have ok: "package_ok 4 2 (length [1 :: u8, 2, 3, 4, 5, 6, 7, 8, 9])" and wire: "wire_ok 4 2"
    by (simp_all add: package_ok_def wire_ok_def)
  show "package_ok (8 - 4) 2 (length [1 :: u8, 2, 3, 4, 5, 6, 7, 8, 9])" "wire_ok (8 - 4) 2"
    using ok wire by simp_all
  show "list_all2 (carries_slice (8 - 4) 2 9 2 [1, 2, 3, 4, 5, 6, 7, 8, 9]) [2, 0]
      [slice_frame 4 2 9 2 [1, 2, 3, 4, 5, 6, 7, 8, 9] 2, slice_frame 4 2 9 2 [1, 2, 3, 4, 5, 6, 7, 8, 9] 0]"
    using slice_frame_carries(1) [OF ok _ wire] by simp
  have "(1 :: nat) \<in> {..2}" "(1 :: nat) \<notin> set [2, 0]" by simp_all
  moreover have "set [2, 0] \<subseteq> {..2 :: nat}" by simp
  ultimately show "set [2, 0] \<subset> {..2 :: nat}" by blast
qed (simp_all add: rx_idle_def rx_ok_def)

text \<open>C28: The size a header declares is not compared with the size of the frame: for a slice not
  seen before, a frame shorter than its declared payload makes the receiver read beyond the block,
  unless the slice transition itself has no outcome.\<close>

theorem rx_trusts_declared_size:
  assumes "4 \<le> length f" and "length f < 65536"
    and "mp_header_unpack (MP_ARRAY_TO_PACKED_HEADER (take 4 f)) = h"
    and "length f < unat (slice_payload_size h) + 4"
    and "\<not> slice_seen (session_state (ctx_session w)) (unat (slice_serial h))"
    and "mp_rx_calc_slice_step (session_state (ctx_session w)) (slice_serial h)
      (slice_payload_size h) (mp_max_payload \<lparr> transmission_unit = tu \<rparr>) (eop h \<noteq> 0) = Inr r"
  shows "mp_rx_stream_feed (rx_stream tu) w f (of_nat (length f)) = Inl Out_Of_Bounds"
proof -
  have "inst_event r \<noteq> MP_RX_STREAM_DUPLICATE"
    using assms(5,6) by (auto simp: calc_slice_step_eq bindE_eq_Inr split: if_splits)
  moreover have "rx_on_event w1 e c rx_coordinator st' old (drop 4 f) (slice_payload_size h) =
      Inl Out_Of_Bounds" for w1 e c st' old
    using assms(1,4)
    by (auto simp: rx_on_event_def rx_payload_put_def mem_read_def word_gt_0 unat_eq_0 [symmetric])
  ultimately show ?thesis
    using assms
    by (simp add: mp_rx_stream_feed_def MP_HEADER_SIZE_def unat_u16_of_nat rx_stream_def
        rx_state_get_def Let_def)
qed

theorem rx_trusts_declared_size_witness:
  "mp_rx_stream_feed (rx_stream 8)
      \<lparr> ctx_session = \<lparr> rx_magic = MP_SESSION_RECV_MAGIC, rx_transmission_unit = 8,
          session_state = zero_state \<rparr>, assembly = replicate 512 0,
        rx_out = \<lparr> out_bytes = [], out_writes = [] \<rparr> \<rparr>
      [9, 1, 0, 10, 1, 2, 3, 4] (of_nat (length [9 :: u8, 1, 0, 10, 1, 2, 3, 4])) = Inl Out_Of_Bounds"
proof (rule rx_trusts_declared_size)
  let ?h = "\<lparr> package_serial = 9, slice_serial = 1, hdr_sender_id = 0, eop = 0,
    slice_payload_size = 160 \<rparr>"
  show "mp_header_unpack (MP_ARRAY_TO_PACKED_HEADER (take 4 [9, 1, 0, 10, 1, 2, 3, 4])) = ?h"
    by (simp add: MP_ARRAY_TO_PACKED_HEADER_def mp_header_unpack_def)
qed (simp_all add: calc_slice_step_eq mp_max_payload_def MP_HEADER_SIZE_def unat_slice_offset)

text \<open>C29: The assembly buffer \<open>config\<close> creates is too small for the packages the protocol
  allows: 256 slices of the transmission unit less 6 bytes each, where a slice carries the unit less 4.
  A fresh session therefore writes beyond the buffer when a full slice arrives that ends behind it.\<close>

theorem rx_buffer_too_small:
  assumes "package_ok (tu - 4) k (length bytes)" and "wire_ok (tu - 4) sender" and "i < k"
    and "carries_slice (tu - 4) sender package k bytes i f"
    and "rx_idle (256 * unat (tu - 6)) tu base w"
    and "256 * unat (tu - 6) < Suc i * unat (tu - 4)"
  shows "mp_rx_stream_feed (rx_stream tu) w f (of_nat (length f)) = Inl Out_Of_Bounds"
proof -
  let ?mp = "tu - 4" and ?c = "slice_coord sender package (tu - 4) i"
  have mp: "mp_max_payload \<lparr> transmission_unit = tu \<rparr> = ?mp"
    by (simp add: mp_max_payload_def MP_HEADER_SIZE_def)
  have ik: "i \<le> k" using assms(3) by simp
  have view: "package_view ?mp k (length bytes) {} (state_get rx_coordinator w ?c)"
    using assms(5) view_zero [OF assms(1)] by (simp add: rx_state_get_def rx_idle_def)
  obtain st' where feed: "mp_rx_stream_feed (rx_stream tu) w f (of_nat (length f)) =
        rx_on_event (rx_state_put w ?c (if insert i {} = {..k} then zero_state else st'))
           (slice_event k {} i) ?c rx_coordinator st' (ucast (watermark zero_state))
           (drop MP_HEADER_SIZE f) ?mp"
    using rx_tool.feed_slice [OF assms(1) _ ik assms(2) _ _ assms(4) view, of "rx_stream tu"]
      mp assms(3,5)
    by (auto simp: rx_stream_def rx_state_get_def rx_idle_def slice_len_def)
  have "take (unat ?mp) (drop MP_HEADER_SIZE f) = slice_bytes ?mp k bytes i"
    using assms(3,4) by (simp add: carries_slice_def slice_len_def)
  then have "unat ?mp \<le> length f - MP_HEADER_SIZE"
    using length_slice_bytes(1) [OF assms(1) ik] assms(3)
    by (metis length_drop length_take min.cobounded1 slice_len_def)
  moreover have "unat (coord_offset ?c) = i * unat ?mp"
    using slice_offset_package(2) [OF assms(1) ik] by (simp add: unat_u16_of_nat del: of_nat_mult)
  moreover have "?mp > 0" using package_okD(1) [OF assms(1)] by (simp add: word_gt_0)
  ultimately show ?thesis
    unfolding feed using assms(5,6)
    by (simp add: rx_on_event_def rx_payload_put_def mem_write_def rx_state_put_def rx_idle_def
        rx_ok_def del: slice_coord_simps)
qed

theorem rx_buffer_too_small_witness:
  "mp_rx_stream_feed (rx_stream 60)
      \<lparr> ctx_session = \<lparr> rx_magic = MP_SESSION_RECV_MAGIC, rx_transmission_unit = 60,
          session_state = zero_state \<rparr>, assembly = replicate (256 * 54) 0,
        rx_out = \<lparr> out_bytes = [], out_writes = [] \<rparr> \<rparr>
      (slice_frame 56 0 0 250 (replicate 14000 1) 246)
      (of_nat (length (slice_frame 56 0 0 250 (replicate 14000 1) 246))) = Inl Out_Of_Bounds"
proof (rule rx_buffer_too_small [where k = 250 and i = 246 and bytes = "replicate 14000 1"
      and sender = 0 and package = 0 and base = "[]"])
  have ok: "package_ok 56 250 (length (replicate 14000 (1 :: u8)))" and wire: "wire_ok 56 0"
    by (simp_all add: package_ok_def wire_ok_def)
  show "package_ok (60 - 4) 250 (length (replicate 14000 (1 :: u8)))" "wire_ok (60 - 4) 0"
    using ok wire by simp_all
  show "carries_slice (60 - 4) 0 0 250 (replicate 14000 1) 246
      (slice_frame 56 0 0 250 (replicate 14000 1) 246)"
    using slice_frame_carries(1) [OF ok _ wire] by simp
qed (simp_all add: rx_idle_def rx_ok_def)

text \<open>C15: Packages follow one another through one receiver: whatever the order and the repetitions
  inside each, \<open>rx\<close> writes the bytes of the packages one after the other and leaves an empty slice
  state. Nothing ties a package to the ones before it, so a package that is sent twice is written
  twice.\<close>

theorem rx_receives_packages:
  assumes "require_session_file opts = Some path"
    and "mp_session_rx_load (fs path) = Some (\<lparr> rx_magic = MP_SESSION_RECV_MAGIC,
      rx_transmission_unit = tu, session_state = zero_state \<rparr>, buf)"
    and "4 < unat tu" and "list_all2 (package_arrives (tu - 4) (length buf)) packages arrivals"
    and "list_all (\<lambda>f. length f = unat tu) (concat arrivals)"
    and "in_bytes inp = concat (concat arrivals)" and "reads_progress inp" and "out_writes out = []"
  shows "\<exists>buf' inp' out'. cmd_rx opts fs inp out =
      Inr (0, fs(path \<mapsto> mp_session_rx_save \<lparr> rx_magic = MP_SESSION_RECV_MAGIC,
        rx_transmission_unit = tu, session_state = zero_state \<rparr> buf'), inp', out') \<and>
    length buf' = length buf \<and> out_bytes out' = out_bytes out @ concat packages"
  using assms by (rule cmd_rx_packages)

theorem rx_receives_packages_witness:
  "\<exists>buf' inp' out'. cmd_rx [(CHR ''s'', ''a'')]
      [''a'' \<mapsto> mp_session_rx_save \<lparr> rx_magic = MP_SESSION_RECV_MAGIC,
        rx_transmission_unit = 8, session_state = zero_state \<rparr> (replicate 512 0)]
      \<lparr> in_bytes = concat (concat [[slice_frame 4 2 9 0 [1, 2, 3] 0], [slice_frame 4 2 9 0 [1, 2, 3] 0]]),
        in_reads = [] \<rparr> \<lparr> out_bytes = [], out_writes = [] \<rparr> =
      Inr (0, [''a'' \<mapsto> mp_session_rx_save \<lparr> rx_magic = MP_SESSION_RECV_MAGIC,
          rx_transmission_unit = 8, session_state = zero_state \<rparr> (replicate 512 0)]
        (''a'' \<mapsto> mp_session_rx_save \<lparr> rx_magic = MP_SESSION_RECV_MAGIC,
          rx_transmission_unit = 8, session_state = zero_state \<rparr> buf'), inp', out') \<and>
    length buf' = length (replicate 512 (0 :: u8)) \<and>
    out_bytes out' = out_bytes \<lparr> out_bytes = [], out_writes = [] \<rparr> @ concat [[1, 2, 3], [1, 2, 3]]"
proof (rule rx_receives_packages
    [where arrivals = "[[slice_frame 4 2 9 0 [1, 2, 3] 0], [slice_frame 4 2 9 0 [1, 2, 3] 0]]"])
  have ok: "package_ok 4 0 (length [1 :: u8, 2, 3])" and wire: "wire_ok 4 2"
    by (simp_all add: package_ok_def wire_ok_def)
  have "package_arrives 4 512 [1, 2, 3] [slice_frame 4 2 9 0 [1, 2, 3] 0]"
    using slice_frame_carries(1) [OF ok order_refl wire, of 9] ok wire unfolding package_arrives_def
    by (intro exI [of _ 2] exI [of _ 9] exI [of _ 0] exI [of _ "[]"] conjI) auto
  then show "list_all2 (package_arrives (8 - 4) (length (replicate 512 (0 :: u8)))) [[1, 2, 3], [1, 2, 3]]
      [[slice_frame 4 2 9 0 [1, 2, 3] 0], [slice_frame 4 2 9 0 [1, 2, 3] 0]]"
    by simp
  show "list_all (\<lambda>f. length f = unat (8 :: u16))
      (concat [[slice_frame 4 2 9 0 [1, 2, 3] 0], [slice_frame 4 2 9 0 [1, 2, 3] 0]])"
    using slice_frame_carries(2) [OF ok order_refl wire] by simp
  show "mp_session_rx_load ([''a'' \<mapsto> mp_session_rx_save \<lparr> rx_magic = MP_SESSION_RECV_MAGIC,
        rx_transmission_unit = 8, session_state = zero_state \<rparr> (replicate 512 0)] ''a'') =
      Some (\<lparr> rx_magic = MP_SESSION_RECV_MAGIC, rx_transmission_unit = 8,
        session_state = zero_state \<rparr>, replicate 512 0)"
    by (simp add: rx_session_load_saved rx_total_size_def sizeof_mp_header_meta_def)
qed (simp_all add: require_session_file_def reads_progress_def)

text \<open>C22: Whatever the frames hold, if receiving them has an outcome, the session \<open>rx\<close> saves
  afterwards is one that loads again, with the same slice state and assembly buffer, and the
  transmission unit is the one the session had.\<close>

theorem rx_session_stays_loadable:
  assumes "mp_session_rx_load file0 = Some (s, buf)"
    and "feed_frames (rx_stream (rx_transmission_unit s))
      \<lparr> ctx_session = s, assembly = buf, rx_out = out \<rparr> frames = Inr w'"
  shows "mp_session_rx_load (Some (mp_session_rx_save (ctx_session w') (assembly w'))) =
      Some (ctx_session w', assembly w') \<and>
    rx_transmission_unit (ctx_session w') = rx_transmission_unit s"
  using loaded_session_kept [OF assms] by simp

theorem rx_session_stays_loadable_witness:
  "\<exists>w'. feed_frames (rx_stream 8)
      \<lparr> ctx_session = \<lparr> rx_magic = MP_SESSION_RECV_MAGIC, rx_transmission_unit = 8,
          session_state = zero_state \<rparr>, assembly = replicate 512 0,
        rx_out = \<lparr> out_bytes = [], out_writes = [] \<rparr> \<rparr> [slice_frame 4 2 9 0 [1, 2, 3] 0] = Inr w' \<and>
    mp_session_rx_load (Some (mp_session_rx_save (ctx_session w') (assembly w'))) =
      Some (ctx_session w', assembly w') \<and>
    rx_transmission_unit (ctx_session w') = 8"
proof -
  let ?s = "\<lparr> rx_magic = MP_SESSION_RECV_MAGIC, rx_transmission_unit = 8, session_state = zero_state \<rparr>"
  let ?w = "\<lparr> ctx_session = ?s, assembly = replicate 512 0, rx_out = \<lparr> out_bytes = [], out_writes = [] \<rparr> \<rparr>"
  have ok: "package_ok (8 - 4) 0 (length [1 :: u8, 2, 3])" and wire: "wire_ok (8 - 4) 2"
    by (simp_all add: package_ok_def wire_ok_def)
  have idle: "rx_idle 512 8 [] ?w" by (simp add: rx_idle_def rx_ok_def)
  have fs: "list_all2 (carries_slice (8 - 4) 2 9 0 [1, 2, 3]) ([] @ [0]) [slice_frame 4 2 9 0 [1, 2, 3] 0]"
    using slice_frame_carries(1) [OF ok order_refl wire, of 9] by simp
  have ids: "set [] \<union> {0} = {..0 :: nat}" "set [] \<noteq> {..0 :: nat}" by auto
  have cap: "length [1 :: u8, 2, 3] \<le> 512" by simp
  obtain w' where w': "feed_frames (rx_stream 8) ?w [slice_frame 4 2 9 0 [1, 2, 3] 0] = Inr w'"
    using rx_package.feed_package [OF fs ids rx_idle_at [OF idle ok wire cap]] by blast
  have load: "mp_session_rx_load (Some (mp_session_rx_save ?s (replicate 512 0))) = Some (?s, replicate 512 0)"
    by (simp add: rx_session_load_saved rx_total_size_def sizeof_mp_header_meta_def)
  have feed: "feed_frames (rx_stream (rx_transmission_unit ?s)) ?w [slice_frame 4 2 9 0 [1, 2, 3] 0] = Inr w'"
    using w' by simp
  show ?thesis
    using rx_session_stays_loadable [OF load feed] w' by (intro exI [of _ w']) simp
qed

text \<open>C21: A receiver session can be resumed at any block: running \<open>rx\<close> on one part of the input and
  then on the rest, with the session file in between, does the same as one run on the whole input,
  for any blocks at all, with the same session file and output in the end and the same fault if
  there is one.\<close>

theorem rx_resumes:
  assumes "require_session_file opts = Some path" and "mp_session_rx_load (fs path) = Some (s, buf)"
    and "rx_transmission_unit s \<noteq> 0"
    and "unat (rx_transmission_unit s) dvd length (in_bytes inp1)"
    and "in_bytes inp = in_bytes inp1 @ in_bytes inp2"
    and "reads_progress inp" and "reads_progress inp1" and "reads_progress inp2"
  shows "bindE (cmd_rx opts fs inp1 out) (\<lambda>(c1, fs1, i1, out1).
      bindE (cmd_rx opts fs1 inp2 out1) (\<lambda>(c2, fs2, i2, out2). Inr (c2, fs2, out2))) =
    bindE (cmd_rx opts fs inp out) (\<lambda>(c2, fs2, i2, out2). Inr (c2, fs2, out2))"
proof -
  let ?tu = "rx_transmission_unit s"
  let ?w = "\<lparr> ctx_session = s, assembly = buf, rx_out = out \<rparr>"
  let ?fs1 = "full_slices (unat ?tu) (in_bytes inp1)" and ?fs2 = "full_slices (unat ?tu) (in_bytes inp2)"
  have "0 < unat ?tu" using assms(3) by (simp add: unat_gt_0)
  then have split: "full_slices (unat ?tu) (in_bytes inp) = ?fs1 @ ?fs2"
    using assms(4) by (simp add: assms(5) full_slices_append)
  obtain i where whole: "cmd_rx opts fs inp out =
      bindE (feed_frames (rx_stream ?tu) ?w (?fs1 @ ?fs2)) (\<lambda>w'.
        Inr (0, fs(path \<mapsto> mp_session_rx_save (ctx_session w') (assembly w')), i, rx_out w'))"
    using cmd_rx_frames [where fs = fs and path = path, OF assms(1,2,3,6), of out] split by auto
  obtain i1 where first: "cmd_rx opts fs inp1 out =
      bindE (feed_frames (rx_stream ?tu) ?w ?fs1) (\<lambda>w'.
        Inr (0, fs(path \<mapsto> mp_session_rx_save (ctx_session w') (assembly w')), i1, rx_out w'))"
    using cmd_rx_frames [where fs = fs and path = path, OF assms(1,2,3,7), of out] by auto
  show ?thesis
  proof (cases "feed_frames (rx_stream ?tu) ?w ?fs1")
    case (Inl e)
    then show ?thesis using whole first by (simp add: feed_frames_def foldE_append)
  next
    case (Inr w1)
    note kept = loaded_session_kept [OF assms(2) Inr]
    have again: "mp_session_rx_load ((fs(path \<mapsto> mp_session_rx_save (ctx_session w1) (assembly w1))) path) =
        Some (ctx_session w1, assembly w1)"
      using kept(1) by simp
    have eta: "\<lparr> ctx_session = ctx_session w1, assembly = assembly w1, rx_out = rx_out w1 \<rparr> = w1"
      by simp
    have unit: "rx_transmission_unit (ctx_session w1) \<noteq> 0" using kept(2) assms(3) by simp
    have "\<exists>i2. cmd_rx opts (fs(path \<mapsto> mp_session_rx_save (ctx_session w1) (assembly w1))) inp2 (rx_out w1) =
        bindE (feed_frames (rx_stream ?tu) w1 ?fs2) (\<lambda>w'.
          Inr (0, fs(path \<mapsto> mp_session_rx_save (ctx_session w') (assembly w')), i2, rx_out w'))"
      using cmd_rx_frames [where fs = "fs(path \<mapsto> mp_session_rx_save (ctx_session w1) (assembly w1))"
          and path = path, OF assms(1) again unit assms(8), of "rx_out w1"] kept(2) by (simp add: eta)
    then show ?thesis
      using whole first Inr by (auto simp: feed_frames_def foldE_append bindE_assoc)
  qed
qed

theorem rx_resumes_witness:
  "bindE (cmd_rx [(CHR ''s'', ''a'')]
      [''a'' \<mapsto> mp_session_rx_save \<lparr> rx_magic = MP_SESSION_RECV_MAGIC,
        rx_transmission_unit = 8, session_state = zero_state \<rparr> (replicate 512 0)]
      \<lparr> in_bytes = [9, 1, 8, 0x20, 5, 6, 0, 0], in_reads = [] \<rparr> \<lparr> out_bytes = [], out_writes = [] \<rparr>)
    (\<lambda>(c1, fs1, i1, out1).
      bindE (cmd_rx [(CHR ''s'', ''a'')] fs1 \<lparr> in_bytes = [9, 0, 0, 0x40, 1, 2, 3, 4], in_reads = [Some 3] \<rparr> out1)
        (\<lambda>(c2, fs2, i2, out2). Inr (c2, fs2, out2))) =
    bindE (cmd_rx [(CHR ''s'', ''a'')]
      [''a'' \<mapsto> mp_session_rx_save \<lparr> rx_magic = MP_SESSION_RECV_MAGIC,
        rx_transmission_unit = 8, session_state = zero_state \<rparr> (replicate 512 0)]
      \<lparr> in_bytes = [9, 1, 8, 0x20, 5, 6, 0, 0] @ [9, 0, 0, 0x40, 1, 2, 3, 4], in_reads = [Some 11] \<rparr>
      \<lparr> out_bytes = [], out_writes = [] \<rparr>)
      (\<lambda>(c2, fs2, i2, out2). Inr (c2, fs2, out2))"
proof (rule rx_resumes [where path = "''a''" and buf = "replicate 512 0" and s = "\<lparr> rx_magic =
      MP_SESSION_RECV_MAGIC, rx_transmission_unit = 8, session_state = zero_state \<rparr>"])
  show "mp_session_rx_load ([''a'' \<mapsto> mp_session_rx_save \<lparr> rx_magic = MP_SESSION_RECV_MAGIC,
        rx_transmission_unit = 8, session_state = zero_state \<rparr> (replicate 512 0)] ''a'') =
      Some (\<lparr> rx_magic = MP_SESSION_RECV_MAGIC, rx_transmission_unit = 8,
        session_state = zero_state \<rparr>, replicate 512 0)"
    by (simp add: rx_session_load_saved rx_total_size_def sizeof_mp_header_meta_def)
  show "unat (rx_transmission_unit \<lparr> rx_magic = MP_SESSION_RECV_MAGIC, rx_transmission_unit = 8,
        session_state = zero_state \<rparr>) dvd
      length (in_bytes \<lparr> in_bytes = [9, 1, 8, 0x20, 5, 6, 0, 0], in_reads = [] \<rparr>)"
    by (simp, presburger)
qed (simp_all add: require_session_file_def reads_progress_def)

end
