(* ===== verification/Tools_Main.thy ===== *)
theory Tools_Main
  imports Tools_Tx Tools_Rx
begin

text \<open>
  \<^bold>\<open>src/tools/main.c\<close>, the function \<open>main\<close>: the choice of the subcommand.
  \<open>getopt_long\<close> is a parameter, the answers it gives for a table of options, named by its
  string of short options, and an argument vector.
\<close>

type_synonym getopt = "string \<Rightarrow> string list \<Rightarrow> opt list"

definition main ::
    "getopt \<Rightarrow> string list \<Rightarrow> files \<Rightarrow> in_fd \<Rightarrow> out_fd \<Rightarrow> (int \<times> files \<times> in_fd \<times> out_fd) res" where
  "main getopt_long argv fs inp out =
     (if length argv < 2 then Inr (1, fs, inp, out)
      else
        let subcommand = argv ! 1; args = drop 1 argv
        in if subcommand = ''config'' then
             (case cmd_config (getopt_long ''m:t:h'' args) out of
                (code, out') \<Rightarrow> Inr (code, fs, inp, out'))
           else if subcommand = ''tx'' then cmd_tx (getopt_long ''s:b:S:h'' args) fs inp out
           else if subcommand = ''rx'' then cmd_rx (getopt_long ''s:h'' args) fs inp out
           else if subcommand = ''-h'' \<or> subcommand = ''--help'' then Inr (0, fs, inp, out)
           else Inr (1, fs, inp, out))"

text \<open>The two uses of \<open>config\<close> that the pipeline starts from.\<close>

definition config_args :: "string \<Rightarrow> string \<Rightarrow> opt list" where
  "config_args mtu kind = [(CHR ''m'', mtu), (CHR ''t'', kind)]"

lemma config_tx:
  assumes "7 \<le> atoi mtu" and "atoi mtu \<le> 65535" and "out_writes out = []"
  shows "\<exists>out' file. cmd_config (config_args mtu ''tx'') out = (0, out') \<and>
    out_bytes out' = out_bytes out @ file \<and>
    mp_session_tx_load (Some file) = Some \<lparr> tx_magic = MP_SESSION_SEND_MAGIC,
      tx_transmission_unit = of_int (atoi mtu),
      session_coord = \<lparr> coord_sender_id = 0, coord_package_id = 0, coord_offset = 0 \<rparr> \<rparr>"
  using tx_session_create_load [of out "of_int (atoi mtu)"] assms
  by (auto simp: cmd_config_def config_args_def sizeof_mp_header_meta_def)

lemma config_rx:
  assumes "7 \<le> atoi mtu" and "atoi mtu \<le> 65535" and "out_writes out = []"
  shows "\<exists>out' file. cmd_config (config_args mtu ''rx'') out = (0, out') \<and>
    out_bytes out' = out_bytes out @ file \<and>
    mp_session_rx_load (Some file) = Some (\<lparr> rx_magic = MP_SESSION_RECV_MAGIC,
      rx_transmission_unit = of_int (atoi mtu), session_state = zero_state \<rparr>,
      replicate (256 * unat (of_int (atoi mtu) - 6 :: u16)) 0)"
  using rx_session_create_load [of out "of_int (atoi mtu)"] assms
  by (auto simp: cmd_config_def config_args_def sizeof_mp_header_meta_def)

end
