(* ===== verification/Embedded_Decode.thy ===== *)
theory Embedded_Decode
  imports Stream_Rx
begin

text \<open>
  \<^bold>\<open>src/embedded/customdata-embedded-decode.h\<close> and \<^bold>\<open>.c\<close>: a receiving stream
  with one slice state, the user's payload memory, and the decoding of a complete package by
  nanopb, which pulls the bytes slice by slice out of the payload memory. The user's callbacks
  work on a state \<open>'u\<close>, the message struct is \<open>'m\<close>.

  nanopb is a parameter: \<open>pb_decode\<close> gives, for the fields, the length of the input and the
  message struct, the program of its calls of the stream's callback.
\<close>

section \<open>The pull stream\<close>

record mp_pb_slice_pull =
  base_coord :: mp_coordinate
  pull_termination :: u32
  pull_max_payload :: u16
  consumed :: u32

text \<open>
  The pointer \<open>buf\<close>: it is NULL, or points into the caller's buffer, whose \<open>count\<close> bytes the rounds
  fill one after the other, or it is NULL with something added to it, which points nowhere. The
  code tests \<open>buf\<close> in front of \<open>memcpy\<close> but advances it in any case, so that the test takes a
  NULL pointer of an earlier round for a buffer: \<open>memcpy\<close> then writes to no object of the program.
\<close>

datatype pull_buf = Null_Buf | To_Buf | Wild_Buf

definition advance_buf :: "pull_buf \<Rightarrow> u32 \<Rightarrow> pull_buf" where
  "advance_buf buf n = (if buf = Null_Buf \<and> n \<noteq> 0 then Wild_Buf else buf)"

definition copy_to_buf :: "pull_buf \<Rightarrow> u8 list \<Rightarrow> nat \<Rightarrow> nat \<Rightarrow> u8 list res" where
  "copy_to_buf buf src pos n =
     (case buf of Null_Buf \<Rightarrow> Inr [] | To_Buf \<Rightarrow> mem_read src pos n | Wild_Buf \<Rightarrow> Inl Out_Of_Bounds)"

text \<open>
  One call of the callback; the result is what was copied into the buffer. A round that takes no
  byte and does not reach the end would be repeated for ever.
\<close>

function mp_pb_slice_pull_callback ::
    "'w mp_rx_coordinator \<Rightarrow> 'w \<Rightarrow> mp_pb_slice_pull \<Rightarrow> pull_buf \<Rightarrow> nat \<Rightarrow>
      (u8 list \<times> mp_pb_slice_pull) res" where
  "mp_pb_slice_pull_callback ops w st buf cnt =
     (if cnt = 0 then Inr ([], st)
      else
        bindE (mp_offset_to_slice_idx (ucast (consumed st)) (pull_max_payload st)) (\<lambda>slice_idx.
        let slice_off = (ucast (mp_slice_idx_to_offset slice_idx (pull_max_payload st)) :: u32);
            src = payload_get ops w
              \<lparr> coord_sender_id = coord_sender_id (base_coord st),
                coord_package_id = coord_package_id (base_coord st),
                coord_offset = ucast slice_off \<rparr>;
            pos_in_slice = consumed st - slice_off;
            avail = pull_termination st - consumed st;
            chunk0 = ucast (pull_max_payload st) - pos_in_slice;
            chunk = (if chunk0 > avail then avail else chunk0);
            n = (if (of_nat cnt :: u32) < chunk then of_nat cnt else chunk);
            st' = st\<lparr> consumed := consumed st + n \<rparr>
        in
          bindE (copy_to_buf buf src (unat pos_in_slice) (unat n)) (\<lambda>bs.
            if consumed st' \<ge> pull_termination st then Inr (bs, st')
            else if n = 0 then Inl Diverges
            else
              bindE (mp_pb_slice_pull_callback ops w st' (advance_buf buf n) (cnt - unat n)) (\<lambda>(bs', st'').
                Inr (bs @ bs', st'')))))"
  by pat_completeness auto
termination
  by (relation "measure (\<lambda>(ops, w, st, buf, cnt). cnt)") (auto simp: unat_gt_0 Let_def)

declare mp_pb_slice_pull_callback.simps [simp del]

text \<open>The stream given to nanopb: its state, and \<open>bytes_left\<close>.\<close>

definition mp_pb_slice_istream_init ::
    "mp_coordinate \<Rightarrow> u32 \<Rightarrow> u16 \<Rightarrow> mp_pb_slice_pull \<times> nat" where
  "mp_pb_slice_istream_init coord term max_payload =
     (\<lparr> base_coord = coord, pull_termination = term, pull_max_payload = max_payload,
        consumed = 0 \<rparr>, unat term)"

text \<open>
  What nanopb does with the stream: it ends with a result and the message struct, or calls the
  callback, with or without a buffer, for a number of bytes and goes on with what it got.
\<close>

datatype 'm pull_prog = Decoded bool 'm | Pull bool nat "u8 list \<Rightarrow> 'm pull_prog"

type_synonym ('f, 'm) pb_decode = "'f \<Rightarrow> nat \<Rightarrow> 'm \<Rightarrow> 'm pull_prog"

primrec run_pull ::
    "'w mp_rx_coordinator \<Rightarrow> 'w \<Rightarrow> 'm pull_prog \<Rightarrow> mp_pb_slice_pull \<Rightarrow> (bool \<times> 'm) res" where
  "run_pull ops w (Decoded ok m) st = Inr (ok, m)"
| "run_pull ops w (Pull buf n f) st =
     bindE (mp_pb_slice_pull_callback ops w st (if buf then To_Buf else Null_Buf) n)
       (\<lambda>(bs, st'). run_pull ops w (f bs) st')"

section \<open>The decoder\<close>

text \<open>
  The constant part of \<open>mp_pb_decoder_inst_t\<close> with its \<open>mp_pb_output_config_t\<close>, and
  the memory the decoder works on: the rest of the instance, the message struct, and the
  user's own state.
\<close>

record ('f, 'm, 'u) mp_pb_decoder_inst =
  dec_config :: mp_config
  output_fields :: 'f
  on_message :: "'m \<Rightarrow> 'u \<Rightarrow> ('m \<times> 'u) res"

record ('m, 'u) dec_world =
  dec_state :: mp_rx_slice_state
  last_decode_ok :: bool
  dec_msg :: 'm
  dec_user :: 'u

definition mp_pb_state_get :: "('m, 'u) dec_world \<Rightarrow> mp_coordinate \<Rightarrow> mp_rx_slice_state" where
  "mp_pb_state_get w coord = dec_state w"

definition mp_pb_state_put ::
    "('m, 'u) dec_world \<Rightarrow> mp_coordinate \<Rightarrow> mp_rx_slice_state \<Rightarrow> ('m, 'u) dec_world" where
  "mp_pb_state_put w coord state = w\<lparr> dec_state := state \<rparr>"

definition mp_pb_on_event ::
    "('f, 'm) pb_decode \<Rightarrow> ('f, 'm, 'u) mp_pb_decoder_inst \<Rightarrow> ('m, 'u) dec_world mp_rx_event_cb" where
  "mp_pb_on_event pb_decode inst w e coord ops state old_watermark payload payload_size =
     bindE (if payload_size > 0 then payload_put ops w coord payload payload_size else Inr w) (\<lambda>w1.
       if e \<noteq> MP_RX_STREAM_COMPLETE then Inr w1
       else
         case mp_pb_slice_istream_init coord (ucast (termination_at state))
             (mp_max_payload (dec_config inst)) of (pull_st, bytes_left) \<Rightarrow>
         bindE (run_pull ops w1 (pb_decode (output_fields inst) bytes_left (dec_msg w1)) pull_st)
           (\<lambda>(ok, msg).
            if ok then
              bindE (on_message inst msg (dec_user w1)) (\<lambda>(msg', user).
                Inr (w1\<lparr> dec_msg := msg', dec_user := user, last_decode_ok := True \<rparr>))
            else Inr (w1\<lparr> dec_msg := msg, last_decode_ok := False \<rparr>)))"

type_synonym 'u payload_setter = "'u \<Rightarrow> mp_coordinate \<Rightarrow> u8 list \<Rightarrow> u16 \<Rightarrow> 'u res"
type_synonym 'u payload_getter = "'u \<Rightarrow> mp_coordinate \<Rightarrow> u8 list"

text \<open>The coordinator that \<open>mp_pb_decode_init\<close> puts into the stream.\<close>

definition dec_coordinator ::
    "'u payload_setter \<Rightarrow> 'u payload_getter \<Rightarrow> ('m, 'u) dec_world mp_rx_coordinator" where
  "dec_coordinator put get =
     \<lparr> state_get = mp_pb_state_get, state_put = mp_pb_state_put,
       payload_put = (\<lambda>w c d n. bindE (put (dec_user w) c d n) (\<lambda>u. Inr (w\<lparr> dec_user := u \<rparr>))),
       payload_get = (\<lambda>w. get (dec_user w)) \<rparr>"

definition mp_pb_decode_init ::
    "('f, 'm) pb_decode \<Rightarrow> ('f, 'm, 'u) mp_pb_decoder_inst \<Rightarrow> 'u payload_setter \<Rightarrow> 'u payload_getter \<Rightarrow>
      ('m, 'u) dec_world \<Rightarrow> ('m, 'u) dec_world mp_rx_stream \<times> ('m, 'u) dec_world" where
  "mp_pb_decode_init pb_decode inst put get w =
     (\<lparr> rx_config = dec_config inst, coordinator = dec_coordinator put get,
        on_event = mp_pb_on_event pb_decode inst \<rparr>,
      w\<lparr> dec_state := zero_state, last_decode_ok := True \<rparr>)"

definition mp_pb_decode_feed ::
    "('m, 'u) dec_world mp_rx_stream \<Rightarrow> ('m, 'u) dec_world \<Rightarrow> u8 list \<Rightarrow> u16 \<Rightarrow>
      (bool \<times> ('m, 'u) dec_world) res" where
  "mp_pb_decode_feed stream w block sz =
     bindE (mp_rx_stream_feed stream w block sz) (\<lambda>w'. Inr (last_decode_ok w', w'))"

text \<open>Frames fed one after the other, with what each call returned.\<close>

fun decode_frames ::
    "('m, 'u) dec_world mp_rx_stream \<Rightarrow> ('m, 'u) dec_world \<Rightarrow> u8 list list \<Rightarrow>
      (bool list \<times> ('m, 'u) dec_world) res" where
  "decode_frames stream w [] = Inr ([], w)"
| "decode_frames stream w (f # fs) =
     bindE (mp_pb_decode_feed stream w f (of_nat (length f))) (\<lambda>(ok, w1).
       bindE (decode_frames stream w1 fs) (\<lambda>(oks, w'). Inr (ok # oks, w')))"

section \<open>Pulling a package out of its slices\<close>

text \<open>
  The reference: nanopb on a plain buffer. nanopb never asks for more bytes than are left
  (\<open>pb_read\<close> refuses to), and every pull is into a buffer: bytes it has no use for it reads into
  one of its own.
\<close>

primrec run_bytes :: "'m pull_prog \<Rightarrow> u8 list \<Rightarrow> bool \<times> 'm" where
  "run_bytes (Decoded ok m) bs = (ok, m)"
| "run_bytes (Pull buf n f) bs = run_bytes (f (if buf then take n bs else [])) (drop n bs)"

primrec pulls_within :: "'m pull_prog \<Rightarrow> u8 list \<Rightarrow> bool" where
  "pulls_within (Decoded ok m) bs = True"
| "pulls_within (Pull buf n f) bs =
     (buf \<and> n \<le> length bs \<and> pulls_within (f (take n bs)) (drop n bs))"

definition pull_at :: "u8 \<Rightarrow> u8 \<Rightarrow> u16 \<Rightarrow> nat \<Rightarrow> nat \<Rightarrow> mp_pb_slice_pull \<Rightarrow> bool" where
  "pull_at sender package mp L c st \<longleftrightarrow>
     coord_sender_id (base_coord st) = sender \<and> coord_package_id (base_coord st) = package \<and>
     pull_termination st = of_nat L \<and> pull_max_payload st = mp \<and> consumed st = of_nat c \<and> c \<le> L"

lemma unat_u32_of_nat: "n < 4294967296 \<Longrightarrow> unat (of_nat n :: u32) = n"
  by (simp add: unat_of_nat take_bit_eq_mod)

text \<open>One round of the callback inside a package.\<close>

lemma pull_slice:
  assumes ok: "package_ok mp k L" and c: "c < L"
  shows "c div unat mp \<le> k"
    and "mp_offset_to_slice_idx (ucast (of_nat c :: u32)) mp = Inr (of_nat (c div unat mp))"
    and "(ucast (mp_slice_idx_to_offset (of_nat (c div unat mp)) mp) :: u32) =
      of_nat (c div unat mp * unat mp)"
    and "of_nat c - of_nat (c div unat mp * unat mp) = (of_nat (c mod unat mp) :: u32)"
    and "c mod unat mp + min (unat mp - c mod unat mp) (L - c) \<le>
      unat (slice_len mp k L (c div unat mp))"
    and "0 < min (unat mp - c mod unat mp) (L - c)"
proof -
  note okD = package_okD [OF ok]
  let ?i = "c div unat mp"
  show ik: "?i \<le> k" by (rule slice_position(1) [OF ok c])
  have le: "?i * unat mp \<le> c" by simp
  have small: "c < 65536" using c okD(11) by linarith
  have c16: "unat (ucast (of_nat c :: u32) :: u16) = c"
    using small by (simp add: unat_u32_to_u16 unat_u32_of_nat)
  have "(ucast (ucast (of_nat c :: u32) div mp) :: u8) = of_nat ?i"
    using ik okD(3) by (simp add: word_unat_eq_iff unat_slice_idx c16 unat_u8_of_nat)
  then show "mp_offset_to_slice_idx (ucast (of_nat c :: u32)) mp = Inr (of_nat ?i)"
    using okD(1) by (simp add: offset_to_slice_idx_Inr)
  have "unat (of_nat (?i * unat mp) :: u32) = ?i * unat mp"
    using le small by (intro unat_u32_of_nat) linarith
  then show "(ucast (mp_slice_idx_to_offset (of_nat ?i) mp) :: u32) = of_nat (?i * unat mp)"
    using slice_offset_package(1) [OF ok ik] by (simp add: word_unat_eq_iff del: of_nat_mult)
  show "of_nat c - of_nat (?i * unat mp) = (of_nat (c mod unat mp) :: u32)"
    using le by (simp add: minus_div_mult_eq_mod flip: of_nat_diff del: of_nat_mult)
  have lt: "c mod unat mp < unat mp" using okD(2) by simp
  then show "0 < min (unat mp - c mod unat mp) (L - c)" using c by simp
  show "c mod unat mp + min (unat mp - c mod unat mp) (L - c) \<le> unat (slice_len mp k L ?i)"
    by (rule slice_position(2) [OF ok c])
qed

lemma pull_round:
  assumes ok: "package_ok mp k L" and c: "c < L" and st: "pull_at sender package mp L c st"
    and cnt: "0 < cnt" "cnt < 4294967296"
    and n: "n = min cnt (min (unat mp - c mod unat mp) (L - c))"
  shows "mp_pb_slice_pull_callback ops w st buf cnt =
    bindE (copy_to_buf buf (payload_get ops w (slice_coord sender package mp (c div unat mp)))
        (c mod unat mp) n) (\<lambda>bs.
      if L \<le> c + n then Inr (bs, st\<lparr> consumed := of_nat (c + n) \<rparr>)
      else bindE (mp_pb_slice_pull_callback ops w (st\<lparr> consumed := of_nat (c + n) \<rparr>)
          (if buf = Null_Buf then Wild_Buf else buf) (cnt - n))
        (\<lambda>(bs', st''). Inr (bs @ bs', st'')))"
proof -
  let ?i = "c div unat mp" and ?p = "c mod unat mp"
  note okD = package_okD [OF ok] and s = pull_slice [OF ok c]
  note stD = st [unfolded pull_at_def]
  have lt: "?p < unat mp" "unat mp < 65536" "L < 65536" using okD(2,11) by simp_all
  have chunk: "(ucast mp :: u32) - of_nat ?p = of_nat (unat mp - ?p)"
      "(of_nat L :: u32) - of_nat c = of_nat (L - c)"
    using lt(1) c by (simp_all add: of_nat_diff)
  have small: "unat (of_nat (unat mp - ?p) :: u32) = unat mp - ?p"
      "unat (of_nat (L - c) :: u32) = L - c" "unat (of_nat cnt :: u32) = cnt"
      "unat (of_nat (c + n) :: u32) = c + n" "unat (of_nat ?p :: u32) = ?p" "unat (of_nat n :: u32) = n"
      "unat (of_nat L :: u32) = L"
    using lt c cnt n by (intro unat_u32_of_nat; linarith)+
  have take_n: "(if (of_nat cnt :: u32) <
        (if (of_nat (unat mp - ?p) :: u32) > of_nat (L - c) then of_nat (L - c) else of_nat (unat mp - ?p))
      then of_nat cnt
      else if (of_nat (unat mp - ?p) :: u32) > of_nat (L - c) then of_nat (L - c)
        else of_nat (unat mp - ?p)) = (of_nat n :: u32)"
    by (simp add: word_less_nat_alt small n min_def del: of_nat_diff)
  have off: "(ucast (of_nat (?i * unat mp) :: u32) :: u16) = of_nat (?i * unat mp)"
    using slice_offset_package(2) [OF ok s(1)]
    by (simp add: u16_eq_iff unat_u32_to_u16 unat_u32_of_nat unat_u16_of_nat del: of_nat_mult)
  have pos: "(of_nat n :: u32) \<noteq> 0"
    using small(6) s(6) cnt(1) n by (metis min_less_iff_conj neq0_conv unat_0)
  have nonzero: "(cnt = 0) = False" using cnt(1) by simp
  have upd: "consumed (st\<lparr> consumed := x \<rparr>) = x" for x by simp
  have "mp_pb_slice_pull_callback ops w st buf cnt =
      bindE (copy_to_buf buf (payload_get ops w \<lparr> coord_sender_id = sender,
          coord_package_id = package, coord_offset = of_nat (?i * unat mp) \<rparr>) ?p n) (\<lambda>bs.
        if (of_nat L :: u32) \<le> of_nat (c + n) then Inr (bs, st\<lparr> consumed := of_nat (c + n) \<rparr>)
        else if (of_nat n :: u32) = 0 then Inl Diverges
        else bindE (mp_pb_slice_pull_callback ops w (st\<lparr> consumed := of_nat (c + n) \<rparr>)
            (advance_buf buf (of_nat n)) (cnt - n))
          (\<lambda>(bs', st''). Inr (bs @ bs', st'')))"
    using stD
    by (subst mp_pb_slice_pull_callback.simps)
      (simp only: s(2,3,4) bindE_Inr Let_def chunk take_n off small of_nat_add nonzero if_False upd)
  then show ?thesis
    by (simp only: pos if_False word_le_nat_alt small slice_coord_def advance_buf_def
        not_False_eq_True simp_thms)
qed

text \<open>Any store that holds the slices of a package gives its bytes to the puller, in order.\<close>

context rx_payload_store
begin

lemma pull_read:
  assumes ok: "package_ok mp k (length bytes)" and c: "c < length bytes"
    and asm: "assembled sender package mp k bytes {..k} w"
    and n: "n \<le> min (unat mp - c mod unat mp) (length bytes - c)"
  shows "mem_read (payload_get coord_ops w (slice_coord sender package mp (c div unat mp)))
    (c mod unat mp) n = Inr (take n (drop c bytes))"
proof -
  let ?i = "c div unat mp" and ?p = "c mod unat mp"
  let ?src = "payload_get coord_ops w (slice_coord sender package mp ?i)"
  let ?l = "unat (slice_len mp k (length bytes) ?i)"
  note s = pull_slice [OF ok c]
  have src: "take ?l ?src = slice_bytes mp k bytes ?i"
    using asm s(1) by (simp add: assembled_def)
  have fits: "?p + n \<le> ?l" using n s(5) by linarith
  moreover have "?l \<le> length ?src"
    using length_slice_bytes(1) [OF ok s(1)] src by (metis length_take min.cobounded1)
  moreover have "take n (drop ?p ?src) = take n (drop ?p (take ?l ?src))"
    using fits by (simp add: drop_take)
  moreover have "take n (drop ?p (slice_bytes mp k bytes ?i)) = take n (drop c bytes)"
    using fits by (simp add: slice_bytes_def drop_take add.commute [of ?p])
  ultimately show ?thesis using src by simp
qed

lemma pull_bytes:
  assumes ok: "package_ok mp k (length bytes)" and asm: "assembled sender package mp k bytes {..k} w"
    and "pull_at sender package mp (length bytes) c st" and "c + cnt \<le> length bytes"
  shows "mp_pb_slice_pull_callback coord_ops w st To_Buf cnt =
    Inr (take cnt (drop c bytes), st\<lparr> consumed := of_nat (c + cnt) \<rparr>)"
  using assms(3,4)
proof (induction cnt arbitrary: c st rule: less_induct)
  case (less cnt)
  show ?case
  proof (cases "cnt = 0")
    case True
    then show ?thesis
      using less.prems(1) by (subst mp_pb_slice_pull_callback.simps) (simp add: pull_at_def)
  next
    case False
    define n where "n = min cnt (min (unat mp - c mod unat mp) (length bytes - c))"
    let ?st = "st\<lparr> consumed := of_nat (c + n) \<rparr>"
    have c: "c < length bytes" "length bytes < 65536"
      using less.prems(2) False package_okD(11) [OF ok] by simp_all
    have n: "n \<le> cnt" "0 < n" using pull_slice(6) [OF ok c(1)] False by (simp_all add: n_def)
    have at: "pull_at sender package mp (length bytes) (c + n) ?st"
      using less.prems n by (simp add: pull_at_def)
    have read: "mem_read (payload_get coord_ops w (slice_coord sender package mp (c div unat mp)))
        (c mod unat mp) n = Inr (take n (drop c bytes))"
      by (rule pull_read [OF ok c(1) asm]) (simp only: n_def min.cobounded2)
    have rest: "mp_pb_slice_pull_callback coord_ops w ?st To_Buf (cnt - n) =
        Inr (take (cnt - n) (drop (c + n) bytes), st\<lparr> consumed := of_nat (c + cnt) \<rparr>)" if "cnt - n < cnt"
      using less.IH [OF that at] less.prems(2) n
      by (simp add: of_nat_diff del: of_nat_add flip: of_nat_add)
    have join: "take n (drop c bytes) @ take (cnt - n) (drop (c + n) bytes) = take cnt (drop c bytes)"
      using n(1) take_add [of n "cnt - n" "drop c bytes"] by (simp add: add.commute)
    have last: "cnt = n" if "length bytes \<le> c + n" using that less.prems(2) n(1) by simp
    note round = pull_round [OF ok c(1) less.prems(1) _ _ n_def, of coord_ops w To_Buf]
    show ?thesis
    proof (cases "length bytes \<le> c + n")
      case True
      then show ?thesis
        using round False less.prems(2) c(2) read last [OF True]
        by (auto simp: copy_to_buf_def simp del: of_nat_add)
    next
      case more: False
      then show ?thesis
        using round False less.prems(2) c(2) read rest join n
        by (auto simp: copy_to_buf_def simp del: of_nat_add)
    qed
  qed
qed

end

text \<open>
  A pull without a buffer skips its bytes as long as they lie in one slice; at the end of a slice the
  pointer is NULL no longer.
\<close>

lemma pull_nothing: "mp_pb_slice_pull_callback ops w st buf 0 = Inr ([], st)"
  by (subst mp_pb_slice_pull_callback.simps) simp

lemma pull_without_buffer:
  assumes ok: "package_ok mp k (length bytes)"
    and at: "pull_at sender package mp (length bytes) c st" and le: "c + cnt \<le> length bytes"
  shows "mp_pb_slice_pull_callback ops w st Null_Buf cnt =
    (if c mod unat mp + cnt \<le> unat mp then Inr ([], st\<lparr> consumed := of_nat (c + cnt) \<rparr>) else Inl Out_Of_Bounds)"
proof (cases "cnt = 0")
  case True
  then show ?thesis
    using at package_okD(2) [OF ok] by (simp add: pull_nothing pull_at_def less_imp_le)
next
  case False
  define n where "n = min cnt (min (unat mp - c mod unat mp) (length bytes - c))"
  have c: "c < length bytes" "length bytes < 65536" "c mod unat mp < unat mp"
    using le False package_okD(2,11) [OF ok] by simp_all
  have cnt: "0 < cnt" "cnt < 4294967296" using False le c(2) by simp_all
  note round = pull_round [OF ok c(1) at cnt n_def, of ops w Null_Buf]
  show ?thesis
  proof (cases "c mod unat mp + cnt \<le> unat mp")
    case True
    then have "n = cnt" using le by (simp add: n_def)
    then show ?thesis
      using round True by (simp add: copy_to_buf_def pull_nothing del: of_nat_add)
  next
    case more: False
    have n: "n = unat mp - c mod unat mp" "n < cnt" using more le c(3) by (simp_all add: n_def)
    have st: "pull_at sender package mp (length bytes) (c + n) (st\<lparr> consumed := of_nat (c + n) \<rparr>)"
      using at le n(2) by (simp add: pull_at_def)
    have further: "c + n < length bytes" "0 < cnt - n" "cnt - n < 4294967296" using le n(2) cnt by simp_all
    show ?thesis
      using round more further(1) pull_round [OF ok further(1) st further(2,3) refl, of ops w Wild_Buf]
      by (simp add: copy_to_buf_def)
  qed
qed

context rx_payload_store
begin

lemma run_pull_bytes:
  assumes ok: "package_ok mp k (length bytes)" and asm: "assembled sender package mp k bytes {..k} w"
  shows "pull_at sender package mp (length bytes) c st \<Longrightarrow> pulls_within p (drop c bytes) \<Longrightarrow>
    run_pull coord_ops w p st = Inr (run_bytes p (drop c bytes))"
proof (induction p arbitrary: c st)
  case (Pull buf n f)
  have n: "c + n \<le> length bytes" using Pull.prems by (auto simp: pull_at_def)
  then have "pull_at sender package mp (length bytes) (c + n) (st\<lparr> consumed := of_nat (c + n) \<rparr>)"
    using Pull.prems(1) by (simp add: pull_at_def)
  then show ?case
    using Pull.IH [OF rangeI] Pull.prems(2) pull_bytes [OF ok asm Pull.prems(1) n]
    by (simp add: add.commute del: of_nat_add)
qed simp

end

section \<open>The decoder keeps the contract of a coordinator\<close>

text \<open>
  What the user's payload callbacks have to do: keep what is put at an offset of a package,
  inside \<open>cap\<close> bytes, and leave the rest of the package alone. \<open>ok\<close> is an invariant of the
  user's state, and the message callback keeps it.
\<close>

definition payload_memory ::
    "'u payload_setter \<Rightarrow> 'u payload_getter \<Rightarrow> nat \<Rightarrow> ('u \<Rightarrow> bool) \<Rightarrow> bool" where
  "payload_memory put get cap ok \<longleftrightarrow>
     (\<forall>u c d n. ok u \<longrightarrow> unat n \<le> length d \<longrightarrow> unat (coord_offset c) + unat n \<le> cap \<longrightarrow>
        (\<exists>u'. put u c d n = Inr u' \<and> ok u' \<and> take (unat n) (get u' c) = take (unat n) d \<and>
          (\<forall>c' m. same_package c c' \<and> apart c (unat n) c' m \<longrightarrow>
            take m (get u' c') = take m (get u c'))))"

definition message_callback :: "('f, 'm, 'u) mp_pb_decoder_inst \<Rightarrow> ('u \<Rightarrow> bool) \<Rightarrow> bool" where
  "message_callback inst ok \<longleftrightarrow>
     (\<forall>m u. ok u \<longrightarrow> (\<exists>m' u'. on_message inst m u = Inr (m', u') \<and> ok u'))"

definition dec_ok ::
    "'u payload_setter \<Rightarrow> 'u payload_getter \<Rightarrow> nat \<Rightarrow> ('u \<Rightarrow> bool) \<Rightarrow> ('m, 'u) dec_world \<Rightarrow> bool" where
  "dec_ok put get cap ok w \<longleftrightarrow>
     payload_memory put get cap ok \<and> ok (dec_user w) \<and> bitmap_wf (dec_state w)"

lemma dec_coordinator_simps [simp]:
  "state_get (dec_coordinator put get) w c = dec_state w"
  "state_put (dec_coordinator put get) w c st = w\<lparr> dec_state := st \<rparr>"
  "payload_put (dec_coordinator put get) w c d n =
    bindE (put (dec_user w) c d n) (\<lambda>u. Inr (w\<lparr> dec_user := u \<rparr>))"
  "payload_get (dec_coordinator put get) w = get (dec_user w)"
  by (simp_all add: dec_coordinator_def mp_pb_state_get_def mp_pb_state_put_def)

interpretation dec: rx_payload_store "dec_coordinator put get" "dec_ok put get cap ok" cap
  for put get cap ok
proof (unfold_locales, goal_cases)
  case (4 w n d c)
  then obtain u where "put (dec_user w) c d n = Inr u" "ok u"
      "take (unat n) (get u c) = take (unat n) d"
      "\<forall>c' m. same_package c c' \<and> apart c (unat n) c' m \<longrightarrow>
        take m (get u c') = take m (get (dec_user w) c')"
    unfolding dec_ok_def payload_memory_def by blast
  then show ?case using 4 by (simp add: dec_ok_def fun_eq_iff)
qed (auto simp: dec_ok_def)

text \<open>
  In the middle of a package the decoder holds its slices and has touched neither the message
  nor the last result; between packages its state is empty. The user's state keeps \<open>ok\<close> until the
  message callback is called and \<open>ok'\<close> behind it.
\<close>

definition dec_stream ::
    "('f, 'm) pb_decode \<Rightarrow> ('f, 'm, 'u) mp_pb_decoder_inst \<Rightarrow> 'u payload_setter \<Rightarrow> 'u payload_getter \<Rightarrow>
      ('m, 'u) dec_world mp_rx_stream" where
  "dec_stream pb_decode inst put get =
     \<lparr> rx_config = dec_config inst, coordinator = dec_coordinator put get,
       on_event = mp_pb_on_event pb_decode inst \<rparr>"

definition dec_idle ::
    "'u payload_setter \<Rightarrow> 'u payload_getter \<Rightarrow> nat \<Rightarrow> ('u \<Rightarrow> bool) \<Rightarrow> ('m, 'u) dec_world \<Rightarrow> bool" where
  "dec_idle put get cap ok w \<longleftrightarrow> dec_ok put get cap ok w \<and> dec_state w = zero_state"

definition dec_at ::
    "('f, 'm) pb_decode \<Rightarrow> ('f, 'm, 'u) mp_pb_decoder_inst \<Rightarrow> 'u payload_setter \<Rightarrow> 'u payload_getter \<Rightarrow>
      nat \<Rightarrow> ('u \<Rightarrow> bool) \<Rightarrow> ('u \<Rightarrow> bool) \<Rightarrow> u8 \<Rightarrow> u8 \<Rightarrow> nat \<Rightarrow> u8 list \<Rightarrow> bool \<Rightarrow> 'm \<Rightarrow>
      nat set \<Rightarrow> ('m, 'u) dec_world \<Rightarrow> bool" where
  "dec_at pb_decode inst put get cap ok ok' sender package k bytes prev msg S w \<longleftrightarrow>
     package_ok (mp_max_payload (dec_config inst)) k (length bytes) \<and>
     wire_ok (mp_max_payload (dec_config inst)) sender \<and> length bytes \<le> cap \<and>
     payload_memory put get cap ok' \<and> (\<forall>u. ok u \<longrightarrow> ok' u) \<and> message_callback inst ok' \<and>
     pulls_within (pb_decode (output_fields inst) (length bytes) msg) bytes \<and>
     dec.assembled put get cap ok sender package (mp_max_payload (dec_config inst)) k bytes S w \<and>
     package_view (mp_max_payload (dec_config inst)) k (length bytes) S (dec_state w) \<and>
     last_decode_ok w = prev \<and> dec_msg w = msg"

text \<open>What has to hold when a package has been decoded.\<close>

definition dec_done ::
    "('f, 'm) pb_decode \<Rightarrow> ('f, 'm, 'u) mp_pb_decoder_inst \<Rightarrow> 'u payload_setter \<Rightarrow> 'u payload_getter \<Rightarrow>
      nat \<Rightarrow> ('u \<Rightarrow> bool) \<Rightarrow> ('u \<Rightarrow> bool) \<Rightarrow> u8 list \<Rightarrow> 'm \<Rightarrow> ('m, 'u) dec_world \<Rightarrow> bool" where
  "dec_done pb_decode inst put get cap ok ok' bytes msg w \<longleftrightarrow>
     dec_idle put get cap ok' w \<and>
     (case run_bytes (pb_decode (output_fields inst) (length bytes) msg) bytes of (r, m) \<Rightarrow>
        last_decode_ok w = r \<and>
        (if r then \<exists>u. ok u \<and> on_message inst m u = Inr (dec_msg w, dec_user w)
         else dec_msg w = m \<and> ok (dec_user w)))"

lemma dec_stores:
  assumes at: "dec_at pb_decode inst put get cap ok ok' sender package k bytes prev msg S w"
    and i: "i \<le> k" and st: "bitmap_wf st"
    and d: "take (unat (slice_len (mp_max_payload (dec_config inst)) k (length bytes) i)) d =
      slice_bytes (mp_max_payload (dec_config inst)) k bytes i"
  defines "n \<equiv> slice_len (mp_max_payload (dec_config inst)) k (length bytes) i"
    and "c \<equiv> slice_coord sender package (mp_max_payload (dec_config inst)) i"
  shows "\<exists>w1. (if n > 0 then payload_put (dec_coordinator put get) (w\<lparr> dec_state := st \<rparr>) c d n
      else Inr (w\<lparr> dec_state := st \<rparr>)) = Inr w1 \<and>
    dec.assembled put get cap ok sender package (mp_max_payload (dec_config inst)) k bytes (insert i S) w1 \<and>
    dec_state w1 = st \<and> last_decode_ok w1 = prev \<and> dec_msg w1 = msg"
proof -
  note atD = at [unfolded dec_at_def]
  have sub: "S \<subseteq> {..k}" using atD by (simp add: package_view_def)
  have "dec.assembled put get cap ok sender package (mp_max_payload (dec_config inst)) k bytes S
      (state_put (dec_coordinator put get) w c st)"
    using atD by (intro dec.assembled_state_put st) simp
  then obtain w1 where w1:
      "(if n > 0 then payload_put (dec_coordinator put get) (w\<lparr> dec_state := st \<rparr>) c d n
        else Inr (w\<lparr> dec_state := st \<rparr>)) = Inr w1"
      "dec.assembled put get cap ok sender package (mp_max_payload (dec_config inst)) k bytes (insert i S) w1"
    using dec.assembled_put [OF _ _ sub i _ d] atD unfolding n_def c_def dec_coordinator_simps by blast
  then show ?thesis using atD by (auto simp: bindE_eq_Inr split: if_splits)
qed

lemma pull_start:
  assumes "package_ok mp k L" and "unat (termination_at st) = L"
  shows "case mp_pb_slice_istream_init (slice_coord sender package mp i) (ucast (termination_at st)) mp of
    (pull_st, left) \<Rightarrow> left = L \<and> pull_at sender package mp L 0 pull_st"
proof -
  have "(ucast (termination_at st) :: u32) = of_nat L"
    using assms package_okD(11) [OF assms(1)] by (simp add: word_unat_eq_iff unat_u32_of_nat)
  then show ?thesis
    using package_okD(11) [OF assms(1)]
    by (simp add: mp_pb_slice_istream_init_def pull_at_def unat_u32_of_nat)
qed

text \<open>The last slice starts nanopb on the bytes of the package.\<close>

lemma dec_completes:
  assumes at: "dec_at pb_decode inst put get cap ok ok' sender package k bytes prev msg S w"
    and w1: "dec.assembled put get cap ok sender package (mp_max_payload (dec_config inst)) k bytes {..k} w1"
      "dec_state w1 = zero_state" "dec_msg w1 = msg"
    and L: "unat (termination_at st) = length bytes"
  shows "\<exists>w'. (case mp_pb_slice_istream_init (slice_coord sender package (mp_max_payload (dec_config inst)) i)
      (ucast (termination_at st)) (mp_max_payload (dec_config inst)) of (pull_st, bytes_left) \<Rightarrow>
      bindE (run_pull (dec_coordinator put get) w1
          (pb_decode (output_fields inst) bytes_left (dec_msg w1)) pull_st) (\<lambda>(r, m).
        if r then bindE (on_message inst m (dec_user w1)) (\<lambda>(m', u).
            Inr (w1\<lparr> dec_msg := m', dec_user := u, last_decode_ok := True \<rparr>))
        else Inr (w1\<lparr> dec_msg := m, last_decode_ok := False \<rparr>))) = Inr w' \<and>
    dec_done pb_decode inst put get cap ok ok' bytes msg w'"
proof -
  note atD = at [unfolded dec_at_def]
  let ?mp = "mp_max_payload (dec_config inst)"
  let ?p = "pb_decode (output_fields inst) (length bytes) msg"
  obtain r m where rm: "run_bytes ?p bytes = (r, m)" by (cases "run_bytes ?p bytes")
  obtain pull_st where init: "mp_pb_slice_istream_init (slice_coord sender package ?mp i)
        (ucast (termination_at st)) ?mp = (pull_st, length bytes)"
      "pull_at sender package ?mp (length bytes) 0 pull_st"
    using pull_start [OF _ L, of ?mp k sender package i] atD by auto
  have run: "run_pull (dec_coordinator put get) w1 ?p pull_st = Inr (r, m)"
    using dec.run_pull_bytes [OF _ w1(1) init(2), of ?p] atD rm by simp
  have w1ok: "dec_ok put get cap ok w1" using w1(1) by (simp add: dec.assembled_def)
  then have user: "ok (dec_user w1)" by (simp add: dec_ok_def)
  show ?thesis
  proof (cases r)
    case True
    obtain m' u' where cb: "on_message inst m (dec_user w1) = Inr (m', u')" "ok' u'"
      using atD user unfolding message_callback_def by blast
    then show ?thesis
      using True w1 w1ok user run init(1) rm atD
      by (auto simp: dec_done_def dec_idle_def dec_ok_def)
  next
    case False
    then show ?thesis
      using w1 w1ok user run init(1) rm atD by (auto simp: dec_done_def dec_idle_def dec_ok_def)
  qed
qed

lemma dec_event_step:
  assumes at: "dec_at pb_decode inst put get cap ok ok' sender package k bytes prev msg S w"
    and i: "i \<le> k" "i \<notin> S"
    and view': "package_view (mp_max_payload (dec_config inst)) k (length bytes) (insert i S) st'"
    and d: "take (unat (slice_len (mp_max_payload (dec_config inst)) k (length bytes) i)) d =
      slice_bytes (mp_max_payload (dec_config inst)) k bytes i"
  shows "\<exists>w'. mp_pb_on_event pb_decode inst
      (w\<lparr> dec_state := (if insert i S = {..k} then zero_state else st') \<rparr>) (slice_event k S i)
      (slice_coord sender package (mp_max_payload (dec_config inst)) i) (dec_coordinator put get) st' old d
      (slice_len (mp_max_payload (dec_config inst)) k (length bytes) i) = Inr w' \<and>
    (if insert i S = {..k} then dec_done pb_decode inst put get cap ok ok' bytes msg w'
     else dec_at pb_decode inst put get cap ok ok' sender package k bytes prev msg (insert i S) w')"
proof -
  let ?mp = "mp_max_payload (dec_config inst)"
  let ?st0 = "if insert i S = {..k} then zero_state else st'"
  note atD = at [unfolded dec_at_def]
  have wf: "bitmap_wf ?st0" using view' by (simp add: package_view_def)
  obtain w1 where w1: "(if slice_len ?mp k (length bytes) i > 0
        then payload_put (dec_coordinator put get) (w\<lparr> dec_state := ?st0 \<rparr>)
          (slice_coord sender package ?mp i) d (slice_len ?mp k (length bytes) i)
        else Inr (w\<lparr> dec_state := ?st0 \<rparr>)) = Inr w1"
      "dec.assembled put get cap ok sender package ?mp k bytes (insert i S) w1"
      "dec_state w1 = ?st0" "last_decode_ok w1 = prev" "dec_msg w1 = msg"
    using dec_stores [OF at i(1) wf d] by blast
  have ev: "slice_event k S i = MP_RX_STREAM_COMPLETE \<longleftrightarrow> insert i S = {..k}"
    using i(2) by (simp add: slice_event_def)
  show ?thesis
  proof (cases "insert i S = {..k}")
    case True
    have "unat (termination_at st') = length bytes"
      using view' True by (simp add: package_view_def)
    then show ?thesis
      using dec_completes [OF at, of w1 st' i] w1 True ev
      by (simp only: mp_pb_on_event_def w1(1) bindE_Inr if_True if_False refl simp_thms)
  next
    case False
    then show ?thesis
      using w1 view' ev atD by (simp only: mp_pb_on_event_def bindE_Inr if_True if_False refl
          simp_thms) (auto simp: dec_at_def)
  qed
qed

interpretation dec_package: rx_client "dec_coordinator put get" "dec_ok put get cap ok"
    "dec_stream pb_decode inst put get" "mp_max_payload (dec_config inst)" sender package k bytes
    "dec_at pb_decode inst put get cap ok ok' sender package k bytes prev msg"
    "dec_done pb_decode inst put get cap ok ok' bytes msg"
  for put get cap ok ok' pb_decode inst sender package k bytes prev msg
proof (unfold_locales, goal_cases)
  case (3 S w)
  then show ?case by (simp add: dec_at_def)
next
  case (4 S w i)
  then show ?case by (simp add: dec_at_def)
next
  case (5 S w i st' d)
  then show ?case
    using dec_event_step [OF 5, of "ucast (watermark (dec_state w))"] by (simp add: dec_stream_def)
qed (simp_all add: dec_stream_def)

section \<open>Feeding a package\<close>

lemma decode_frame:
  assumes "dec_at pb_decode inst put get cap ok ok' sender package k bytes prev msg S w" and "S \<noteq> {..k}"
    and "i \<le> k" and "carries_slice (mp_max_payload (dec_config inst)) sender package k bytes i f"
  shows "\<exists>w'. mp_pb_decode_feed (dec_stream pb_decode inst put get) w f (of_nat (length f)) =
      Inr (last_decode_ok w', w') \<and>
    (if insert i S = {..k} then dec_done pb_decode inst put get cap ok ok' bytes msg w'
     else dec_at pb_decode inst put get cap ok ok' sender package k bytes prev msg (insert i S) w')"
proof -
  obtain w' where "mp_rx_stream_feed (dec_stream pb_decode inst put get) w f (of_nat (length f)) = Inr w'"
      "if insert i S = {..k} then dec_done pb_decode inst put get cap ok ok' bytes msg w'
       else dec_at pb_decode inst put get cap ok ok' sender package k bytes prev msg (insert i S) w'"
    using dec_package.feed_one [OF assms] by blast
  then show ?thesis by (simp add: mp_pb_decode_feed_def)
qed

lemma decode_some:
  assumes "list_all2 (carries_slice (mp_max_payload (dec_config inst)) sender package k bytes) ids fs"
    and "set ids \<subseteq> {..k}" and "S \<union> set ids \<noteq> {..k}"
    and "dec_at pb_decode inst put get cap ok ok' sender package k bytes prev msg S w"
  shows "\<exists>w'. decode_frames (dec_stream pb_decode inst put get) w fs =
      Inr (replicate (length ids) prev, w') \<and>
    dec_at pb_decode inst put get cap ok ok' sender package k bytes prev msg (S \<union> set ids) w'"
  using assms
proof (induction ids fs arbitrary: S w rule: list_all2_induct)
  case (Cons i ids f fs)
  have "S \<subseteq> {..k}" using Cons.prems(3) by (simp add: dec_at_def package_view_def)
  then have ne: "S \<noteq> {..k}" "insert i S \<noteq> {..k}" and i: "i \<le> k" using Cons.prems(1,2) by auto
  obtain w1 where w1: "mp_pb_decode_feed (dec_stream pb_decode inst put get) w f (of_nat (length f)) =
        Inr (last_decode_ok w1, w1)"
      "dec_at pb_decode inst put get cap ok ok' sender package k bytes prev msg (insert i S) w1"
    using decode_frame [OF Cons.prems(3) ne(1) i Cons.hyps(1)] ne(2) by auto
  moreover have "last_decode_ok w1 = prev" using w1(2) by (simp add: dec_at_def)
  ultimately show ?case using Cons.IH [OF _ _ w1(2)] Cons.prems by auto
qed simp

lemma decode_frames_append:
  "decode_frames s w (fs @ gs) =
     bindE (decode_frames s w fs) (\<lambda>(oks, w1).
       bindE (decode_frames s w1 gs) (\<lambda>(oks', w'). Inr (oks @ oks', w')))"
  by (induction fs arbitrary: w)
    (auto simp: bindE_assoc case_prod_unfold bindE_eq_Inr intro!: bindE_cong)

text \<open>What the decoder needs of a package and of nanopb's reading of it.\<close>

lemma decode_package_to:
  assumes idle: "dec_idle put get cap ok w" and cb: "message_callback inst ok'"
    and memory: "payload_memory put get cap ok'" "\<forall>u. ok u \<longrightarrow> ok' u"
    and ok: "package_ok (mp_max_payload (dec_config inst)) k (length bytes)"
    and wire: "wire_ok (mp_max_payload (dec_config inst)) sender" and cap: "length bytes \<le> cap"
    and pulls: "pulls_within (pb_decode (output_fields inst) (length bytes) (dec_msg w)) bytes"
    and fs: "list_all2 (carries_slice (mp_max_payload (dec_config inst)) sender package k bytes) (ids @ [i]) fs"
    and ids: "set ids \<union> {i} = {..k}" "set ids \<noteq> {..k}"
  shows "\<exists>w'. decode_frames (dec_stream pb_decode inst put get) w fs =
      Inr (replicate (length ids) (last_decode_ok w) @ [last_decode_ok w'], w') \<and>
    dec_done pb_decode inst put get cap ok ok' bytes (dec_msg w) w'"
proof -
  obtain gs f where gs: "fs = gs @ [f]"
      "list_all2 (carries_slice (mp_max_payload (dec_config inst)) sender package k bytes) ids gs"
      "carries_slice (mp_max_payload (dec_config inst)) sender package k bytes i f"
    using fs by (auto simp: list_all2_append1 list_all2_Cons1)
  have sub: "set ids \<subseteq> {..k}" "i \<le> k" "insert i (set ids) = {..k}" using ids(1) by auto
  have at: "dec_at pb_decode inst put get cap ok ok' sender package k bytes (last_decode_ok w) (dec_msg w) {} w"
    using idle cb memory ok wire cap pulls
    by (simp add: dec_at_def dec_idle_def dec.assembled_empty view_zero)
  obtain w1 where w1: "decode_frames (dec_stream pb_decode inst put get) w gs =
        Inr (replicate (length ids) (last_decode_ok w), w1)"
      "dec_at pb_decode inst put get cap ok ok' sender package k bytes (last_decode_ok w) (dec_msg w) (set ids) w1"
    using decode_some [OF gs(2) sub(1) _ at] ids(2) by auto
  obtain w' where "mp_pb_decode_feed (dec_stream pb_decode inst put get) w1 f (of_nat (length f)) =
        Inr (last_decode_ok w', w')"
      "dec_done pb_decode inst put get cap ok ok' bytes (dec_msg w) w'"
    using decode_frame [OF w1(2) ids(2) sub(2) gs(3)] sub(3) by auto
  then show ?thesis using w1(1) by (auto simp: gs(1) decode_frames_append)
qed

lemma decode_package:
  assumes idle: "dec_idle put get cap ok w" and cb: "message_callback inst ok"
    and "package_ok (mp_max_payload (dec_config inst)) k (length bytes)"
    and "wire_ok (mp_max_payload (dec_config inst)) sender" and "length bytes \<le> cap"
    and "pulls_within (pb_decode (output_fields inst) (length bytes) (dec_msg w)) bytes"
    and "list_all2 (carries_slice (mp_max_payload (dec_config inst)) sender package k bytes) (ids @ [i]) fs"
    and "set ids \<union> {i} = {..k}" and "set ids \<noteq> {..k}"
  shows "\<exists>w'. decode_frames (dec_stream pb_decode inst put get) w fs =
      Inr (replicate (length ids) (last_decode_ok w) @ [last_decode_ok w'], w') \<and>
    dec_done pb_decode inst put get cap ok ok bytes (dec_msg w) w'"
proof -
  have "payload_memory put get cap ok" using idle by (simp add: dec_idle_def dec_ok_def)
  moreover have "\<forall>u. ok u \<longrightarrow> ok u" by simp
  ultimately show ?thesis using decode_package_to [where ok = ok and ok' = ok] assms by blast
qed

lemma decode_init_stream:
  "mp_pb_decode_init pb_decode inst put get w =
     (dec_stream pb_decode inst put get, w\<lparr> dec_state := zero_state, last_decode_ok := True \<rparr>)"
  by (simp add: mp_pb_decode_init_def dec_stream_def)

text \<open>
  Callbacks of the kind the decoder is used with: one array for the payload, and a message
  callback that keeps a list of the messages.
\<close>

definition array_put :: "(u8 list \<times> 'm list) payload_setter" where
  "array_put u c d n =
     bindE (mem_read d 0 (unat n)) (\<lambda>x.
     bindE (mem_write (fst u) (unat (coord_offset c)) x) (\<lambda>a. Inr (a, snd u)))"

definition array_get :: "(u8 list \<times> 'm list) payload_getter" where
  "array_get u c = drop (unat (coord_offset c)) (fst u)"

definition array_decoder :: "u16 \<Rightarrow> (unit, 'm, u8 list \<times> 'm list) mp_pb_decoder_inst" where
  "array_decoder tu = \<lparr> dec_config = \<lparr> transmission_unit = tu \<rparr>, output_fields = (),
     on_message = (\<lambda>m (a, ms). Inr (m, (a, ms @ [m]))) \<rparr>"

lemma array_put_stores:
  fixes u :: "u8 list \<times> 'm list" and c :: mp_coordinate and n :: u16
  assumes "length (fst u) = cap" and "unat n \<le> length d" and "unat (coord_offset c) + unat n \<le> cap"
  shows "\<exists>u'. array_put u c d n = Inr u' \<and> (length (fst u') = cap \<and> snd u' = snd u) \<and>
    take (unat n) (array_get u' c) = take (unat n) d \<and>
    (\<forall>c' m. same_package c c' \<and> apart c (unat n) c' m \<longrightarrow>
      take m (array_get u' c') = take m (array_get u c'))"
  using mem_write_payload [of "fst u" cap n d c] assms by (auto simp: array_put_def array_get_def)

lemma array_memory: "payload_memory array_put array_get cap (\<lambda>u. length (fst u) = cap)"
  unfolding payload_memory_def using array_put_stores by blast

lemma array_callback: "message_callback (array_decoder tu) (\<lambda>u. length (fst u) = cap)"
  by (simp add: message_callback_def array_decoder_def case_prod_unfold)

text \<open>A message of one length byte and that many bytes, read in two pulls.\<close>

definition sized_decode :: "(unit, u8 list) pb_decode" where
  "sized_decode f left msg =
     Pull True 1 (\<lambda>h. if left = 1 + unat (h ! 0)
       then Pull True (unat (h ! 0)) (\<lambda>bs. Decoded True bs) else Decoded False msg)"

section \<open>Properties\<close>

text \<open>The embedded decoder delivers a package whose slices arrive in any order and with
  repetitions, up to the last missing one: nanopb is run once, at that moment, and reads exactly the
  bytes of the package; the last call returns nanopb's result and all calls before it the result the
  decoder had; on success the message callback is called with the decoded message, on failure it is
  not; and the decoder is ready for the next package.\<close>

lemma decode_delivers_package:
  assumes "dec_idle put get cap ok w" and "message_callback inst ok"
    and "package_ok (mp_max_payload (dec_config inst)) k (length bytes)"
    and "wire_ok (mp_max_payload (dec_config inst)) sender" and "length bytes \<le> cap"
    and "pulls_within (pb_decode (output_fields inst) (length bytes) (dec_msg w)) bytes"
    and "run_bytes (pb_decode (output_fields inst) (length bytes) (dec_msg w)) bytes = (r, m)"
    and "list_all2 (carries_slice (mp_max_payload (dec_config inst)) sender package k bytes) (ids @ [i]) fs"
    and "set ids \<union> {i} = {..k}" and "set ids \<noteq> {..k}"
  shows "\<exists>w'. decode_frames (dec_stream pb_decode inst put get) w fs =
      Inr (replicate (length ids) (last_decode_ok w) @ [r], w') \<and>
    dec_idle put get cap ok w' \<and>
    (if r then \<exists>u. ok u \<and> on_message inst m u = Inr (dec_msg w', dec_user w') else dec_msg w' = m)"
  using decode_package [where pb_decode = pb_decode and w = w, OF assms(1-6,8-10)] assms(7) by (auto simp: dec_done_def)

lemma decode_delivers_package_witness:
  "\<exists>w'. decode_frames (dec_stream sized_decode (array_decoder 8) array_put array_get)
      \<lparr> dec_state = zero_state, last_decode_ok = True, dec_msg = [], dec_user = (replicate 16 0, []) \<rparr>
      [slice_frame 4 3 9 1 [5, 1, 2, 3, 4, 5] 1, slice_frame 4 3 9 1 [5, 1, 2, 3, 4, 5] 1,
       slice_frame 4 3 9 1 [5, 1, 2, 3, 4, 5] 0] = Inr ([True, True, True], w') \<and>
    dec_idle array_put array_get 16 (\<lambda>u. length (fst u) = 16) w' \<and>
    (\<exists>u. length (fst u) = 16 \<and>
      on_message (array_decoder 8) [1, 2, 3, 4, 5] u = Inr (dec_msg w', dec_user w'))"
proof -
  let ?w = "\<lparr> dec_state = zero_state, last_decode_ok = True, dec_msg = [],
    dec_user = (replicate 16 0, []) \<rparr> :: (u8 list, u8 list \<times> u8 list list) dec_world"
  let ?bs = "[5, 1, 2, 3, 4, 5] :: u8 list" and ?ok = "\<lambda>u :: u8 list \<times> u8 list list. length (fst u) = 16"
  have mp: "mp_max_payload (dec_config (array_decoder 8)) = 4"
    by (simp add: array_decoder_def mp_max_payload_def MP_HEADER_SIZE_def)
  have ok: "package_ok 4 1 (length ?bs)" and wire: "wire_ok 4 3"
    by (simp_all add: package_ok_def wire_ok_def)
  have idle: "dec_idle array_put array_get 16 ?ok ?w"
    using array_memory by (simp add: dec_idle_def dec_ok_def bitmap_wf_def zero_state_def)
  have nano: "pulls_within (sized_decode () (length ?bs) []) ?bs"
    "run_bytes (sized_decode () (length ?bs) []) ?bs = (True, [1, 2, 3, 4, 5])"
    by (simp_all add: sized_decode_def)
  have ids: "set [1, 1] \<union> {0} = {..1 :: nat}" "set [1, 1] \<noteq> {..1 :: nat}"
    by (auto simp: atMost_Suc numeral_eq_Suc)
  have fs: "list_all2 (carries_slice 4 3 9 1 ?bs) ([1, 1] @ [0])
      [slice_frame 4 3 9 1 ?bs 1, slice_frame 4 3 9 1 ?bs 1, slice_frame 4 3 9 1 ?bs 0]"
    using slice_frame_carries(1) [OF ok _ wire] by simp
  show ?thesis
    using decode_delivers_package [where inst = "array_decoder 8" and pb_decode = sized_decode,
        unfolded mp, OF idle array_callback ok wire _ _ _ fs ids] nano
    by (simp add: array_decoder_def)
qed

text \<open>C20: What nanopb reads through the pull stream is the package, byte for byte: if the payload
  memory holds the slices of a package, any way of pulling into buffers that asks for no more bytes
  than are left, across slice ends too, gives what the same pulls give on the bytes of the package in
  one piece, and no call faults or runs for ever. A pull without a buffer skips its bytes only within
  a slice: one that goes on behind the end of a slice makes the callback write through the NULL
  pointer it has advanced.\<close>

theorem pull_stream_reads_package:
  assumes "dec_ok put get cap ok w" and "package_ok mp k (length bytes)"
    and "\<forall>j\<le>k. take (unat (slice_len mp k (length bytes) j))
      (get (dec_user w) (slice_coord sender package mp j)) = slice_bytes mp k bytes j"
    and "st = fst (mp_pb_slice_istream_init (slice_coord sender package mp i) (of_nat (length bytes)) mp)"
    and "pulls_within p bytes" and "c + cnt \<le> length bytes"
  shows "run_pull (dec_coordinator put get) w p st = Inr (run_bytes p bytes) \<and>
    mp_pb_slice_pull_callback (dec_coordinator put get) w (st\<lparr> consumed := of_nat c \<rparr>) Null_Buf cnt =
      (if c mod unat mp + cnt \<le> unat mp then Inr ([], st\<lparr> consumed := of_nat (c + cnt) \<rparr>)
       else Inl Out_Of_Bounds)"
proof
  have "dec.assembled put get cap ok sender package mp k bytes {..k} w"
    using assms(1,3) by (simp add: dec.assembled_def)
  moreover have "pull_at sender package mp (length bytes) 0 st"
    by (simp add: assms(4) mp_pb_slice_istream_init_def pull_at_def)
  ultimately show "run_pull (dec_coordinator put get) w p st = Inr (run_bytes p bytes)"
    using dec.run_pull_bytes [OF assms(2)] assms(5) by fastforce
  have "pull_at sender package mp (length bytes) c (st\<lparr> consumed := of_nat c \<rparr>)"
    using assms(6) by (simp add: assms(4) mp_pb_slice_istream_init_def pull_at_def)
  from pull_without_buffer [OF assms(2) this assms(6), of "dec_coordinator put get" w]
  show "mp_pb_slice_pull_callback (dec_coordinator put get) w (st\<lparr> consumed := of_nat c \<rparr>) Null_Buf cnt =
      (if c mod unat mp + cnt \<le> unat mp then Inr ([], st\<lparr> consumed := of_nat (c + cnt) \<rparr>)
       else Inl Out_Of_Bounds)"
    by simp
qed

text \<open>Six bytes in slices of four: three bytes skipped from position 2 on.\<close>

theorem pull_stream_reads_package_witness:
  "run_pull (dec_coordinator array_put array_get)
      \<lparr> dec_state = zero_state, last_decode_ok = True, dec_msg = [] :: u8 list, dec_user = ([5, 1, 2, 3, 4, 5], [] :: u8 list list) \<rparr>
      (sized_decode () 6 [])
      (fst (mp_pb_slice_istream_init (slice_coord 3 9 4 1) (of_nat (length [5, 1, 2, 3, 4, 5 :: u8])) 4)) =
    Inr (run_bytes (sized_decode () 6 []) [5, 1, 2, 3, 4, 5]) \<and>
   mp_pb_slice_pull_callback (dec_coordinator array_put array_get)
      \<lparr> dec_state = zero_state, last_decode_ok = True, dec_msg = [] :: u8 list, dec_user = ([5, 1, 2, 3, 4, 5], [] :: u8 list list) \<rparr>
      (fst (mp_pb_slice_istream_init (slice_coord 3 9 4 1) (of_nat (length [5, 1, 2, 3, 4, 5 :: u8])) 4)
        \<lparr> consumed := of_nat 2 \<rparr>) Null_Buf 3 = Inl Out_Of_Bounds"
proof -
  let ?w = "\<lparr> dec_state = zero_state, last_decode_ok = True, dec_msg = [] :: u8 list,
    dec_user = ([5, 1, 2, 3, 4, 5], []) \<rparr> :: (u8 list, u8 list \<times> u8 list list) dec_world"
  have held: "\<forall>j\<le>1. take (unat (slice_len 4 1 (length [5, 1, 2, 3, 4, 5 :: u8]) j))
      (array_get (dec_user ?w) (slice_coord 3 9 4 j)) = slice_bytes 4 1 [5, 1, 2, 3, 4, 5] j"
    by (auto simp: le_Suc_eq array_get_def slice_bytes_def slice_len_def)
  have dec: "dec_ok array_put array_get 6 (\<lambda>u. length (fst u) = 6) ?w"
    by (simp add: dec_ok_def array_memory bitmap_wf_def zero_state_def)
  have ok: "package_ok 4 1 (length [5, 1, 2, 3, 4, 5 :: u8])" by (simp add: package_ok_def)
  have pulls: "pulls_within (sized_decode () 6 []) [5, 1, 2, 3, 4, 5]" by (simp add: sized_decode_def)
  from pull_stream_reads_package [OF dec ok held refl pulls, of 2 3 1] show ?thesis
    by (simp del: of_nat_numeral)
qed

text \<open>A call that does not complete a package returns the result of the last decoding, not
  \<open>true\<close>, and leaves the message alone: for any frame whose slice the transition does not report
  as COMPLETE, \<open>mp_pb_decode_feed\<close> returns what \<open>last_decode_ok\<close> was before. After one failed
  decoding every call for the next package returns false until that package is complete.\<close>

lemma incomplete_frame_keeps_result:
  assumes "mp_rx_calc_slice_step (dec_state w) (slice_serial h) (slice_payload_size h)
      (mp_max_payload (dec_config inst)) (eop h \<noteq> 0) = Inr step"
    and "h = mp_header_unpack (MP_ARRAY_TO_PACKED_HEADER (take MP_HEADER_SIZE f))"
    and "inst_event step \<noteq> MP_RX_STREAM_COMPLETE"
    and "mp_pb_decode_feed (dec_stream pb_decode inst put get) w f n = Inr (r, w')"
  shows "r = last_decode_ok w \<and> last_decode_ok w' = last_decode_ok w \<and> dec_msg w' = dec_msg w"
proof (cases "unat n < MP_HEADER_SIZE")
  case True
  then show ?thesis using assms(4) by (auto simp: mp_pb_decode_feed_def mp_rx_stream_feed_def)
next
  case False
  then have "mem_read f 0 MP_HEADER_SIZE = Inr (take MP_HEADER_SIZE f)"
    using assms(4) by (auto simp: mp_pb_decode_feed_def mp_rx_stream_feed_def mem_read_def split: if_splits)
  then show ?thesis
    using assms False
    by (auto simp: mp_pb_decode_feed_def mp_rx_stream_feed_def dec_stream_def Let_def
        mp_pb_on_event_def bindE_eq_Inr split: if_splits)
qed

lemma incomplete_frame_keeps_result_witness:
  "\<exists>r w'. mp_pb_decode_feed (dec_stream sized_decode (array_decoder 8) array_put array_get)
      \<lparr> dec_state = zero_state, last_decode_ok = False, dec_msg = [7], dec_user = (replicate 16 0, []) \<rparr>
      (slice_frame 4 3 9 1 [5, 1, 2, 3, 4, 5] 1) 8 = Inr (r, w') \<and>
    r = False \<and> last_decode_ok w' = False \<and> dec_msg w' = [7]"
proof -
  let ?w = "\<lparr> dec_state = zero_state, last_decode_ok = False, dec_msg = [7],
    dec_user = (replicate 16 0, []) \<rparr> :: (u8 list, u8 list \<times> u8 list list) dec_world"
  let ?f = "slice_frame 4 3 9 1 [5, 1, 2, 3, 4, 5] 1"
  let ?s = "dec_stream sized_decode (array_decoder 8) array_put array_get"
  let ?h = "slice_header_of 4 3 9 1 [5, 1, 2, 3, 4, 5] 1"
  have ok: "package_ok 4 1 (length [5, 1, 2, 3, 4, 5 :: u8])" and wire: "wire_ok 4 3"
    by (simp_all add: package_ok_def wire_ok_def)
  have h: "?h = mp_header_unpack (MP_ARRAY_TO_PACKED_HEADER (take MP_HEADER_SIZE ?f))"
    using carried_header(2) [OF slice_frame_carries(1) [OF ok order_refl wire] ok order_refl wire] by simp
  have step: "mp_rx_calc_slice_step (dec_state ?w) (slice_serial ?h) (slice_payload_size ?h)
      (mp_max_payload (dec_config (array_decoder 8))) (eop ?h \<noteq> 0) =
      Inr \<lparr> inst_event = MP_RX_STREAM_NEW_SLICE_OUT_OF_ORDER,
        next_state = record_slice zero_state 1 2 4 True \<rparr>"
    by (simp add: calc_slice_step_eq slice_header_of_def slice_len_def array_decoder_def
        mp_max_payload_def MP_HEADER_SIZE_def unat_slice_offset)
  have mp: "mp_max_payload (dec_config (array_decoder 8)) = 4"
    by (simp add: array_decoder_def mp_max_payload_def MP_HEADER_SIZE_def)
  have at: "dec_at sized_decode (array_decoder 8) array_put array_get 16 (\<lambda>u. length (fst u) = 16)
      (\<lambda>u. length (fst u) = 16)
      3 9 1 [5, 1, 2, 3, 4, 5] False [7] {} ?w"
    using ok wire view_zero [OF ok]
    by (simp add: dec_at_def mp dec.assembled_def dec_ok_def sized_decode_def array_memory
        array_callback bitmap_wf_def) (simp add: zero_state_def)
  obtain r w' where feed: "mp_pb_decode_feed ?s ?w ?f 8 = Inr (r, w')"
    using decode_frame [OF at _ order_refl, unfolded mp, OF _ slice_frame_carries(1) [OF ok order_refl wire]]
      slice_frame_carries(2) [OF ok order_refl wire] by auto
  show ?thesis
    using incomplete_frame_keeps_result [OF step h _ feed] feed by auto
qed

text \<open>The decoder keeps one state for all packages, and so judges a slice by its number alone:
  while the slices \<open>S\<close> of a package are recorded, a frame of any other package or sender whose slice
  number is in \<open>S\<close> is dropped without a trace.\<close>

lemma other_package_dropped:
  assumes "package_view mp k L S (dec_state w)" and "i \<in> S" and "i < 256"
    and "MP_HEADER_SIZE \<le> length f" and "length f < 65536"
    and "slice_serial (mp_header_unpack (MP_ARRAY_TO_PACKED_HEADER (take MP_HEADER_SIZE f))) = of_nat i"
  shows "mp_pb_decode_feed (dec_stream pb_decode inst put get) w f (of_nat (length f)) =
    Inr (last_decode_ok w, w)"
proof -
  have "slice_seen (dec_state w) (unat (of_nat i :: u8))"
    using assms(1-3) by (simp add: package_view_def unat_u8_of_nat)
  then show ?thesis
    using assms(4-6)
    by (simp add: mp_pb_decode_feed_def mp_rx_stream_feed_def dec_stream_def Let_def
        calc_slice_step_eq unat_u16_of_nat)
qed

lemma other_package_dropped_witness:
  "mp_pb_decode_feed (dec_stream sized_decode (array_decoder 8) array_put array_get)
      \<lparr> dec_state = record_slice zero_state 1 2 4 True, last_decode_ok = True, dec_msg = [7],
        dec_user = (replicate 16 0, []) \<rparr>
      (slice_frame 4 5 10 1 [9, 9, 9, 9, 9] 1) (of_nat (length (slice_frame 4 5 10 1 [9, 9, 9, 9, 9] 1))) =
    Inr (True, \<lparr> dec_state = record_slice zero_state 1 2 4 True, last_decode_ok = True, dec_msg = [7],
        dec_user = (replicate 16 0, []) \<rparr>)"
proof -
  let ?w = "\<lparr> dec_state = record_slice zero_state 1 2 4 True, last_decode_ok = True, dec_msg = [7],
    dec_user = (replicate 16 0, []) \<rparr> :: (u8 list, u8 list \<times> u8 list list) dec_world"
  let ?f = "slice_frame 4 5 10 1 [9, 9, 9, 9, 9] 1"
  have ok: "package_ok 4 1 (length [9, 9, 9, 9, 9 :: u8])" "package_ok 4 1 6" and wire: "wire_ok 4 5"
    by (simp_all add: package_ok_def wire_ok_def)
  obtain st' where "step_package 4 1 6 zero_state 1 =
        Inr \<lparr> inst_event = slice_event 1 {} 1, next_state = st' \<rparr>" "package_view 4 1 6 {1} st'"
    using step_package_refines [OF ok(2) view_zero [OF ok(2)], of 1] by auto
  then have view: "package_view 4 1 6 {1} (dec_state ?w)"
    by (simp add: calc_slice_step_eq unat_slice_offset slice_len_def)
  have h: "slice_serial (mp_header_unpack (MP_ARRAY_TO_PACKED_HEADER (take MP_HEADER_SIZE ?f))) = of_nat 1"
    using carried_header(2) [OF slice_frame_carries(1) [OF ok(1) order_refl wire] ok(1) order_refl wire, of 10]
    by (simp add: slice_header_of_def)
  have "MP_HEADER_SIZE \<le> length ?f" "length ?f < 65536"
    using slice_frame_carries(2) [OF ok(1) order_refl wire, of 10] by (simp_all add: MP_HEADER_SIZE_def)
  then show ?thesis using other_package_dropped [OF view _ _ _ _ h] by simp
qed

end
