(* ===== verification/Link.thy ===== *)
theory Link
  imports Tools_Rx
begin

text \<open>
  The link between a sender and \<open>src/tools/rx.c\<close> as a state machine. The link holds the frames
  of one package and may hand any of them to the receiver at any time: frames arrive in any order,
  again and again, or never. A state is the receiver's memory and its output; the steps are calls of
  \<open>mp_rx_stream_feed\<close>, and the theorem is an invariant of the reachable states.
\<close>

section \<open>Steps and reachable states\<close>

inductive link_step :: "u16 \<Rightarrow> u8 list list \<Rightarrow> rx_world \<Rightarrow> u8 list \<Rightarrow> rx_world \<Rightarrow> bool" where
  deliver: "f \<in> set frames \<Longrightarrow> mp_rx_stream_feed (rx_stream tu) w f (of_nat (length f)) = Inr w' \<Longrightarrow>
    link_step tu frames w f w'"

inductive link_reaches :: "u16 \<Rightarrow> u8 list list \<Rightarrow> rx_world \<Rightarrow> u8 list list \<Rightarrow> rx_world \<Rightarrow> bool" where
  start: "link_reaches tu frames w [] w"
| step: "link_reaches tu frames w fs w1 \<Longrightarrow> link_step tu frames w1 f w2 \<Longrightarrow>
    link_reaches tu frames w (fs @ [f]) w2"

inductive_cases link_stepE: "link_step tu frames w f w'"

text \<open>What the link carries: frames of the slices of one package.\<close>

definition link_carries :: "u16 \<Rightarrow> u8 \<Rightarrow> u8 \<Rightarrow> nat \<Rightarrow> u8 list \<Rightarrow> u8 list list \<Rightarrow> bool" where
  "link_carries mp sender package k bytes frames \<longleftrightarrow>
     (\<forall>f\<in>set frames. \<exists>i\<le>k. carries_slice mp sender package k bytes i f)"

text \<open>
  What the receiver should make of the frames that have arrived: the number of times all slices have
  come together, and the slices that have come since. The slice of a frame is the number in its header.
\<close>

definition frame_slice :: "u8 list \<Rightarrow> nat" where
  "frame_slice f = unat (slice_serial (mp_header_unpack (MP_ARRAY_TO_PACKED_HEADER (take MP_HEADER_SIZE f))))"

fun count_slice :: "nat \<Rightarrow> nat \<times> nat set \<Rightarrow> u8 list \<Rightarrow> nat \<times> nat set" where
  "count_slice k (n, S) f =
     (if insert (frame_slice f) S = {..k} then (Suc n, {}) else (n, insert (frame_slice f) S))"

definition copies_and_rest :: "nat \<Rightarrow> u8 list list \<Rightarrow> nat \<times> nat set" where
  "copies_and_rest k arrived = foldl (count_slice k) (0, {}) arrived"

lemma copies_and_rest_simps [simp]:
  "copies_and_rest k [] = (0, {})"
  "copies_and_rest k (fs @ [f]) = count_slice k (copies_and_rest k fs) f"
  by (simp_all add: copies_and_rest_def)

lemma carried_frame_slice:
  assumes "carries_slice mp sender package k bytes i f" and "package_ok mp k (length bytes)"
    and "i \<le> k" and "wire_ok mp sender"
  shows "frame_slice f = i"
  using carried_header(2) [OF assms] package_okD(3) [OF assms(2)] assms(3)
  by (simp add: frame_slice_def slice_header_of_def unat_u8_of_nat)

section \<open>The invariant\<close>

text \<open>
  The receiver is in the middle of the package, with \<open>n\<close> whole copies of it written before.
\<close>

definition link_inv ::
    "nat \<Rightarrow> u16 \<Rightarrow> u8 \<Rightarrow> u8 \<Rightarrow> nat \<Rightarrow> u8 list \<Rightarrow> u8 list \<Rightarrow> nat \<Rightarrow> nat set \<Rightarrow> rx_world \<Rightarrow> bool" where
  "link_inv cap tu sender package k bytes base n S w \<longleftrightarrow>
     S \<subset> {..k} \<and> rx_at cap tu sender package k bytes (base @ concat (replicate n bytes)) S w"

lemma link_inv_start:
  assumes "rx_idle cap tu base w" and "package_ok (tu - 4) k (length bytes)"
    and "wire_ok (tu - 4) sender" and "length bytes \<le> cap"
  shows "link_inv cap tu sender package k bytes base 0 {} w"
  using rx_idle_at [OF assms] by (auto simp: link_inv_def)

lemma link_inv_deliver:
  assumes inv: "link_inv cap tu sender package k bytes base n S w"
    and f: "carries_slice (tu - 4) sender package k bytes i f" and i: "i \<le> k"
  shows "\<exists>w'. mp_rx_stream_feed (rx_stream tu) w f (of_nat (length f)) = Inr w' \<and>
    (if insert i S = {..k} then link_inv cap tu sender package k bytes base (Suc n) {} w'
     else link_inv cap tu sender package k bytes base n (insert i S) w')"
proof -
  have at: "rx_at cap tu sender package k bytes (base @ concat (replicate n bytes)) S w"
    and S: "S \<noteq> {..k}" "S \<subseteq> {..k}"
    using inv by (auto simp: link_inv_def)
  note ok = at [unfolded rx_at_def]
  obtain w' where w': "mp_rx_stream_feed (rx_stream tu) w f (of_nat (length f)) = Inr w'"
      "if insert i S = {..k} then rx_idle cap tu ((base @ concat (replicate n bytes)) @ bytes) w'
       else rx_at cap tu sender package k bytes (base @ concat (replicate n bytes)) (insert i S) w'"
    using rx_package.feed_one [OF at S(1) i f] by blast
  show ?thesis
  proof (cases "insert i S = {..k}")
    case True
    have "base @ concat (replicate (Suc n) bytes) = (base @ concat (replicate n bytes)) @ bytes"
      by (simp flip: replicate_append_same)
    then have "rx_at cap tu sender package k bytes (base @ concat (replicate (Suc n) bytes)) {} w'"
      using w'(2) True rx_idle_at [of cap tu _ w' k bytes sender package] ok by metis
    then have "link_inv cap tu sender package k bytes base (Suc n) {} w'" by (auto simp: link_inv_def)
    then show ?thesis using w'(1) True by simp
  next
    case False
    then have "link_inv cap tu sender package k bytes base n (insert i S) w'"
      using w'(2) S(2) i by (auto simp: link_inv_def)
    then show ?thesis using w'(1) False by simp
  qed
qed

lemma link_inv_reachable:
  assumes "link_reaches tu frames w0 fs w" and "link_carries (tu - 4) sender package k bytes frames"
    and "link_inv cap tu sender package k bytes base 0 {} w0"
  shows "case copies_and_rest k fs of (n, S) \<Rightarrow> link_inv cap tu sender package k bytes base n S w"
  using assms
proof (induction rule: link_reaches.induct)
  case (step tu frames w fs w1 f w2)
  obtain n S where nS: "copies_and_rest k fs = (n, S)" by (cases "copies_and_rest k fs")
  then have inv: "link_inv cap tu sender package k bytes base n S w1" using step.IH [OF step.prems] by simp
  have f: "f \<in> set frames" "mp_rx_stream_feed (rx_stream tu) w1 f (of_nat (length f)) = Inr w2"
    using step.hyps(2) by (auto elim: link_stepE)
  obtain i where i: "i \<le> k" "carries_slice (tu - 4) sender package k bytes i f"
    using f(1) step.prems(1) by (auto simp: link_carries_def)
  moreover have "frame_slice f = i"
    using carried_frame_slice [OF i(2) _ i(1)] inv by (simp add: link_inv_def rx_at_def)
  ultimately show ?case
    using link_inv_deliver [OF inv i(2,1)] f(2) nS by (cases "insert i S = {..k}") simp_all
qed simp

section \<open>Fair schedules\<close>

text \<open>
  A link that never stops: \<open>sched t\<close> is the frame that arrives as number \<open>t\<close>. It is fair when
  every slice of the package arrives again and again.
\<close>

primrec link_run :: "u16 \<Rightarrow> (nat \<Rightarrow> u8 list) \<Rightarrow> rx_world \<Rightarrow> nat \<Rightarrow> rx_world res" where
  "link_run tu sched w 0 = Inr w"
| "link_run tu sched w (Suc t) = bindE (link_run tu sched w t) (\<lambda>w'.
     mp_rx_stream_feed (rx_stream tu) w' (sched t) (of_nat (length (sched t))))"

definition link_fair :: "u16 \<Rightarrow> u8 \<Rightarrow> u8 \<Rightarrow> nat \<Rightarrow> u8 list \<Rightarrow> (nat \<Rightarrow> u8 list) \<Rightarrow> bool" where
  "link_fair mp sender package k bytes sched \<longleftrightarrow>
     (\<forall>t. \<exists>i\<le>k. carries_slice mp sender package k bytes i (sched t)) \<and>
     (\<forall>i\<le>k. \<forall>t. \<exists>t'\<ge>t. carries_slice mp sender package k bytes i (sched t'))"

text \<open>The run at time \<open>t\<close>: \<open>n\<close> whole copies written, the slices \<open>S\<close> of the next one here.\<close>

definition run_inv ::
    "nat \<Rightarrow> u16 \<Rightarrow> u8 \<Rightarrow> u8 \<Rightarrow> nat \<Rightarrow> u8 list \<Rightarrow> u8 list \<Rightarrow> (nat \<Rightarrow> u8 list) \<Rightarrow> rx_world \<Rightarrow> nat \<Rightarrow> nat \<Rightarrow> nat set \<Rightarrow> bool"
  where
  "run_inv cap tu sender package k bytes base sched w0 t n S \<longleftrightarrow>
     (\<exists>w. link_run tu sched w0 t = Inr w \<and> link_inv cap tu sender package k bytes base n S w)"

lemma run_inv_step:
  assumes "run_inv cap tu sender package k bytes base sched w0 t n S"
    and "carries_slice (tu - 4) sender package k bytes i (sched t)" and "i \<le> k"
  shows "if insert i S = {..k} then run_inv cap tu sender package k bytes base sched w0 (Suc t) (Suc n) {}
    else run_inv cap tu sender package k bytes base sched w0 (Suc t) n (insert i S)"
  using assms link_inv_deliver [OF _ assms(2,3)] unfolding run_inv_def by fastforce

lemma link_fairD:
  assumes "link_fair mp sender package k bytes sched"
  shows "\<exists>i\<le>k. carries_slice mp sender package k bytes i (sched t)"
    and "i \<le> k \<Longrightarrow> \<exists>t'\<ge>t. carries_slice mp sender package k bytes i (sched t')"
  using assms by (simp_all add: link_fair_def)

text \<open>As time passes, either the copy gets complete or no slice is lost.\<close>

lemma run_inv_later:
  assumes fair: "link_fair (tu - 4) sender package k bytes sched"
    and "run_inv cap tu sender package k bytes base sched w0 t n S"
  shows "(\<exists>t'. run_inv cap tu sender package k bytes base sched w0 t' (Suc n) {}) \<or>
    (\<exists>S'. S \<subseteq> S' \<and> run_inv cap tu sender package k bytes base sched w0 (t + d) n S')"
proof (induction d)
  case 0
  then show ?case using assms(2) by auto
next
  case (Suc d)
  then show ?case
  proof
    assume "\<exists>S'. S \<subseteq> S' \<and> run_inv cap tu sender package k bytes base sched w0 (t + d) n S'"
    then obtain S' where S': "S \<subseteq> S'" "run_inv cap tu sender package k bytes base sched w0 (t + d) n S'"
      by blast
    obtain i where i: "carries_slice (tu - 4) sender package k bytes i (sched (t + d))" "i \<le> k"
      using link_fairD(1) [OF fair] by blast
    note step = run_inv_step [OF S'(2) i]
    show ?thesis
    proof (cases "insert i S' = {..k}")
      case True
      then show ?thesis using step by auto
    next
      case False
      then have "S \<subseteq> insert i S' \<and> run_inv cap tu sender package k bytes base sched w0 (t + Suc d) n (insert i S')"
        using step S'(1) by auto
      then show ?thesis by blast
    qed
  qed blast
qed

lemma run_inv_progress:
  assumes fair: "link_fair (tu - 4) sender package k bytes sched"
    and "run_inv cap tu sender package k bytes base sched w0 t n S"
  shows "\<exists>t'. run_inv cap tu sender package k bytes base sched w0 t' (Suc n) {}"
  using assms(2)
proof (induction "card ({..k} - S)" arbitrary: t S rule: less_induct)
  case less
  have "S \<subset> {..k}" using less.prems by (auto simp: run_inv_def link_inv_def)
  then obtain i where i: "i \<le> k" "i \<notin> S" by auto
  then obtain t' where t': "t \<le> t'" "carries_slice (tu - 4) sender package k bytes i (sched t')"
    using link_fairD(2) [OF fair] by blast
  then obtain d where d: "t' = t + d" using le_Suc_ex by blast
  show ?case
    using run_inv_later [OF fair less.prems, of d]
  proof
    assume "\<exists>S'. S \<subseteq> S' \<and> run_inv cap tu sender package k bytes base sched w0 (t + d) n S'"
    then obtain S' where S': "S \<subseteq> S'" "run_inv cap tu sender package k bytes base sched w0 t' n S'"
      by (auto simp: d)
    show ?thesis
    proof (cases "insert i S' = {..k}")
      case True
      then show ?thesis using run_inv_step [OF S'(2) t'(2) i(1)] by auto
    next
      case False
      have "{..k} - insert i S' \<subset> {..k} - S" using S'(1) i by auto
      then have "card ({..k} - insert i S') < card ({..k} - S)" by (intro psubset_card_mono) simp_all
      then show ?thesis using less.hyps run_inv_step [OF S'(2) t'(2) i(1)] False by simp
    qed
  qed
qed

section \<open>Properties\<close>

text \<open>C8: Over a link that reorders, repeats and loses the frames of a package as it likes, the
  receiver is always right: in every reachable state stdout holds what it held before, then one whole
  copy of the package for each time all its slices have come together among the frames that have
  arrived, and then the part of the package in front of the first slice missing since; the slice state
  is that of the slices that have come since; and there is no frame of the link on which the next step
  would fault or hang. The package is not empty, within the 16-bit offsets, and fits the receiver's
  buffer.\<close>

theorem link_output_always_right:
  assumes "package_ok (tu - 4) k (length bytes)" and "wire_ok (tu - 4) sender" and "length bytes \<le> cap"
    and "link_carries (tu - 4) sender package k bytes frames"
    and "rx_idle cap tu base w0" and "link_reaches tu frames w0 arrived w"
  shows "(case copies_and_rest k arrived of (n, S) \<Rightarrow> S \<subset> {..k} \<and>
      out_bytes (rx_out w) = base @ concat (replicate n bytes) @ take (first_missing S * unat (tu - 4)) bytes \<and>
      (\<forall>i<256. slice_seen (session_state (ctx_session w)) i \<longleftrightarrow> i \<in> S)) \<and>
    (\<forall>f\<in>set frames. \<exists>w'. mp_rx_stream_feed (rx_stream tu) w f (of_nat (length f)) = Inr w')"
proof -
  obtain n S where nS: "copies_and_rest k arrived = (n, S)" by (cases "copies_and_rest k arrived")
  have inv: "link_inv cap tu sender package k bytes base n S w"
    using link_inv_reachable [OF assms(6,4) link_inv_start [OF assms(5,1,2,3)]] nS by simp
  then have at: "rx_at cap tu sender package k bytes (base @ concat (replicate n bytes)) S w"
    and S: "S \<subset> {..k}"
    by (simp_all add: link_inv_def)
  have "unat (watermark (session_state (ctx_session w))) = first_missing S * unat (tu - 4)"
    using at S by (intro view_watermark(1) [OF assms(1)]) (auto simp: rx_at_def)
  then have "out_bytes (rx_out w) =
      base @ concat (replicate n bytes) @ take (first_missing S * unat (tu - 4)) bytes"
    using at by (simp add: rx_at_def)
  moreover have "\<forall>i<256. slice_seen (session_state (ctx_session w)) i \<longleftrightarrow> i \<in> S"
    using at by (simp add: rx_at_def package_view_def)
  moreover have "\<forall>f\<in>set frames. \<exists>w'. mp_rx_stream_feed (rx_stream tu) w f (of_nat (length f)) = Inr w'"
    using assms(4) link_inv_deliver [OF inv] unfolding link_carries_def by blast
  ultimately show ?thesis using S nS by simp
qed

text \<open>Slice 1, slice 0, slice 1 again: one copy, and nothing of the next one can be written yet.\<close>

theorem link_output_always_right_witness:
  "\<exists>w. link_reaches 8 [slice_frame 4 2 9 1 [1, 2, 3, 4, 5] 0, slice_frame 4 2 9 1 [1, 2, 3, 4, 5] 1]
      \<lparr> ctx_session = \<lparr> rx_magic = MP_SESSION_RECV_MAGIC, rx_transmission_unit = 8,
        session_state = zero_state \<rparr>, assembly = replicate 512 0,
        rx_out = \<lparr> out_bytes = [7], out_writes = [] \<rparr> \<rparr>
      [slice_frame 4 2 9 1 [1, 2, 3, 4, 5] 1, slice_frame 4 2 9 1 [1, 2, 3, 4, 5] 0,
       slice_frame 4 2 9 1 [1, 2, 3, 4, 5] 1] w \<and>
    out_bytes (rx_out w) = [7, 1, 2, 3, 4, 5]"
proof -
  let ?bs = "[1, 2, 3, 4, 5] :: u8 list"
  let ?f = "slice_frame 4 2 9 1 ?bs"
  let ?w0 = "\<lparr> ctx_session = \<lparr> rx_magic = MP_SESSION_RECV_MAGIC, rx_transmission_unit = 8,
      session_state = zero_state \<rparr>, assembly = replicate 512 0,
    rx_out = \<lparr> out_bytes = [7], out_writes = [] \<rparr> \<rparr>"
  have ok: "package_ok (8 - 4) 1 (length ?bs)" and wire: "wire_ok (8 - 4) 2" and cap: "length ?bs \<le> 512"
    by (simp_all add: package_ok_def wire_ok_def)
  have carries: "carries_slice (8 - 4) 2 9 1 ?bs i (?f i)" if "i \<le> 1" for i
    using slice_frame_carries(1) [OF ok that wire, of 9] by simp
  then have link: "link_carries (8 - 4) 2 9 1 ?bs [?f 0, ?f 1]" by (auto simp: link_carries_def)
  have idle: "rx_idle 512 8 [7] ?w0" by (simp add: rx_idle_def rx_ok_def)
  note right = link_output_always_right [OF ok wire cap link idle]
  have more: "\<exists>w'. link_reaches 8 [?f 0, ?f 1] ?w0 (fs @ [?f i]) w'"
    if "\<exists>w. link_reaches 8 [?f 0, ?f 1] ?w0 fs w" "i \<le> 1" for fs i
  proof -
    have "?f i \<in> set [?f 0, ?f 1]" using that(2) by (auto simp: le_Suc_eq)
    with right that(1) show ?thesis by (blast intro: link_reaches.step link_step.deliver)
  qed
  have "\<exists>w. link_reaches 8 [?f 0, ?f 1] ?w0 [] w" by (blast intro: link_reaches.start)
  then obtain w where w: "link_reaches 8 [?f 0, ?f 1] ?w0 [?f 1, ?f 0, ?f 1] w"
    using more [of "[?f 1, ?f 0]" 1] more [of "[?f 1]" 0] more [of "[]" 1] by auto
  have "frame_slice (?f i) = i" if "i \<le> 1" for i
    using carried_frame_slice [OF carries [OF that] ok that wire] .
  then have "copies_and_rest 1 [?f 1, ?f 0, ?f 1] = (1, {1})"
    by (auto simp: copies_and_rest_def atMost_Suc)
  moreover have "first_missing {1} = 0" by (simp add: first_missing_def)
  ultimately show ?thesis using w right [OF w] by auto
qed

text \<open>C14: Over a fair link the receiver never stops delivering: however often copies of the package have
  been asked for, there is a time at which stdout holds that many whole copies behind what it held
  before; and no frame on the way there faults or hangs the receiver.\<close>

theorem fair_link_delivers_forever:
  assumes "package_ok (tu - 4) k (length bytes)" and "wire_ok (tu - 4) sender" and "length bytes \<le> cap"
    and "link_fair (tu - 4) sender package k bytes sched" and "rx_idle cap tu base w0"
  shows "\<exists>t w rest. link_run tu sched w0 t = Inr w \<and>
    out_bytes (rx_out w) = base @ concat (replicate n bytes) @ rest"
proof -
  have "run_inv cap tu sender package k bytes base sched w0 0 0 {}"
    using link_inv_start [OF assms(5,1,2,3)] by (simp add: run_inv_def)
  then have "\<exists>t S. run_inv cap tu sender package k bytes base sched w0 t n S"
  proof (induction n)
    case (Suc n)
    then show ?case using run_inv_progress [OF assms(4)] by blast
  qed blast
  then obtain t w S where "link_run tu sched w0 t = Inr w" "link_inv cap tu sender package k bytes base n S w"
    by (auto simp: run_inv_def)
  moreover from this have "\<exists>rest. out_bytes (rx_out w) = base @ concat (replicate n bytes) @ rest"
    by (auto simp: link_inv_def rx_at_def)
  ultimately show ?thesis by blast
qed

theorem fair_link_delivers_forever_witness:
  "\<exists>t w rest. link_run 8 (\<lambda>t. slice_frame 4 2 9 1 [1, 2, 3, 4, 5] (t mod 2))
      \<lparr> ctx_session = \<lparr> rx_magic = MP_SESSION_RECV_MAGIC, rx_transmission_unit = 8,
        session_state = zero_state \<rparr>, assembly = replicate 512 0,
        rx_out = \<lparr> out_bytes = [7], out_writes = [] \<rparr> \<rparr> t = Inr w \<and>
    out_bytes (rx_out w) = [7] @ concat (replicate 1000 [1, 2, 3, 4, 5]) @ rest"
proof -
  let ?bs = "[1, 2, 3, 4, 5] :: u8 list"
  let ?w0 = "\<lparr> ctx_session = \<lparr> rx_magic = MP_SESSION_RECV_MAGIC, rx_transmission_unit = 8,
      session_state = zero_state \<rparr>, assembly = replicate 512 0,
    rx_out = \<lparr> out_bytes = [7], out_writes = [] \<rparr> \<rparr>"
  have ok: "package_ok (8 - 4) 1 (length ?bs)" and wire: "wire_ok (8 - 4) 2" and cap: "length ?bs \<le> 512"
    by (simp_all add: package_ok_def wire_ok_def)
  have carry: "carries_slice (8 - 4) 2 9 1 ?bs i (slice_frame 4 2 9 1 ?bs i)" if "i \<le> 1" for i
    using slice_frame_carries(1) [OF ok that wire, of 9] by simp
  have "link_fair (8 - 4) 2 9 1 ?bs (\<lambda>t. slice_frame 4 2 9 1 ?bs (t mod 2))"
    unfolding link_fair_def
  proof (intro conjI allI impI)
    fix t i :: nat
    have "t mod 2 \<le> 1" by presburger
    then show "\<exists>i\<le>1. carries_slice (8 - 4) 2 9 1 ?bs i (slice_frame 4 2 9 1 ?bs (t mod 2))"
      using carry by blast
    assume "i \<le> 1"
    then have "(2 * t + i) mod 2 = i" "t \<le> 2 * t + i" by presburger+
    then show "\<exists>t'\<ge>t. carries_slice (8 - 4) 2 9 1 ?bs i (slice_frame 4 2 9 1 ?bs (t' mod 2))"
      using carry [OF \<open>i \<le> 1\<close>] by metis
  qed
  moreover have "rx_idle 512 8 [7] ?w0" by (simp add: rx_idle_def rx_ok_def)
  ultimately show ?thesis by (rule fair_link_delivers_forever [OF ok wire cap])
qed

end
