(* ===== verification/Wire.thy ===== *)
theory Wire
  imports Stream_Tx Stream_Rx
begin

text \<open>
  The frames the senders make are frames the lemmas on receivers speak of. Senders build headers
  from coordinates (\<open>header_at\<close>), receivers know slices of a package (\<open>slice_header_of\<close>,
  \<open>carries_slice\<close>).
\<close>

lemma header_at_slice:
  assumes ok: "package_ok mp k (length bytes)" and wire: "wire_ok mp sender" and i: "i \<le> k"
  shows "header_at mp sender package i (slice_len mp k (length bytes) i) (i = k) =
    slice_header_of mp sender package k bytes i"
proof -
  have "sender AND 7 = sender"
    using header_wf_masks(1) [of "slice_header_of mp sender package k bytes i"]
      slice_header_wf [OF ok i wire, of package]
    by (simp add: slice_header_of_def field_masks)
  then show ?thesis
    using header_at_in_range [of mp i] slice_offset_package(2) [OF ok i] package_okD(1,3) [OF ok] i
    by (simp add: slice_header_of_def)
qed

lemma frame_carries_slice:
  assumes ok: "package_ok mp k (length bytes)" and wire: "wire_ok mp sender" and i: "i \<le> k"
    and f: "frame_carries mp (header_at mp sender package i (slice_len mp k (length bytes) i) (i = k))
      (slice_bytes mp k bytes i) f"
  shows "carries_slice mp sender package k bytes i f" and "length f = unat mp + 4"
proof -
  show len: "length f = unat mp + 4" using f by (simp add: frame_carries_def MP_HEADER_SIZE_def)
  have "unat mp < 4096" using wire by (simp add: wire_ok_def word_less_nat_alt)
  then show "carries_slice mp sender package k bytes i f"
    using f len length_slice_bytes(1) [OF ok i] header_at_slice [OF ok wire i]
    by (simp add: carries_slice_def frame_carries_def MP_HEADER_SIZE_def)
qed

text \<open>Full slices and one with the end mark behind them.\<close>

lemma frames_carry:
  assumes ok: "package_ok mp k (length bytes)" and wire: "wire_ok mp sender" and len: "length gs = k"
    and gs: "\<And>j. j < k \<Longrightarrow> frame_carries mp (header_at mp sender package j mp False)
      (take (unat mp) (drop (j * unat mp) bytes)) (gs ! j)"
    and f: "frame_carries mp (header_at mp sender package k (of_nat (length bytes - k * unat mp)) True)
      (drop (k * unat mp) bytes) f"
    and i: "i \<le> k"
  shows "carries_slice mp sender package k bytes i ((gs @ [f]) ! i)" and "length ((gs @ [f]) ! i) = unat mp + 4"
proof -
  have "frame_carries mp (header_at mp sender package i (slice_len mp k (length bytes) i) (i = k))
      (slice_bytes mp k bytes i) ((gs @ [f]) ! i)"
  proof (cases "i < k")
    case True
    then show ?thesis using gs [OF True] len by (simp add: nth_append slice_len_def slice_bytes_def)
  next
    case False
    moreover have "length bytes - k * unat mp < 65536" using package_okD(11) [OF ok] by linarith
    ultimately show ?thesis
      using f len i by (simp add: nth_append slice_len_def slice_bytes_def unat_u16_of_nat del: of_nat_diff)
  qed
  then show "carries_slice mp sender package k bytes i ((gs @ [f]) ! i)" "length ((gs @ [f]) ! i) = unat mp + 4"
    using frame_carries_slice [OF ok wire i] by blast+
qed

lemma full_frames_nth:
  assumes "full_frames mp sender package 0 (full_slices (unat mp) bytes) fs" and "0 < unat mp"
    and "j < length bytes div unat mp"
  shows "frame_carries mp (header_at mp sender package j mp False) (take (unat mp) (drop (j * unat mp) bytes)) (fs ! j)"
  unfolding full_slices_nth [OF assms(2,3), symmetric]
  using assms(1,3) length_full_slices [OF assms(2), of bytes] by (simp add: full_frames_def)

text \<open>The frames of the C senders, whose last slice is the rest behind the full slices.\<close>

lemma package_frames_carry:
  assumes ok: "package_ok mp (length bytes div unat mp) (length bytes)" and wire: "wire_ok mp sender"
    and fs: "package_frames mp sender package bytes fs" and i: "i \<le> length bytes div unat mp"
  shows "carries_slice mp sender package (length bytes div unat mp) bytes i (fs ! i)"
    and "length (fs ! i) = unat mp + 4" and "length fs = Suc (length bytes div unat mp)"
proof -
  let ?m = "unat mp" and ?k = "length bytes div unat mp"
  note okD = package_okD [OF ok]
  obtain gs f where fs': "fs = gs @ [f]" "full_frames mp sender package 0 (full_slices ?m bytes) gs"
      "frame_carries mp (header_at mp sender package ?k (of_nat (length bytes mod ?m)) True)
        (slice_rest ?m bytes) f"
    using fs by (auto simp: package_frames_def)
  have len: "length gs = ?k"
    using fs'(2) length_full_slices [OF okD(2), of bytes] by (simp add: full_frames_def)
  then show "length fs = Suc ?k" by (simp add: fs'(1))
  have "frame_carries mp (header_at mp sender package j mp False) (take ?m (drop (j * ?m) bytes)) (gs ! j)"
    if "j < ?k" for j
    using full_frames_nth [OF fs'(2) okD(2) that] .
  moreover have "frame_carries mp (header_at mp sender package ?k (of_nat (length bytes - ?k * ?m)) True)
      (drop (?k * ?m) bytes) f"
    using fs'(3) by (simp add: slice_rest_def minus_div_mult_eq_mod del: of_nat_diff)
  ultimately show "carries_slice mp sender package ?k bytes i (fs ! i)" "length (fs ! i) = ?m + 4"
    unfolding fs'(1) using frames_carry [OF ok wire len _ _ i] by blast+
qed

lemma package_frames_arrive:
  assumes "package_ok mp (length bytes div unat mp) (length bytes)" and "wire_ok mp sender"
    and "package_frames mp sender package bytes fs" and "\<forall>j\<in>set js. j \<le> length bytes div unat mp"
  shows "list_all2 (carries_slice mp sender package (length bytes div unat mp) bytes) js (map (nth fs) js)"
  using assms(4) package_frames_carry(1) [OF assms(1-3)] by (simp add: list_all2_map2 list_all2_same)

end
