(* ===== verification/Cpp_Tx.thy ===== *)
theory Cpp_Tx
  imports Wire
begin

text \<open>
  \<^bold>\<open>src/cpp/customdata-protobuf-tx.cpp\<close> and \<^bold>\<open>customdata-protobuf-tx.hpp\<close>: the encoder of
  the C++ binding. protobuf writes a message through \<open>ZeroCopyOutputStream\<close>: it asks for a buffer
  with \<open>Next\<close>, writes into it, and gives an unused end back with \<open>BackUp\<close>. \<open>TxStream\<close>
  is that stream; it offers the same buffer again and again, and sends a slice each time.
\<close>

section \<open>The stream\<close>

text \<open>
  The caller's buffer is one list: the four bytes of \<open>_hdr_buf\<close> and \<open>_payload_buf\<close> behind
  them. The sizes the code keeps in \<open>int\<close> and \<open>int64_t\<close> are integers here; the observer reads
  the frame it is given.
\<close>

type_synonym 'w tx_observer = "u8 list \<Rightarrow> 'w \<Rightarrow> 'w res"

record 'w TxStream =
  stream_config :: mp_config
  stream_cursor :: mp_coordinate
  stream_max_payload :: u16
  stream_buffer :: "u8 list"
  stream_observer :: "'w tx_observer"
  accumulated :: int
  written :: int
  next_called :: bool

definition new_TxStream ::
    "mp_config \<Rightarrow> mp_coordinate \<Rightarrow> u8 list \<Rightarrow> 'w tx_observer \<Rightarrow> 'w TxStream res" where
  "new_TxStream config coord buffer observer =
     (if length buffer < MP_HEADER_SIZE then Inl Out_Of_Bounds
      else Inr \<lparr> stream_config = config, stream_cursor = coord,
        stream_max_payload = mp_max_payload config, stream_buffer = buffer,
        stream_observer = observer, accumulated = 0, written = 0, next_called = False \<rparr>)"

definition payload_buf_size :: "'w TxStream \<Rightarrow> nat" where
  "payload_buf_size s = length (stream_buffer s) - MP_HEADER_SIZE"

definition commit_slice :: "'w TxStream \<Rightarrow> 'w \<Rightarrow> bool \<Rightarrow> int \<Rightarrow> ('w TxStream \<times> 'w) res" where
  "commit_slice s w is_eop sz =
     bindE (mp_tx_prepare (stream_config s) (stream_cursor s) (of_int sz) is_eop) (\<lambda>slice.
     bindE (mem_write (stream_buffer s) 0
         (MP_PACKED_HEADER_TO_ARRAY (mp_header_pack (slice_header slice)))) (\<lambda>buffer.
     bindE (stream_observer s buffer w) (\<lambda>w'.
       Inr (s\<lparr> stream_buffer := buffer, stream_cursor := slice_next slice,
              accumulated := accumulated s + sz \<rparr>, w'))))"

text \<open>\<open>Next\<close> always succeeds and offers the whole payload buffer.\<close>

definition Next :: "'w TxStream \<Rightarrow> 'w \<Rightarrow> (int \<times> 'w TxStream \<times> 'w) res" where
  "Next s w =
     bindE (if next_called s then commit_slice s w False (int (payload_buf_size s)) else Inr (s, w))
       (\<lambda>(s', w'). Inr (int (payload_buf_size s'),
          s'\<lparr> next_called := True, written := 0 \<rparr>, w'))"

definition BackUp :: "'w TxStream \<Rightarrow> int \<Rightarrow> 'w TxStream" where
  "BackUp s count = s\<lparr> written := int (payload_buf_size s) - count \<rparr>"

definition ByteCount :: "'w TxStream \<Rightarrow> int" where
  "ByteCount s = accumulated s"

definition stream_finalize :: "'w TxStream \<Rightarrow> 'w \<Rightarrow> ('w TxStream \<times> 'w) res" where
  "stream_finalize s w =
     (if next_called s
      then commit_slice s w True
        (if written s > 0 then written s else int (payload_buf_size s))
      else Inr (s, w))"

section \<open>Serializing a message\<close>

text \<open>
  \<open>SerializeToZeroCopyStream\<close> is a parameter: for a message and the size that every \<open>Next\<close>
  gives, the calls it makes and its result. A call of \<open>Next\<close> comes with the bytes that are
  then written from the start of the buffer.
\<close>

datatype zc_call = Zc_Next "u8 list" | Zc_BackUp int

type_synonym 'm serializer = "'m \<Rightarrow> nat \<Rightarrow> zc_call list \<times> bool"

fun zc_step :: "'w TxStream \<times> 'w \<Rightarrow> zc_call \<Rightarrow> ('w TxStream \<times> 'w) res" where
  "zc_step (s, w) (Zc_Next bytes) =
     bindE (Next s w) (\<lambda>(sz, s', w').
     bindE (mem_write (stream_buffer s') MP_HEADER_SIZE bytes) (\<lambda>buffer.
       Inr (s'\<lparr> stream_buffer := buffer \<rparr>, w')))"
| "zc_step (s, w) (Zc_BackUp count) = Inr (BackUp s count, w)"

section \<open>The encoder\<close>

record 'w TxEncoderCore =
  core_next :: "'w tx_observer"
  core_sender_id :: u8
  core_tu :: u16
  current_package_id :: u8

definition new_TxEncoderCore :: "u16 \<Rightarrow> u8 \<Rightarrow> 'w tx_observer \<Rightarrow> 'w TxEncoderCore" where
  "new_TxEncoderCore tu sender_id observer =
     \<lparr> core_next = observer, core_sender_id = sender_id, core_tu = tu, current_package_id = 0 \<rparr>"

definition TxEncoderCore_Push ::
    "'m serializer \<Rightarrow> 'w TxEncoderCore \<Rightarrow> 'w \<Rightarrow> 'm \<Rightarrow> u8 list \<Rightarrow>
      (bool \<times> 'w TxEncoderCore \<times> 'w) res" where
  "TxEncoderCore_Push serialize core w msg buffer =
     (let core' = core\<lparr> current_package_id := current_package_id core + 1 \<rparr>
      in bindE (new_TxStream \<lparr> transmission_unit = core_tu core \<rparr>
           \<lparr> coord_sender_id = core_sender_id core, coord_package_id = current_package_id core,
             coord_offset = 0 \<rparr> buffer (core_next core)) (\<lambda>stream.
         case serialize msg (payload_buf_size stream) of (calls, ok) \<Rightarrow>
         bindE (foldE zc_step (stream, w) calls) (\<lambda>(s1, w1).
         if ok then bindE (stream_finalize s1 w1) (\<lambda>(s2, w2). Inr (ok, core', w2))
         else Inr (ok, core', w1))))"

text \<open>
  The encoder of a fixed unit, with its buffer on the stack, whose first contents are arbitrary.
\<close>

definition new_TxEncoder :: "nat \<Rightarrow> u8 \<Rightarrow> 'w tx_observer \<Rightarrow> 'w TxEncoderCore" where
  "new_TxEncoder TU sender_id observer = new_TxEncoderCore (of_nat TU) sender_id observer"

definition TxEncoder_Push ::
    "nat \<Rightarrow> 'm serializer \<Rightarrow> 'w TxEncoderCore \<Rightarrow> 'w \<Rightarrow> 'm \<Rightarrow> (nat \<Rightarrow> u8) \<Rightarrow>
      (bool \<times> 'w TxEncoderCore \<times> 'w) res" where
  "TxEncoder_Push TU serialize core w msg stack =
     TxEncoderCore_Push serialize core w msg (map stack [0..<TU])"

section \<open>What the stream sends\<close>

text \<open>
  The calls for the bytes of a message: every buffer filled, the unused end of the last one given
  back, and no call for an empty message.
\<close>

function zc_calls :: "nat \<Rightarrow> u8 list \<Rightarrow> zc_call list" where
  "zc_calls n bytes =
     (if bytes = [] \<or> n = 0 then []
      else Zc_Next (take n bytes) #
        (if n < length bytes then zc_calls n (drop n bytes)
         else if length bytes < n then [Zc_BackUp (int (n - length bytes))] else []))"
  by pat_completeness auto
termination by (relation "measure (\<lambda>(n, bytes). length bytes)") auto

declare zc_calls.simps [simp del]

lemma zc_calls_first:
  "0 < n \<Longrightarrow> bytes \<noteq> [] \<Longrightarrow> zc_calls n bytes = Zc_Next (take n bytes) # tl (zc_calls n bytes)"
  by (simp add: zc_calls.simps [of n bytes])

lemma zc_calls_long: "0 < n \<Longrightarrow> n < length bytes \<Longrightarrow> tl (zc_calls n bytes) = zc_calls n (drop n bytes)"
  by (cases "bytes = []") (simp_all add: zc_calls.simps [of n bytes])

text \<open>Handing frames to the observer one after the other.\<close>

abbreviation observe_all :: "'w tx_observer \<Rightarrow> 'w \<Rightarrow> u8 list list \<Rightarrow> 'w res" where
  "observe_all observer \<equiv> foldE (\<lambda>w f. observer f w)"

text \<open>
  The stream with a first part of \<open>bytes\<close> in its buffer, at slice \<open>i\<close> of the package.
\<close>

definition stream_at_slice :: "u16 \<Rightarrow> u8 \<Rightarrow> u8 \<Rightarrow> nat \<Rightarrow> u8 list \<Rightarrow> 'w TxStream \<Rightarrow> bool" where
  "stream_at_slice mp sender package i bytes s \<longleftrightarrow>
     mp_max_payload (stream_config s) = mp \<and> stream_cursor s = slice_coord sender package mp i \<and>
     length (stream_buffer s) = unat mp + MP_HEADER_SIZE \<and> next_called s \<and> written s = 0 \<and>
     take (length bytes) (drop MP_HEADER_SIZE (stream_buffer s)) = take (unat mp) bytes"

definition cpp_frames :: "u16 \<Rightarrow> u8 \<Rightarrow> u8 \<Rightarrow> nat \<Rightarrow> u8 list \<Rightarrow> u8 list list \<Rightarrow> bool" where
  "cpp_frames mp sender package i bytes fs \<longleftrightarrow>
     (let k = (length bytes - 1) div unat mp
      in length fs = Suc k \<and>
        (\<forall>j\<le>k. frame_carries mp
          (header_at mp sender package (i + j) (of_nat (length (take (unat mp) (drop (j * unat mp) bytes)))) (j = k))
          (take (unat mp) (drop (j * unat mp) bytes)) (fs ! j)))"

lemma commit_sends:
  assumes at: "mp_max_payload (stream_config s) = mp" "stream_cursor s = slice_coord sender package mp i"
      "length (stream_buffer s) = unat mp + MP_HEADER_SIZE" "mp \<noteq> 0"
    and d: "take (length d) (drop MP_HEADER_SIZE (stream_buffer s)) = d"
  shows "\<exists>f. frame_carries mp (header_at mp sender package i (of_nat (length d)) e) d f \<and>
    (\<forall>w. commit_slice s w e (int (length d)) = bindE (stream_observer s f w) (\<lambda>w'.
      Inr (s\<lparr> stream_buffer := f, stream_cursor := slice_coord sender package mp (Suc i),
             accumulated := accumulated s + int (length d) \<rparr>, w')))"
proof -
  let ?h = "header_at mp sender package i (of_nat (length d)) e"
  let ?f = "MP_PACKED_HEADER_TO_ARRAY (mp_header_pack ?h) @ drop MP_HEADER_SIZE (stream_buffer s)"
  have "mem_write (stream_buffer s) 0 (MP_PACKED_HEADER_TO_ARRAY (mp_header_pack ?h)) = Inr ?f"
    using at(3) by (simp add: MP_HEADER_SIZE_def)
  moreover have "mp_tx_prepare (stream_config s) (stream_cursor s) (of_int (int (length d))) e =
      Inr \<lparr> slice_header = ?h, slice_next = slice_coord sender package mp (Suc i) \<rparr>"
    using prepare_header_at [of "stream_config s" sender package i] at(1,4) unfolding at(2) by simp
  moreover have "frame_carries mp ?h d ?f"
    using at(3) d by (simp add: frame_carries_def MP_HEADER_SIZE_def)
  ultimately show ?thesis by (intro exI [of _ ?f]) (simp add: commit_slice_def)
qed

lemma cpp_frames_single:
  assumes "bytes \<noteq> []" and "length bytes \<le> unat mp"
    and "frame_carries mp (header_at mp sender package i (of_nat (length bytes)) True) bytes f"
  shows "cpp_frames mp sender package i bytes [f]"
proof -
  have "length bytes - 1 < unat mp" using assms(1,2) by (cases bytes) auto
  then show ?thesis using assms(2,3) by (simp add: cpp_frames_def)
qed

lemma cpp_frames_Cons:
  assumes m: "0 < unat mp" "unat mp < length bytes"
    and f: "frame_carries mp (header_at mp sender package i mp False) (take (unat mp) bytes) f"
    and fs: "cpp_frames mp sender package (Suc i) (drop (unat mp) bytes) fs"
  shows "cpp_frames mp sender package i bytes (f # fs)"
proof -
  let ?n = "unat mp" and ?k = "(length (drop (unat mp) bytes) - 1) div unat mp"
  have "length bytes - 1 = ?n + (length (drop ?n bytes) - 1)" using m by simp
  moreover have "(?n + r) div ?n = Suc (r div ?n)" for r
    by (metis Suc_eq_plus1 div_add_self1 less_not_refl2 m(1))
  ultimately have k: "(length bytes - 1) div ?n = Suc ?k" by (simp only:)
  have shift: "drop (Suc j * ?n) bytes = drop (j * ?n) (drop ?n bytes)" for j
    by (simp add: add.commute)
  have "frame_carries mp (header_at mp sender package (i + j)
        (of_nat (length (take ?n (drop (j * ?n) bytes)))) (j = Suc ?k))
      (take ?n (drop (j * ?n) bytes)) ((f # fs) ! j)" if "j \<le> Suc ?k" for j
  proof (cases j)
    case 0
    then show ?thesis using f m(2) by simp
  next
    case (Suc j')
    then have "frame_carries mp (header_at mp sender package (Suc i + j')
        (of_nat (length (take ?n (drop (j' * ?n) (drop ?n bytes))))) (j' = ?k))
      (take ?n (drop (j' * ?n) (drop ?n bytes))) (fs ! j')"
      using fs that by (simp add: cpp_frames_def Let_def)
    then show ?thesis unfolding Suc shift by simp
  qed
  then show ?thesis using fs unfolding cpp_frames_def Let_def k by simp
qed

lemma write_first_part:
  assumes "length f = n + h"
  shows "\<exists>b. mem_write f h (take n r) = Inr b \<and> length b = n + h \<and> take (length r) (drop h b) = take n r"
proof -
  let ?b = "take h f @ take n r @ drop (h + length (take n r)) f"
  have "drop h ?b = take n r @ drop (h + length (take n r)) f" using assms by simp
  then have "take (length r) (drop h ?b) = take n r"
    using assms by (cases "length r \<le> n") (simp_all add: min_def)
  moreover have "mem_write f h (take n r) = Inr ?b" "length ?b = n + h" using assms by auto
  ultimately show ?thesis by blast
qed

text \<open>The calls after the first one, and the end of the message.\<close>

text \<open>The last buffer of a message is cut to what is left and sent by the finalization.\<close>

lemma serialize_last:
  assumes mp: "mp \<noteq> 0" and bytes: "bytes \<noteq> []" "\<not> unat mp < length bytes"
    and at: "stream_at_slice mp sender package i bytes s"
  shows "\<exists>fs. cpp_frames mp sender package i bytes fs \<and>
    (\<forall>w. bindE (foldE zc_step (s, w) (tl (zc_calls (unat mp) bytes))) (\<lambda>(s1, w1).
        bindE (stream_finalize s1 w1) (\<lambda>(s2, w2). Inr w2)) =
      observe_all (stream_observer s) w fs)"
proof -
  let ?n = "unat mp"
  have n: "0 < ?n" using mp by (simp add: unat_gt_0)
  note at = at [unfolded stream_at_slice_def]
  let ?s = "if length bytes < ?n then BackUp s (int (?n - length bytes)) else s"
  have size: "int (payload_buf_size s) = int ?n" using at by (simp add: payload_buf_size_def)
  have calls: "foldE zc_step (s, w) (tl (zc_calls ?n bytes)) = Inr (?s, w)" for w
    using bytes n by (subst zc_calls.simps) simp
  have here: "take (length bytes) (drop MP_HEADER_SIZE (stream_buffer s)) = bytes"
    using at take_all [of bytes ?n] bytes(2) by simp
  have kept: "mp_max_payload (stream_config ?s) = mp" "stream_cursor ?s = slice_coord sender package mp i"
      "length (stream_buffer ?s) = ?n + MP_HEADER_SIZE" "stream_observer ?s = stream_observer s"
      "next_called ?s" "stream_buffer ?s = stream_buffer s"
    using at by (simp_all add: BackUp_def)
  have sz: "(if written ?s > 0 then written ?s else int (payload_buf_size ?s)) = int (length bytes)"
    using at size bytes by (auto simp: BackUp_def payload_buf_size_def not_less)
  obtain f where f: "frame_carries mp (header_at mp sender package i (of_nat (length bytes)) True) bytes f"
      "commit_slice ?s w True (int (length bytes)) = bindE (stream_observer s f w) (\<lambda>w'.
        Inr (?s\<lparr> stream_buffer := f, stream_cursor := slice_coord sender package mp (Suc i),
          accumulated := accumulated ?s + int (length bytes) \<rparr>, w'))" for w
    using commit_sends [OF kept(1-3) mp, of bytes True] here unfolding kept(4,6) by blast
  have "bindE (stream_finalize ?s w) (\<lambda>(s2, w2). Inr w2) = stream_observer s f w" for w
    using kept(5) by (simp add: stream_finalize_def sz f(2) bindE_assoc del: of_nat_diff)
  then show ?thesis
    using cpp_frames_single [OF bytes(1) _ f(1)] bytes(2)
    by (intro exI [of _ "[f]"]) (simp add: calls)
qed

text \<open>A full buffer is sent when the next one is asked for.\<close>

lemma serialize_next:
  assumes mp: "mp \<noteq> 0" and more: "unat mp < length bytes"
    and at: "stream_at_slice mp sender package i bytes s"
  shows "\<exists>f s3. frame_carries mp (header_at mp sender package i mp False) (take (unat mp) bytes) f \<and>
    stream_at_slice mp sender package (Suc i) (drop (unat mp) bytes) s3 \<and> stream_observer s3 = stream_observer s \<and>
    (\<forall>w. zc_step (s, w) (Zc_Next (take (unat mp) (drop (unat mp) bytes))) =
      bindE (stream_observer s f w) (\<lambda>w'. Inr (s3, w')))"
proof -
  let ?n = "unat mp" and ?rest = "drop (unat mp) bytes" and ?d = "take (unat mp) bytes"
  note at = at [unfolded stream_at_slice_def]
  have d: "take (length ?d) (drop MP_HEADER_SIZE (stream_buffer s)) = ?d" "length ?d = ?n"
    using at more take_all [of "drop MP_HEADER_SIZE (stream_buffer s)" "length bytes"] by simp_all
  obtain f where f: "frame_carries mp (header_at mp sender package i mp False) ?d f"
      "commit_slice s w False (int ?n) = bindE (stream_observer s f w) (\<lambda>w'.
        Inr (s\<lparr> stream_buffer := f, stream_cursor := slice_coord sender package mp (Suc i),
          accumulated := accumulated s + int ?n \<rparr>, w'))" for w
    using commit_sends [of s mp sender package i ?d False] at mp d by auto
  obtain b where b: "mem_write f MP_HEADER_SIZE (take ?n ?rest) = Inr b" "length b = ?n + MP_HEADER_SIZE"
      "take (length ?rest) (drop MP_HEADER_SIZE b) = take ?n ?rest"
    using write_first_part [of f ?n MP_HEADER_SIZE ?rest] f(1) unfolding frame_carries_def by blast
  define s3 where "s3 = s\<lparr> stream_cursor := slice_coord sender package mp (Suc i),
    accumulated := accumulated s + int ?n, next_called := True, written := 0, stream_buffer := b \<rparr>"
  have step: "zc_step (s, w) (Zc_Next (take ?n ?rest)) =
      bindE (stream_observer s f w) (\<lambda>w'. Inr (s3, w'))" for w
    using at by (simp add: Next_def payload_buf_size_def f(2) b(1) bindE_assoc s3_def del: of_nat_unat)
  have "stream_at_slice mp sender package (Suc i) ?rest s3"
    using at b(2,3) by (simp add: stream_at_slice_def s3_def del: length_drop)
  moreover have "stream_observer s3 = stream_observer s" by (simp add: s3_def)
  ultimately show ?thesis using f(1) step by blast
qed

lemma serialize_rest:
  assumes "mp \<noteq> 0" and "bytes \<noteq> []" and "stream_at_slice mp sender package i bytes s"
  shows "\<exists>fs. cpp_frames mp sender package i bytes fs \<and>
    (\<forall>w. bindE (foldE zc_step (s, w) (tl (zc_calls (unat mp) bytes))) (\<lambda>(s1, w1).
        bindE (stream_finalize s1 w1) (\<lambda>(s2, w2). Inr w2)) =
      observe_all (stream_observer s) w fs)"
  using assms(2,3)
proof (induction "length bytes" arbitrary: bytes i s rule: less_induct)
  case less
  let ?n = "unat mp" and ?rest = "drop (unat mp) bytes"
  have n: "0 < ?n" using assms(1) by (simp add: unat_gt_0)
  show ?case
  proof (cases "?n < length bytes")
    case False
    then show ?thesis using serialize_last [OF assms(1) less.prems(1) _ less.prems(2)] by blast
  next
    case True
    obtain f s3 where f: "frame_carries mp (header_at mp sender package i mp False) (take ?n bytes) f"
        "stream_at_slice mp sender package (Suc i) ?rest s3" "stream_observer s3 = stream_observer s"
        "\<And>w. zc_step (s, w) (Zc_Next (take ?n ?rest)) = bindE (stream_observer s f w) (\<lambda>w'. Inr (s3, w'))"
      using serialize_next [OF assms(1) True less.prems(2)] by blast
    have "length ?rest < length bytes" "?rest \<noteq> []" using True n by simp_all
    then obtain fs where fs: "cpp_frames mp sender package (Suc i) ?rest fs"
        "bindE (foldE zc_step (s3, w) (tl (zc_calls ?n ?rest))) (\<lambda>(s1, w1).
          bindE (stream_finalize s1 w1) (\<lambda>(s2, w2). Inr w2)) = observe_all (stream_observer s) w fs" for w
      using less.hyps [of ?rest "Suc i" s3] f(2,3) by metis
    have calls: "tl (zc_calls ?n bytes) = Zc_Next (take ?n ?rest) # tl (zc_calls ?n ?rest)"
      using zc_calls_long [OF n True] zc_calls_first [OF n, of ?rest] True by simp
    show ?thesis
      using cpp_frames_Cons [OF n True f(1) fs(1)]
      by (intro exI [of _ "f # fs"]) (simp add: calls f(4) bindE_assoc fs(2) del: zc_step.simps)
  qed
qed

text \<open>The chunks of the message are the slices of its package.\<close>

lemma chunk_slice:
  assumes ok: "package_ok mp k (length bytes)" and i: "i \<le> k"
  shows "slice_bytes mp k bytes i = take (unat mp) (drop (i * unat mp) bytes)"
    and "slice_len mp k (length bytes) i = of_nat (length (take (unat mp) (drop (i * unat mp) bytes)))"
proof -
  note okD = package_okD [OF ok] and len = unat_slice_len [OF ok i]
  have rest: "take (unat mp) (drop (k * unat mp) bytes) = drop (k * unat mp) bytes"
    using okD(6) by (intro take_all) simp
  have "length (take (unat mp) (drop (i * unat mp) bytes)) = unat (slice_len mp k (length bytes) i)"
  proof (cases "i < k")
    case True
    then have "Suc i * unat mp \<le> k * unat mp" by (intro mult_le_mono1) simp
    then show ?thesis using True len okD(5) by simp
  next
    case False
    then show ?thesis using len okD(6) i by (auto simp: le_less)
  qed
  then show "slice_len mp k (length bytes) i = of_nat (length (take (unat mp) (drop (i * unat mp) bytes)))"
    by (simp add: word_unat_eq_iff del: length_take length_drop)
  show "slice_bytes mp k bytes i = take (unat mp) (drop (i * unat mp) bytes)"
    using len i rest by (cases "i < k") (auto simp: slice_bytes_def le_less)
qed

lemma cpp_frames_carry:
  assumes ok: "package_ok mp k (length bytes)" and k: "k = (length bytes - 1) div unat mp"
    and wire: "wire_ok mp sender" and fs: "cpp_frames mp sender package 0 bytes fs" and i: "i \<le> k"
  shows "carries_slice mp sender package k bytes i (fs ! i)" and "length (fs ! i) = unat mp + 4"
    and "length fs = Suc k"
proof -
  have "frame_carries mp (header_at mp sender package i (slice_len mp k (length bytes) i) (i = k))
      (slice_bytes mp k bytes i) (fs ! i)"
    using fs i unfolding cpp_frames_def Let_def k [symmetric] chunk_slice [OF ok i] by simp
  then show "carries_slice mp sender package k bytes i (fs ! i)" "length (fs ! i) = unat mp + 4"
    using frame_carries_slice [OF ok wire i] by blast+
  show "length fs = Suc k" using fs by (simp add: cpp_frames_def Let_def k)
qed

text \<open>A whole message.\<close>

lemma sender_frames:
  assumes "mp = core_tu core - 4" and "4 < core_tu core" and "wire_ok mp (core_sender_id core)"
    and "serialize msg (unat mp) = (zc_calls (unat mp) bytes, True)" and "bytes \<noteq> []"
    and "package_ok mp k (length bytes)" and "k = (length bytes - 1) div unat mp"
    and "length buffer = unat (core_tu core)"
  shows "\<exists>fs. length fs = Suc k \<and>
    (\<forall>i\<le>k. carries_slice mp (core_sender_id core) (current_package_id core) k bytes i (fs ! i) \<and>
      length (fs ! i) = unat (core_tu core)) \<and>
    (\<forall>w. TxEncoderCore_Push serialize core w msg buffer =
      bindE (observe_all (core_next core) w fs) (\<lambda>w'.
        Inr (True, core\<lparr> current_package_id := current_package_id core + 1 \<rparr>, w')))"
proof -
  let ?n = "unat mp" and ?cfg = "\<lparr> transmission_unit = core_tu core \<rparr>"
  let ?sender = "core_sender_id core" and ?package = "current_package_id core"
  have mp: "mp_max_payload ?cfg = mp" "mp \<noteq> 0" "unat (core_tu core) = ?n + MP_HEADER_SIZE"
    using assms(1,2) by (auto simp: mp_max_payload_def MP_HEADER_SIZE_def unat_sub_if' word_le_nat_alt
        word_less_nat_alt unat_gt_0 [symmetric])
  let ?buf = "\<lambda>b. \<lparr> stream_config = ?cfg, stream_cursor = slice_coord ?sender ?package mp 0,
    stream_max_payload = mp, stream_buffer = b, stream_observer = core_next core, accumulated = 0,
    written = 0, next_called = True \<rparr>"
  obtain b where b: "mem_write buffer MP_HEADER_SIZE (take ?n bytes) = Inr b"
      "length b = ?n + MP_HEADER_SIZE" "take (length bytes) (drop MP_HEADER_SIZE b) = take ?n bytes"
    using write_first_part [of buffer ?n MP_HEADER_SIZE bytes] assms(8) mp(3) by auto
  have "stream_at_slice mp ?sender ?package 0 bytes (?buf b)"
    using b mp(1) by (simp add: stream_at_slice_def)
  then obtain fs where fs: "cpp_frames mp ?sender ?package 0 bytes fs"
      "bindE (foldE zc_step (?buf b, w) (tl (zc_calls ?n bytes))) (\<lambda>(s1, w1).
        bindE (stream_finalize s1 w1) (\<lambda>(s2, w2). Inr w2)) = observe_all (core_next core) w fs" for w
    using serialize_rest [OF mp(2) assms(5), of ?sender ?package 0 "?buf b"] by auto
  let ?done = "\<lambda>w'. Inr (True, core\<lparr> current_package_id := current_package_id core + 1 \<rparr>, w')"
  obtain calls where calls: "zc_calls ?n bytes = Zc_Next (take ?n bytes) # calls" "tl (zc_calls ?n bytes) = calls"
    using zc_calls_first [of ?n bytes] assms(5) mp(2) by (simp add: unat_gt_0)
  have "TxEncoderCore_Push serialize core w msg buffer = bindE (foldE zc_step (?buf b, w) (tl (zc_calls ?n bytes)))
      (\<lambda>(s1, w1). bindE (stream_finalize s1 w1) (\<lambda>(s2, w2). ?done w2))" for w
    using assms(8) mp b(1) assms(4) [unfolded calls(1)] unfolding calls(2)
    by (simp add: TxEncoderCore_Push_def new_TxStream_def payload_buf_size_def Next_def slice_coord_def
        del: mem_write_ok)
  also have "\<dots> w = bindE (observe_all (core_next core) w fs) ?done" for w
    unfolding fs(2) [symmetric] by (simp add: bindE_assoc case_prod_unfold)
  finally show ?thesis
    using fs(1) cpp_frames_carry [OF assms(6,7,3) fs(1)] cpp_frames_carry(3) [OF assms(6,7,3) fs(1), of 0] mp(3)
    by (intro exI [of _ fs]) (simp add: MP_HEADER_SIZE_def)
qed

section \<open>Any serializer\<close>

text \<open>What the frames of a run have in common, whatever calls the serializer makes.\<close>

definition collect_frames :: "u8 list list tx_observer" where
  "collect_frames f fs = Inr (fs @ [f])"

definition end_mark :: "u8 list \<Rightarrow> bool" where
  "end_mark f \<longleftrightarrow> eop (mp_header_unpack (MP_ARRAY_TO_PACKED_HEADER f)) = 1"

lemma observe_collect: "observe_all collect_frames fs gs = Inr (fs @ gs)"
  by (induction gs arbitrary: fs) (simp_all add: collect_frames_def)

text \<open>A message that serializes to no bytes, for which no buffer is asked, sends nothing.\<close>

lemma empty_message_sends_no_frame:
  assumes "serialize msg (length buffer - 4) = ([], True)" and "4 \<le> length buffer"
  shows "TxEncoderCore_Push serialize core w msg buffer =
    Inr (True, core\<lparr> current_package_id := current_package_id core + 1 \<rparr>, w)"
  using assms
  by (simp add: TxEncoderCore_Push_def new_TxStream_def stream_finalize_def payload_buf_size_def
      MP_HEADER_SIZE_def Let_def)

lemma commit_frame:
  assumes "commit_slice s fs e sz = Inr (s', fs')" and "stream_observer s = collect_frames"
  shows "\<exists>f. fs' = fs @ [f] \<and> length f = length (stream_buffer s) \<and> end_mark f = e \<and>
    stream_buffer s' = f \<and> stream_observer s' = collect_frames"
proof -
  obtain slice f where f: "mp_tx_prepare (stream_config s) (stream_cursor s) (of_int sz) e = Inr slice"
      "mem_write (stream_buffer s) 0 (MP_PACKED_HEADER_TO_ARRAY (mp_header_pack (slice_header slice))) = Inr f"
      "fs' = fs @ [f]" "stream_buffer s' = f" "stream_observer s' = collect_frames"
    using assms by (auto simp: commit_slice_def bindE_eq_Inr collect_frames_def)
  have "take MP_HEADER_SIZE f = MP_PACKED_HEADER_TO_ARRAY (mp_header_pack (slice_header slice))"
    using mem_write_same [OF f(2)] by (simp add: MP_HEADER_SIZE_def)
  moreover have "eop (slice_header slice) = (if e then 1 else 0)"
    using f(1) by (auto simp: mp_tx_prepare_def mp_tx_make_header_def Let_def bindE_eq_Inr)
  ultimately have "end_mark f = e"
    unfolding end_mark_def array_to_packed_take [of f, symmetric]
    by (simp add: unpack_pack_fields header_truncate_def)
  then show ?thesis using f mem_write_length [OF f(2)] by simp
qed

lemma calls_frames:
  assumes "foldE zc_step (s, fs) calls = Inr (s', fs')" and "stream_observer s = collect_frames"
  shows "\<exists>gs. fs' = fs @ gs \<and> (\<forall>f\<in>set gs. length f = length (stream_buffer s) \<and> \<not> end_mark f) \<and>
    length (stream_buffer s') = length (stream_buffer s) \<and> stream_observer s' = collect_frames"
  using assms
proof (induction calls arbitrary: s fs)
  case (Cons c calls)
  obtain s1 fs1 where 1: "zc_step (s, fs) c = Inr (s1, fs1)" "foldE zc_step (s1, fs1) calls = Inr (s', fs')"
    using Cons.prems(1) by (auto simp: bindE_eq_Inr)
  have "\<exists>gs. fs1 = fs @ gs \<and> (\<forall>f\<in>set gs. length f = length (stream_buffer s) \<and> \<not> end_mark f) \<and>
      length (stream_buffer s1) = length (stream_buffer s) \<and> stream_observer s1 = collect_frames"
  proof (cases c)
    case (Zc_BackUp n)
    then show ?thesis using 1(1) Cons.prems(2) by (auto simp: BackUp_def)
  next
    case (Zc_Next d)
    then obtain s2 b where 2: "(if next_called s then commit_slice s fs False (int (payload_buf_size s))
          else Inr (s, fs)) = Inr (s2, fs1)" "mem_write (stream_buffer s2) MP_HEADER_SIZE d = Inr b"
        "stream_buffer s1 = b" "stream_observer s1 = stream_observer s2"
      using 1(1) by (auto simp: Next_def bindE_eq_Inr)
    show ?thesis
    proof (cases "next_called s")
      case True
      then show ?thesis
        using commit_frame [of s fs False _ s2 fs1] 2 Cons.prems(2) mem_write_length [OF 2(2)]
        by (intro exI [of _ "[stream_buffer s2]"]) auto
    next
      case False
      then show ?thesis using 2 Cons.prems(2) mem_write_length [OF 2(2)] by simp
    qed
  qed
  then show ?case using Cons.IH [OF 1(2)] by force
qed simp

section \<open>Properties\<close>

text \<open>An example: two full slices, the second one with the end mark.\<close>

lemma sender_frames_example:
  "\<exists>fs. length fs = Suc 1 \<and>
    (\<forall>i\<le>1. carries_slice 4 2 0 1 [1, 2, 3, 4, 5, 6, 7, 8] i (fs ! i) \<and> length (fs ! i) = 8) \<and>
    TxEncoderCore_Push (\<lambda>m n. (zc_calls n m, True)) (new_TxEncoderCore 8 2 collect_frames) []
      [1, 2, 3, 4, 5, 6, 7, 8] (replicate 8 9) =
    Inr (True, (new_TxEncoderCore 8 2 collect_frames)\<lparr> current_package_id := 1 \<rparr>, fs)"
proof -
  let ?core = "new_TxEncoderCore 8 2 collect_frames" and ?m = "[1, 2, 3, 4, 5, 6, 7, 8] :: u8 list"
  have core: "core_tu ?core = 8" "core_sender_id ?core = 2" "core_next ?core = collect_frames"
      "current_package_id ?core = 0"
    by (simp_all add: new_TxEncoderCore_def)
  have "\<exists>fs. length fs = Suc 1 \<and>
      (\<forall>i\<le>1. carries_slice 4 (core_sender_id ?core) (current_package_id ?core) 1 ?m i (fs ! i) \<and>
        length (fs ! i) = unat (core_tu ?core)) \<and>
      (\<forall>w. TxEncoderCore_Push (\<lambda>m n. (zc_calls n m, True)) ?core w ?m (replicate 8 9) =
        bindE (observe_all (core_next ?core) w fs) (\<lambda>w'.
          Inr (True, ?core\<lparr> current_package_id := current_package_id ?core + 1 \<rparr>, w')))"
    by (rule sender_frames) (simp_all add: core wire_ok_def package_ok_def)
  then show ?thesis unfolding core by (fastforce simp: observe_collect)
qed

text \<open>C36: Every frame the C++ encoder hands on has the size of the caller's buffer, whatever calls the
  serializer makes: the unit, which the comments promise, only when the buffer is as long as the
  unit. At most one frame bears the end mark, it is the last one, and there is none when serializing
  the message fails, so that no receiver ever takes the slices of a failed message for a package.\<close>

theorem encoder_frames_shape:
  assumes "core_next core = collect_frames"
    and "TxEncoderCore_Push serialize core fs msg buffer = Inr (ok, core', fs')"
  shows "\<exists>gs hs. fs' = fs @ gs @ hs \<and> (\<forall>f\<in>set (gs @ hs). length f = length buffer) \<and>
    (\<forall>f\<in>set gs. \<not> end_mark f) \<and> (\<forall>f\<in>set hs. end_mark f) \<and> length hs \<le> (if ok then 1 else 0) \<and>
    core' = core\<lparr> current_package_id := current_package_id core + 1 \<rparr>"
proof -
  obtain s where s: "new_TxStream \<lparr> transmission_unit = core_tu core \<rparr>
        \<lparr> coord_sender_id = core_sender_id core, coord_package_id = current_package_id core,
          coord_offset = 0 \<rparr> buffer collect_frames = Inr s"
    using assms by (auto simp: TxEncoderCore_Push_def bindE_eq_Inr Let_def)
  then have new: "stream_buffer s = buffer" "stream_observer s = collect_frames"
    by (auto simp: new_TxStream_def split: if_splits)
  obtain calls ok' where calls: "serialize msg (payload_buf_size s) = (calls, ok')" by fastforce
  obtain s1 fs1 where run: "foldE zc_step (s, fs) calls = Inr (s1, fs1)"
      "if ok then \<exists>s2. stream_finalize s1 fs1 = Inr (s2, fs') else fs' = fs1"
      "core' = core\<lparr> current_package_id := current_package_id core + 1 \<rparr>"
    using assms(2) unfolding TxEncoderCore_Push_def Let_def assms(1) s bindE_Inr calls
    by (auto simp: bindE_eq_Inr split: if_splits)
  obtain gs where gs: "fs1 = fs @ gs" "\<forall>f\<in>set gs. length f = length buffer \<and> \<not> end_mark f"
      "length (stream_buffer s1) = length buffer" "stream_observer s1 = collect_frames"
    using calls_frames [OF run(1) new(2)] new(1) by auto
  have "\<exists>hs. fs' = fs1 @ hs \<and> (\<forall>f\<in>set hs. length f = length buffer \<and> end_mark f) \<and>
      length hs \<le> (if ok then 1 else 0)"
  proof (cases "ok \<and> next_called s1")
    case True
    then obtain s2 sz where "commit_slice s1 fs1 True sz = Inr (s2, fs')"
      using run(2) by (auto simp: stream_finalize_def)
    then show ?thesis using commit_frame [OF _ gs(4)] gs(3) True by fastforce
  next
    case False
    then show ?thesis using run(2) by (auto simp: stream_finalize_def split: if_splits)
  qed
  then show ?thesis using gs run(3) by fastforce
qed

theorem encoder_frames_shape_witness:
  "\<exists>fs. TxEncoderCore_Push (\<lambda>m n. ([Zc_Next [1, 2, 3, 4], Zc_Next m], False))
      (new_TxEncoderCore 8 2 collect_frames) [] [5] (replicate 8 0) =
        Inr (False, (new_TxEncoderCore 8 2 collect_frames)\<lparr> current_package_id := 1 \<rparr>, fs) \<and>
    fs \<noteq> [] \<and> (\<forall>f\<in>set fs. length f = 8 \<and> \<not> end_mark f)"
proof -
  obtain f where run: "TxEncoderCore_Push (\<lambda>m n. ([Zc_Next [1, 2, 3, 4], Zc_Next m], False))
      (new_TxEncoderCore 8 2 collect_frames) [] [5] (replicate 8 0) =
        Inr (False, (new_TxEncoderCore 8 2 collect_frames)\<lparr> current_package_id := 1 \<rparr>, [f])"
    by (simp add: TxEncoderCore_Push_def new_TxStream_def new_TxEncoderCore_def Next_def commit_slice_def
        mp_tx_prepare_def mp_tx_make_header_def mp_offset_to_slice_idx_def mp_max_payload_def
        payload_buf_size_def MP_HEADER_SIZE_def collect_frames_def Let_def)
  then show ?thesis
    using encoder_frames_shape [OF _ run] by (auto simp: new_TxEncoderCore_def Cons_eq_append_conv)
qed

text \<open>C37: A serializer that asks for a buffer and gives all of it back, as \<open>ZeroCopyOutputStream\<close>
  allows, makes the C++ encoder send a slice no byte of which belongs to the message: a whole
  payload of whatever the buffer held before, with the end mark.\<close>

theorem full_backup_sends_stale_bytes:
  assumes "serialize msg (length buffer - 4) = ([Zc_Next [], Zc_BackUp (int (length buffer - 4))], True)"
    and "4 \<le> length buffer" and "mp_max_payload \<lparr> transmission_unit = core_tu core \<rparr> \<noteq> 0"
  shows "TxEncoderCore_Push serialize core w msg buffer =
    bindE (core_next core
      (MP_PACKED_HEADER_TO_ARRAY (mp_header_pack \<lparr> package_serial = current_package_id core,
         slice_serial = 0, hdr_sender_id = core_sender_id core AND 7, eop = 1,
         slice_payload_size = of_nat (length buffer - 4) \<rparr>) @ drop 4 buffer) w)
      (\<lambda>w'. Inr (True, core\<lparr> current_package_id := current_package_id core + 1 \<rparr>, w'))"
  using assms
  by (simp add: TxEncoderCore_Push_def new_TxStream_def Next_def BackUp_def stream_finalize_def
      commit_slice_def prepare_ok payload_buf_size_def MP_HEADER_SIZE_def Let_def bindE_assoc)

theorem full_backup_sends_stale_bytes_witness:
  "TxEncoderCore_Push (\<lambda>(m :: u8 list) n. ([Zc_Next [], Zc_BackUp (int n)], True))
      (new_TxEncoderCore 8 2 collect_frames) [] [] [0, 0, 0, 0, 7, 7, 7, 7] =
    Inr (True, (new_TxEncoderCore 8 2 collect_frames)\<lparr> current_package_id := 1 \<rparr>,
      [MP_PACKED_HEADER_TO_ARRAY (mp_header_pack \<lparr> package_serial = 0, slice_serial = 0,
         hdr_sender_id = 2, eop = 1, slice_payload_size = 4 \<rparr>) @ [7, 7, 7, 7]])"
  using full_backup_sends_stale_bytes [of "\<lambda>m n. ([Zc_Next [], Zc_BackUp (int n)], True)" "[] :: u8 list"
      "[0, 0, 0, 0, 7, 7, 7, 7]" "new_TxEncoderCore 8 2 collect_frames" "[]"]
  by (simp add: new_TxEncoderCore_def collect_frames_def mp_max_payload_def MP_HEADER_SIZE_def)

end
