(* ===== verification/Coordinator.thy ===== *)
theory Coordinator
  imports Stream_Rx
begin

text \<open>
  The class \<open>Coordinator\<close> of \<^bold>\<open>src/cpp/customdata-protobuf-rx.cpp\<close>: a table with a slot
  for every sender and package number, and per sender the last package number and a generation,
  which goes up when the package numbers start over. A slot of an older generation is emptied
  when it is next touched.
\<close>

section \<open>The table\<close>

record Slot =
  slot_state :: mp_rx_slice_state
  slot_data :: "u8 list" \<comment> \<open>\<open>std::vector<uint8_t>\<close>\<close>
  slot_gen :: u8

record sender_meta =
  meta_pkg :: u8
  meta_gen :: u8

record Coordinator =
  slots :: "Slot list" \<comment> \<open>an array of \<open>1 << (3 + 8)\<close> slots\<close>
  sender_metas :: "sender_meta list" \<comment> \<open>an array of \<open>1 << 3\<close>\<close>

text \<open>
  A new table. The array \<open>_sender_meta\<close> has no initializer, so what it holds at first is a
  parameter.
\<close>

definition empty_slot :: Slot where
  "empty_slot = \<lparr> slot_state = zero_state, slot_data = [], slot_gen = 0 \<rparr>"

definition new_Coordinator :: "sender_meta list \<Rightarrow> Coordinator" where
  "new_Coordinator metas =
     \<lparr> slots = replicate (2 ^ (MP_SENDER_ID_BITS + MP_PACKAGE_ID_BITS)) empty_slot,
       sender_metas = metas \<rparr>"

definition slot_index :: "mp_coordinate \<Rightarrow> nat" where
  "slot_index coord =
     unat (push_bit MP_PACKAGE_ID_BITS (ucast (coord_sender_id coord)) OR
       (ucast (coord_package_id coord) :: u32))"

section \<open>Operations\<close>

definition gc_clock_hook :: "Coordinator \<Rightarrow> Slot \<Rightarrow> u8 \<Rightarrow> Slot" where
  "gc_clock_hook w slot sender_id =
     (let meta = sender_metas w ! unat sender_id;
          slot1 = (if received_count (slot_state slot) > 0 \<and> slot_gen slot \<noteq> meta_gen meta
                   then slot\<lparr> slot_state := zero_state \<rparr> else slot)
      in slot1\<lparr> slot_gen := meta_gen meta \<rparr>)"

text \<open>The access operator, which gives the slot and leaves the table with the hook applied.\<close>

definition slot_access :: "Coordinator \<Rightarrow> mp_coordinate \<Rightarrow> Slot \<times> Coordinator" where
  "slot_access w coord =
     (let i = slot_index coord;
          slot = gc_clock_hook w (slots w ! i) (coord_sender_id coord)
      in (slot, w\<lparr> slots := (slots w)[i := slot] \<rparr>))"

text \<open>The sum and the comparison are made on \<open>int\<close>s; \<open>gen\<close> wraps.\<close>

definition gc_hook :: "Coordinator \<Rightarrow> u8 \<Rightarrow> u8 \<Rightarrow> Coordinator" where
  "gc_hook w sender_id package_id =
     (let meta = sender_metas w ! unat sender_id;
          meta1 = (if unat package_id + MP_PACKAGE_ID_MAX div 2 < unat (meta_pkg meta)
                   then meta\<lparr> meta_gen := meta_gen meta + 1 \<rparr> else meta)
      in w\<lparr> sender_metas :=
        (sender_metas w)[unat sender_id := meta1\<lparr> meta_pkg := package_id \<rparr>] \<rparr>)"

definition get_state :: "Coordinator \<Rightarrow> mp_coordinate \<Rightarrow> mp_rx_slice_state \<times> Coordinator" where
  "get_state w coord =
     (case slot_access w coord of (slot, w') \<Rightarrow> (slot_state slot, w'))"

definition set_state :: "Coordinator \<Rightarrow> mp_coordinate \<Rightarrow> mp_rx_slice_state \<Rightarrow> Coordinator" where
  "set_state w coord state =
     (case slot_access w coord of (slot, w') \<Rightarrow>
        w'\<lparr> slots := (slots w')[slot_index coord := slot\<lparr> slot_state := state \<rparr>] \<rparr>)"

definition vector_resize :: "u8 list \<Rightarrow> nat \<Rightarrow> u8 list" where
  "vector_resize v n = take n v @ replicate (n - length v) 0"

definition put_payload :: "Coordinator \<Rightarrow> mp_coordinate \<Rightarrow> u8 list \<Rightarrow> Coordinator" where
  "put_payload w coord payload =
     (if payload = [] then w
      else case slot_access w coord of (slot, w') \<Rightarrow>
        let off = unat (coord_offset coord);
            needed = off + length payload;
            data = (if length (slot_data slot) < needed then vector_resize (slot_data slot) needed
                    else slot_data slot);
            data' = take off data @ payload @ drop needed data
        in w'\<lparr> slots := (slots w')[slot_index coord := slot\<lparr> slot_data := data' \<rparr>] \<rparr>)"

text \<open>An offset behind the end of the vector would give an invalid range.\<close>

definition get_payload :: "Coordinator \<Rightarrow> mp_coordinate \<Rightarrow> (u8 list \<times> Coordinator) res" where
  "get_payload w coord =
     (case slot_access w coord of (slot, w') \<Rightarrow>
        if unat (coord_offset coord) \<le> length (slot_data slot)
        then Inr (drop (unat (coord_offset coord)) (slot_data slot), w')
        else Inl Out_Of_Bounds)"

section \<open>The slot of a package\<close>

text \<open>
  A table of the right sizes with well-formed states, and what an access of a package gives.
\<close>

definition table_wf :: "Coordinator \<Rightarrow> bool" where
  "table_wf w \<longleftrightarrow> length (slots w) = 2048 \<and> length (sender_metas w) = 8 \<and>
     (\<forall>slot\<in>set (slots w). bitmap_wf (slot_state slot))"

definition slot_view :: "Coordinator \<Rightarrow> mp_coordinate \<Rightarrow> Slot" where
  "slot_view w coord = fst (slot_access w coord)"

lemma slot_index_eq:
  assumes "coord_sender_id c < 8"
  shows "slot_index c = 256 * unat (coord_sender_id c) + unat (coord_package_id c)"
proof -
  have s: "unat (coord_sender_id c) < 8" using assms by (simp add: word_less_nat_alt)
  have "push_bit 8 (ucast (coord_sender_id c)) OR (ucast (coord_package_id c) :: u32) =
      push_bit 8 (ucast (coord_sender_id c)) + ucast (coord_package_id c)"
    by (rule disjunctive_add [symmetric]) (auto simp: bit_simps dest: bit_imp_le_length)
  moreover have "unat (push_bit 8 (ucast (coord_sender_id c)) :: u32) = 256 * unat (coord_sender_id c)"
    using s by (simp add: push_bit_eq_mult unat_word_ariths)
  moreover have "256 * unat (coord_sender_id c) + unat (coord_package_id c) < 4294967296"
    using s unat_u8_less [of "coord_package_id c"] by linarith
  ultimately show ?thesis
    by (simp add: slot_index_def MP_PACKAGE_ID_BITS_def unat_word_ariths)
qed

lemma slot_index_less: "coord_sender_id c < 8 \<Longrightarrow> slot_index c < 2048"
  using unat_u8_less [of "coord_package_id c"]
  by (simp add: slot_index_eq word_less_nat_alt del: unat_u8_less)

lemma slot_index_inj:
  assumes "coord_sender_id c < 8" and "coord_sender_id d < 8"
  shows "slot_index c = slot_index d \<longleftrightarrow> same_package c d"
proof
  assume "same_package c d"
  then show "slot_index c = slot_index d" by (simp add: same_package_def slot_index_def)
next
  have key: "a = a' \<and> b = b'" if "256 * a + b = 256 * a' + b'" "b < 256" "b' < 256"
    for a b a' b' :: nat
  proof -
    have "a = a'" using that arg_cong [OF that(1), of "\<lambda>x. x div 256"] by simp
    then show ?thesis using that(1) by simp
  qed
  assume "slot_index c = slot_index d"
  then show "same_package c d"
    using key [of "unat (coord_sender_id c)" "unat (coord_package_id c)" "unat (coord_sender_id d)"
        "unat (coord_package_id d)"]
    by (simp add: slot_index_eq [OF assms(1)] slot_index_eq [OF assms(2)] same_package_def
        word_unat_eq_iff)
qed

section \<open>What the operations do to the slots\<close>

lemma gc_clock_hook_idem:
  "gc_clock_hook w' (gc_clock_hook w slot s) s' = gc_clock_hook w slot s"
  if "sender_metas w' ! unat s' = sender_metas w ! unat s"
  using that by (simp add: gc_clock_hook_def Let_def)

lemma gc_clock_hook_wf: "bitmap_wf (slot_state slot) \<Longrightarrow> bitmap_wf (slot_state (gc_clock_hook w slot s))"
  by (simp add: gc_clock_hook_def Let_def)

lemma slot_access_eq:
  "slot_access w c = (slot_view w c, w\<lparr> slots := (slots w)[slot_index c := slot_view w c] \<rparr>)"
  by (simp add: slot_view_def slot_access_def Let_def)

lemma slot_view_eq:
  "slot_view w c = gc_clock_hook w (slots w ! slot_index c) (coord_sender_id c)"
  by (simp add: slot_view_def slot_access_def Let_def)

lemma slot_view_gen [simp]:
  "slot_gen (slot_view w c) = meta_gen (sender_metas w ! unat (coord_sender_id c))"
  by (simp add: slot_view_eq gc_clock_hook_def Let_def)

lemma slot_view_cong:
  "same_package c d \<Longrightarrow> slot_view w c = slot_view w d"
  by (simp add: slot_view_eq slot_index_def same_package_def)

lemma slot_view_wf:
  assumes "table_wf w" and "coord_sender_id c < 8"
  shows "bitmap_wf (slot_state (slot_view w c))"
proof -
  have "slots w ! slot_index c \<in> set (slots w)"
    using assms slot_index_less by (simp add: table_wf_def)
  then show ?thesis using assms(1) by (simp add: slot_view_eq gc_clock_hook_wf table_wf_def)
qed

text \<open>Storing a slot of the current generation: it is what is found, and no other slot changes.\<close>

definition slot_put :: "Coordinator \<Rightarrow> mp_coordinate \<Rightarrow> Slot \<Rightarrow> Coordinator" where
  "slot_put w c slot = w\<lparr> slots := (slots w)[slot_index c := slot] \<rparr>"

lemma slot_put_wf:
  "table_wf w \<Longrightarrow> bitmap_wf (slot_state slot) \<Longrightarrow> table_wf (slot_put w c slot)"
  by (auto simp: table_wf_def slot_put_def dest!: set_update_subset_insert [THEN subsetD])

lemma slot_view_put:
  assumes "table_wf w" and "coord_sender_id c < 8" and "coord_sender_id d < 8"
    and "slot_gen slot = meta_gen (sender_metas w ! unat (coord_sender_id c))"
  shows "slot_view (slot_put w c slot) d = (if same_package c d then slot else slot_view w d)"
proof (cases "same_package c d")
  case True
  then have "slot_index d = slot_index c" "coord_sender_id d = coord_sender_id c"
    by (simp_all add: slot_index_def same_package_def)
  then show ?thesis
    using assms slot_index_less [OF assms(2)] True
    by (simp add: slot_view_eq slot_put_def gc_clock_hook_def table_wf_def Let_def)
next
  case False
  then have "slot_index c \<noteq> slot_index d" using assms(2,3) by (simp add: slot_index_inj)
  then show ?thesis using False by (simp add: slot_view_eq slot_put_def gc_clock_hook_def)
qed

lemma slot_put_metas [simp]: "sender_metas (slot_put w c slot) = sender_metas w"
  by (simp add: slot_put_def)

lemma slot_put_cong: "same_package c d \<Longrightarrow> slot_put w c = slot_put w d"
  by (simp add: fun_eq_iff slot_put_def slot_index_def same_package_def)

lemma slot_put_put [simp]: "slot_put (slot_put w c s) c t = slot_put w c t"
  by (simp add: slot_put_def)

lemma get_state_eq: "get_state w c = (slot_state (slot_view w c), slot_put w c (slot_view w c))"
  by (simp add: get_state_def slot_access_eq slot_put_def)

lemma set_state_eq: "set_state w c st = slot_put w c ((slot_view w c)\<lparr> slot_state := st \<rparr>)"
  by (simp add: set_state_def slot_access_eq slot_put_def)

text \<open>The payload written into a vector that grows as needed.\<close>

definition vector_write :: "u8 list \<Rightarrow> nat \<Rightarrow> u8 list \<Rightarrow> u8 list" where
  "vector_write v off d =
     (if d = [] then v
      else take off (vector_resize v (max (length v) (off + length d))) @ d @ drop (off + length d) v)"

lemma put_payload_eq:
  "put_payload w c d =
     (if d = [] then w
      else slot_put w c ((slot_view w c)\<lparr> slot_data :=
        vector_write (slot_data (slot_view w c)) (unat (coord_offset c)) d \<rparr>))"
  by (simp add: put_payload_def slot_access_eq slot_put_def Let_def vector_write_def vector_resize_def
      max_def)

lemma vector_resize_take: "k + n \<le> length v \<Longrightarrow> take n (drop k (vector_resize v (max (length v) m))) = take n (drop k v)"
  by (simp add: vector_resize_def)

lemma vector_write_same: "take (length d) (drop off (vector_write v off d)) = d"
  by (cases "d = []") (simp_all add: vector_write_def vector_resize_def)

lemma vector_write_other:
  assumes "q + n \<le> length v" and "q + n \<le> off \<or> off + length d \<le> q"
  shows "take n (drop q (vector_write v off d)) = take n (drop q v)"
proof (cases "d = []")
  case False
  let ?v = "vector_resize v (max (length v) (off + length d))"
  have len: "length (take off ?v) = off" by (simp add: vector_resize_def)
  show ?thesis
  proof (cases "q + n \<le> off")
    case True
    then have "take n (drop q (take off ?v @ d @ drop (off + length d) v)) = take n (drop q ?v)"
      using len by (simp add: drop_take)
    then show ?thesis using False assms(1) by (simp add: vector_write_def vector_resize_take)
  next
    case q: False
    then have "off + length d \<le> q" using assms(2) by simp
    moreover have "drop q (take off ?v @ d @ drop (off + length d) v) =
        drop (q - off - length d) (drop (off + length d) v)"
      using len calculation by simp
    ultimately show ?thesis using False by (simp add: vector_write_def)
  qed
qed (simp add: vector_write_def)

lemma vector_write_length:
  "length (vector_write v off d) = (if d = [] then length v else max (length v) (off + length d))"
  by (auto simp: vector_write_def vector_resize_def)

lemma get_payload_eq:
  "get_payload w c =
     (if unat (coord_offset c) \<le> length (slot_data (slot_view w c))
      then Inr (drop (unat (coord_offset c)) (slot_data (slot_view w c)), slot_put w c (slot_view w c))
      else Inl Out_Of_Bounds)"
  by (simp add: get_payload_def slot_access_eq slot_put_def)

text \<open>
  The generation. As long as the package numbers of a sender do not fall back by more than
  127 its slots stay as they are.
\<close>

lemma gc_hook_slots [simp]: "slots (gc_hook w s p) = slots w"
  by (simp add: gc_hook_def Let_def)

lemma gc_hook_wf: "table_wf w \<Longrightarrow> table_wf (gc_hook w s p)"
  by (simp add: table_wf_def gc_hook_def Let_def)

lemma gc_hook_metas:
  assumes "table_wf w" and "s < 8"
  shows "sender_metas (gc_hook w s p) ! unat t =
    (if t = s
     then \<lparr> meta_pkg = p, meta_gen = meta_gen (sender_metas w ! unat s) +
       (if unat p + 127 < unat (meta_pkg (sender_metas w ! unat s)) then 1 else 0) \<rparr>
     else sender_metas w ! unat t)"
proof -
  have "unat s < length (sender_metas w)" using assms by (simp add: table_wf_def word_less_nat_alt)
  then show ?thesis
    by (cases "t = s") (simp_all add: gc_hook_def Let_def word_unat_eq_iff)
qed

lemma slot_view_gc_hook:
  assumes "table_wf w" and "s < 8"
    and "coord_sender_id c = s \<Longrightarrow> \<not> unat p + 127 < unat (meta_pkg (sender_metas w ! unat s))"
  shows "slot_view (gc_hook w s p) c = slot_view w c"
  using assms(3) gc_hook_metas [OF assms(1,2), of p "coord_sender_id c"]
  by (cases "coord_sender_id c = s") (simp_all add: slot_view_eq gc_clock_hook_def Let_def)

text \<open>
  The slot as it lies in the table. It is live when an access would not empty it.
\<close>

definition slot_at :: "Coordinator \<Rightarrow> mp_coordinate \<Rightarrow> Slot" where
  "slot_at w c = slots w ! slot_index c"

definition slot_live :: "Coordinator \<Rightarrow> mp_coordinate \<Rightarrow> bool" where
  "slot_live w c \<longleftrightarrow> received_count (slot_state (slot_at w c)) > 0 \<longrightarrow>
     slot_gen (slot_at w c) = meta_gen (sender_metas w ! unat (coord_sender_id c))"

lemma slot_at_cong: "same_package c d \<Longrightarrow> slot_at w c = slot_at w d"
  by (simp add: slot_at_def slot_index_def same_package_def)

lemma slot_view_live:
  "slot_live w c \<Longrightarrow> slot_view w c =
     (slot_at w c)\<lparr> slot_gen := meta_gen (sender_metas w ! unat (coord_sender_id c)) \<rparr>"
  by (auto simp: slot_view_eq slot_live_def slot_at_def gc_clock_hook_def Let_def)

lemma slot_at_put:
  assumes "table_wf w" and "coord_sender_id c < 8" and "coord_sender_id d < 8"
  shows "slot_at (slot_put w c slot) d = (if same_package c d then slot else slot_at w d)"
proof -
  have "slot_index c < length (slots w)"
    using assms(1) slot_index_less [OF assms(2)] by (simp add: table_wf_def)
  then show ?thesis
    using slot_index_inj [OF assms(2,3)] by (auto simp: slot_at_def slot_put_def)
qed

lemma slot_live_put:
  assumes "table_wf w" and "coord_sender_id c < 8" and "coord_sender_id d < 8"
    and "slot_gen slot = meta_gen (sender_metas w ! unat (coord_sender_id c))" and "slot_live w d"
  shows "slot_live (slot_put w c slot) d"
  using assms(4,5) by (auto simp: slot_live_def slot_at_put [OF assms(1-3)] same_package_def)

lemma slot_at_gc_hook [simp]: "slot_at (gc_hook w s p) c = slot_at w c"
  by (simp add: slot_at_def)

lemma slot_live_gc_hook:
  assumes "table_wf w" and "s < 8" and "slot_live w c"
    and "coord_sender_id c = s \<Longrightarrow> received_count (slot_state (slot_at w c)) > 0 \<Longrightarrow>
      \<not> unat p + 127 < unat (meta_pkg (sender_metas w ! unat s))"
  shows "slot_live (gc_hook w s p) c"
  using assms(3,4) gc_hook_metas [OF assms(1,2), of p "coord_sender_id c"]
  by (cases "coord_sender_id c = s") (simp_all add: slot_live_def)

text \<open>The data and the state of one slot, stored one after the other.\<close>

lemma put_then_set:
  assumes "table_wf w" and "coord_sender_id c < 8" and "0 < n \<longleftrightarrow> d \<noteq> []"
  shows "set_state (if 0 < n then put_payload w c d else w) c st =
    slot_put w c ((slot_view w c)\<lparr> slot_data :=
      vector_write (slot_data (slot_view w c)) (unat (coord_offset c)) d, slot_state := st \<rparr>)"
proof -
  let ?slot = "(slot_view w c)\<lparr> slot_data :=
    vector_write (slot_data (slot_view w c)) (unat (coord_offset c)) d \<rparr>"
  have "slot_view (slot_put w c ?slot) c = ?slot"
    using slot_view_put [OF assms(1,2,2), of ?slot] by (simp add: same_package_def)
  then show ?thesis
    using assms(3) by (cases "d = []") (simp_all add: put_payload_eq set_state_eq vector_write_def)
qed

text \<open>
  A generation begins with a much lower package number \<open>b\<close>: when the sender comes back to the
  earlier package its slot is empty.
\<close>

lemma slot_view_after_wrap:
  assumes wf: "table_wf w" and s: "coord_sender_id c < 8" "coord_sender_id e = coord_sender_id c"
    and sl: "bitmap_wf (slot_state sl)"
    and wrap: "meta_pkg (sender_metas w ! unat (coord_sender_id c)) = coord_package_id c"
      "unat (coord_package_id e) + 127 < unat (coord_package_id c)"
    and live: "slot_live w c" "0 < received_count (slot_state (slot_at w c))"
  defines "w1 \<equiv> slot_put (gc_hook w (coord_sender_id e) (coord_package_id e)) e sl"
  shows "slot_state (slot_view (gc_hook w1 (coord_sender_id c) (coord_package_id c)) c) = zero_state"
proof -
  let ?s = "coord_sender_id c"
  have wf1: "table_wf w1" using gc_hook_wf [OF wf] sl by (simp add: w1_def slot_put_wf)
  have "slot_at w1 c = slot_at w c"
    using slot_at_put [OF gc_hook_wf [OF wf], of e c] s wrap(2) by (auto simp: w1_def same_package_def)
  moreover have "meta_gen (sender_metas (gc_hook w1 ?s (coord_package_id c)) ! unat ?s) =
      meta_gen (sender_metas w ! unat ?s) + 1"
    using gc_hook_metas [OF wf s(1), of "coord_package_id e" ?s] s(2) wrap
      gc_hook_metas [OF wf1 s(1), of "coord_package_id c" ?s]
    by (simp add: w1_def)
  ultimately show ?thesis
    using live by (simp add: slot_view_eq gc_clock_hook_def Let_def slot_live_def flip: slot_at_def)
qed

end
