(* ===== verification/Interleaving.thy ===== *)
theory Interleaving
  imports Stream_Rx
begin

text \<open>
  What a receiver with a slot per package owes its user. The frames of many packages arrive in any
  mixture; the abstract state is, for each package, the set of its slices that have come since it
  was last complete. The locale \<open>package_table\<close> states what one frame has to do to a receiver's
  memory, and inside it the whole mixture is delivered as the abstract run prescribes.
\<close>

section \<open>The abstract receiver\<close>

text \<open>A package is named by sender and number; its content is the last slice number and the bytes.\<close>

type_synonym package_key = "u8 \<times> u8"
type_synonym contents = "package_key \<Rightarrow> nat \<times> u8 list"

text \<open>The packages handed on for a list of arrivals, in order.\<close>

fun arrivals_run ::
    "contents \<Rightarrow> (package_key \<Rightarrow> nat set) \<Rightarrow> (package_key \<times> nat) list \<Rightarrow> u8 list list" where
  "arrivals_run content S [] = []"
| "arrivals_run content S ((q, i) # es) =
     (if insert i (S q) = {..fst (content q)}
      then snd (content q) # arrivals_run content (S(q := {})) es
      else arrivals_run content (S(q := insert i (S q))) es)"

text \<open>The same by name: which packages are complete, in order.\<close>

fun completed :: "('q \<Rightarrow> nat) \<Rightarrow> ('q \<Rightarrow> nat set) \<Rightarrow> ('q \<times> nat) list \<Rightarrow> 'q list" where
  "completed k S [] = []"
| "completed k S ((q, i) # es) =
     (if insert i (S q) = {..k q} then q # completed k (S(q := {})) es
      else completed k (S(q := insert i (S q))) es)"

lemma arrivals_run_completed:
  "arrivals_run content S es = map (\<lambda>q. snd (content q)) (completed (\<lambda>q. fst (content q)) S es)"
  by (induction content S es rule: arrivals_run.induct) (simp_all del: fun_upd_apply)

lemma completed_subset: "set (completed k S es) \<subseteq> fst ` set es"
proof (induction k S es rule: completed.induct)
  case (2 k S q i es)
  then show ?case
    by (cases "insert i (S q) = {..k q}") (simp_all del: fun_upd_apply, blast+)
qed simp

lemma completed_cong:
  "\<forall>q\<in>fst ` set es. k q = k' q \<Longrightarrow> completed k S es = completed k' S es"
proof (induction k S es rule: completed.induct)
  case (2 k S q i es)
  then show ?case by (simp del: fun_upd_apply)
qed simp

text \<open>When every slice comes once, a package is complete once, if all its slices come.\<close>

lemma completed_once:
  assumes "distinct es" and "\<forall>(q, i)\<in>set es. i \<notin> S q \<and> i \<le> k q" and "\<forall>q. S q \<noteq> {..k q}"
  shows "count_list (completed k S es) q = (if S q \<union> {i. (q, i) \<in> set es} = {..k q} then 1 else 0)"
  using assms
proof (induction k S es rule: completed.induct)
  case (2 k S q' i es)
  have fresh: "(q', i) \<notin> set es" "i \<le> k q'" and d: "distinct es" using "2.prems" by auto
  have split: "{i'. (q, i') \<in> set ((q', i) # es)} = (if q = q' then insert i {i'. (q, i') \<in> set es}
      else {i'. (q, i') \<in> set es})"
    by auto
  show ?case
  proof (cases "insert i (S q') = {..k q'}")
    case True
    have now: "\<forall>(r, j)\<in>set es. j \<notin> (S(q' := {})) r \<and> j \<le> k r"
      using "2.prems"(2) by (fastforce split: if_splits)
    have "\<forall>r. (S(q' := {})) r \<noteq> {..k r}" using "2.prems"(3) by auto
    note IH = "2.IH"(1) [OF True d now this]
    have "{i'. (q', i') \<in> set es} \<noteq> {..k q'}" using fresh by auto
    moreover have "S q' \<union> insert i {i'. (q', i') \<in> set es} = {..k q'}"
      using True "2.prems"(2) by auto
    ultimately show ?thesis
      using True IH unfolding split by (cases "q = q'") (simp_all del: fun_upd_apply add: fun_upd_same fun_upd_other)
  next
    case False
    have now: "\<forall>(r, j)\<in>set es. j \<notin> (S(q' := insert i (S q'))) r \<and> j \<le> k r"
      using "2.prems"(2) fresh by (fastforce split: if_splits)
    have "\<forall>r. (S(q' := insert i (S q'))) r \<noteq> {..k r}" using "2.prems"(3) False by simp
    note IH = "2.IH"(2) [OF False d now this]
    have "insert i (S q') \<union> X = S q' \<union> insert i X" for X by auto
    then show ?thesis
      using False IH unfolding split by (cases "q = q'") (simp_all del: fun_upd_apply add: fun_upd_same fun_upd_other)
  qed
qed auto

lemma completed_rename:
  assumes "inj_on f A" and "fst ` set es \<subseteq> A" and "\<forall>a\<in>A. k (f a) = k' a \<and> S (f a) = S' a"
  shows "completed k S (map (apfst f) es) = map f (completed k' S' es)"
  using assms(2,3)
proof (induction k' S' es arbitrary: S rule: completed.induct)
  case (2 k' S' a i es)
  have a: "a \<in> A" "k (f a) = k' a" "S (f a) = S' a" and es: "fst ` set es \<subseteq> A"
    using "2.prems" by auto
  have upd: "\<forall>b\<in>A. k (f b) = k' b \<and> (S(f a := X)) (f b) = (S'(a := X)) b" for X
    using "2.prems"(2) a(1) assms(1) by (auto simp: inj_on_eq_iff)
  show ?case
    using "2.IH"(1) [OF _ es upd] "2.IH"(2) [OF _ es upd] a by (simp del: fun_upd_apply)
qed simp

definition arrival_frame :: "u16 \<Rightarrow> contents \<Rightarrow> package_key \<times> nat \<Rightarrow> u8 list \<Rightarrow> bool" where
  "arrival_frame mp content e f \<longleftrightarrow>
     (case e of ((s, p), i) \<Rightarrow> i \<le> fst (content (s, p)) \<and>
        carries_slice mp s p (fst (content (s, p))) (snd (content (s, p))) i f)"

text \<open>Delivering one package after the other.\<close>

abbreviation deliver_all :: "(u8 list \<Rightarrow> 'u \<Rightarrow> 'u res) \<Rightarrow> 'u \<Rightarrow> u8 list list \<Rightarrow> 'u res" where
  "deliver_all deliver \<equiv> foldE (\<lambda>u b. deliver b u)"

text \<open>All slices of one package, in any order, with no other package in between.\<close>

lemma arrivals_run_some:
  "set ids \<subseteq> {..fst (content q)} \<Longrightarrow> S q \<union> set ids \<noteq> {..fst (content q)} \<Longrightarrow>
     S q \<subseteq> {..fst (content q)} \<Longrightarrow>
     arrivals_run content S (map (Pair q) ids @ es) = arrivals_run content (S(q := S q \<union> set ids)) es"
proof (induction ids arbitrary: S)
  case (Cons i ids)
  let ?S = "S(q := insert i (S q))"
  have more: "insert i (S q) \<noteq> {..fst (content q)}" using Cons.prems by auto
  have "arrivals_run content ?S (map (Pair q) ids @ es) =
      arrivals_run content (?S(q := ?S q \<union> set ids)) es"
    using Cons.prems by (intro Cons.IH) auto
  also have "?S(q := ?S q \<union> set ids) = S(q := S q \<union> set (i # ids))" by simp
  finally show ?case using more by (simp del: fun_upd_apply)
qed simp

lemma arrivals_run_package:
  assumes "set ids \<union> {i} = {..fst (content q)}" and "set ids \<noteq> {..fst (content q)}" and "S q = {}"
  shows "arrivals_run content S (map (Pair q) (ids @ [i]) @ es) =
    snd (content q) # arrivals_run content S es"
proof -
  have sub: "set ids \<subseteq> {..fst (content q)}" "insert i (set ids) = {..fst (content q)}"
    using assms(1) by auto
  have "arrivals_run content S (map (Pair q) ids @ (q, i) # es) =
      arrivals_run content (S(q := set ids)) ((q, i) # es)"
    using arrivals_run_some [of ids content q S "(q, i) # es"] sub assms(2,3) by simp
  moreover have "S(q := {}) = S" using assms(3) by (simp add: fun_upd_idem)
  ultimately show ?thesis using sub(2) by simp
qed

lemma arrivals_of_package:
  assumes "list_all2 (carries_slice mp s p k bytes) ids fs" and "\<forall>j\<in>set ids. j \<le> k"
    and "content (s, p) = (k, bytes)"
  shows "list_all2 (arrival_frame mp content) (map (Pair (s, p)) ids) fs"
  using assms(1,2) by (induction rule: list_all2_induct) (simp_all add: arrival_frame_def assms(3))

text \<open>
  Packages with numbers: \<open>key\<close> gives the package of a number, \<open>k\<close> and \<open>b\<close> its last slice and its
  bytes. The frames \<open>fs\<close> of the slices \<open>js\<close>, pairs of a number and a slice, are arrivals.
\<close>

lemma numbered_arrivals:
  assumes inj: "inj_on key {..<n}" and at: "\<forall>j<n. content (key j) = (k j, b j)"
    and fs: "list_all2 (\<lambda>(j, i) f. j < n \<and> i \<le> k j \<and>
      carries_slice mp (fst (key j)) (snd (key j)) (k j) (b j) i f) js fs"
  shows "list_all2 (arrival_frame mp content) (map (apfst key) js) fs"
    and "fst ` set (map (apfst key) js) \<subseteq> key ` {..<n}"
    and "arrivals_run content (\<lambda>_. {}) (map (apfst key) js) = map b (completed k (\<lambda>_. {}) js)"
    and "\<forall>j\<in>set (completed k (\<lambda>_. {}) js). j < n"
proof -
  have below: "fst ` set js \<subseteq> {..<n}" using fs by (induction rule: list_all2_induct) auto
  show "list_all2 (arrival_frame mp content) (map (apfst key) js) fs"
    unfolding list_all2_map1 using fs
    by (rule list_all2_mono) (use at in \<open>auto simp: arrival_frame_def split: prod.splits\<close>)
  show "fst ` set (map (apfst key) js) \<subseteq> key ` {..<n}" using below by force
  show below': "\<forall>j\<in>set (completed k (\<lambda>_. {}) js). j < n"
    using completed_subset [of k "\<lambda>_. {}" js] below by blast
  have "completed (\<lambda>q. fst (content q)) (\<lambda>_. {}) (map (apfst key) js) = map key (completed k (\<lambda>_. {}) js)"
    using at by (intro completed_rename [OF inj below]) simp
  then show "arrivals_run content (\<lambda>_. {}) (map (apfst key) js) = map b (completed k (\<lambda>_. {}) js)"
    using at below' by (simp add: arrivals_run_completed)
qed

section \<open>The contract of a receiver\<close>

locale package_table =
  fixes feed :: "'w \<Rightarrow> u8 list \<Rightarrow> 'w res" and user :: "'w \<Rightarrow> 'u"
    and deliver :: "u8 list \<Rightarrow> 'u \<Rightarrow> 'u res"
    and mp :: u16 and keys :: "package_key set" and content :: contents
    and holds :: "'w \<Rightarrow> (package_key \<Rightarrow> nat set) \<Rightarrow> bool"
  assumes slice: "holds w S \<Longrightarrow> q \<in> keys \<Longrightarrow> arrival_frame mp content (q, i) f \<Longrightarrow>
      insert i (S q) \<noteq> {..fst (content q)} \<Longrightarrow>
      \<exists>w'. feed w f = Inr w' \<and> user w' = user w \<and> holds w' (S(q := insert i (S q)))"
    and complete: "holds w S \<Longrightarrow> q \<in> keys \<Longrightarrow> arrival_frame mp content (q, i) f \<Longrightarrow>
      insert i (S q) = {..fst (content q)} \<Longrightarrow> deliver (snd (content q)) (user w) = Inr u \<Longrightarrow>
      \<exists>w'. feed w f = Inr w' \<and> user w' = u \<and> holds w' (S(q := {}))"
    and refuse: "holds w S \<Longrightarrow> q \<in> keys \<Longrightarrow> arrival_frame mp content (q, i) f \<Longrightarrow>
      insert i (S q) = {..fst (content q)} \<Longrightarrow> deliver (snd (content q)) (user w) = Inl e \<Longrightarrow>
      feed w f = Inl e"
begin

lemma feed_arrivals:
  assumes "list_all2 (arrival_frame mp content) es fs" and "fst ` set es \<subseteq> keys" and "holds w S"
  shows "bindE (foldE feed w fs) (\<lambda>w'. Inr (user w')) =
    deliver_all deliver (user w) (arrivals_run content S es)"
  using assms
proof (induction es fs arbitrary: w S rule: list_all2_induct)
  case (Cons e es f fs)
  obtain q i where e: "e = (q, i)" by (cases e)
  then have q: "q \<in> keys" "arrival_frame mp content (q, i) f" "fst ` set es \<subseteq> keys"
    using Cons.prems(1) Cons.hyps(1) by auto
  show ?case
  proof (cases "insert i (S q) = {..fst (content q)}")
    case False
    obtain w' where w': "feed w f = Inr w'" "user w' = user w" "holds w' (S(q := insert i (S q)))"
      using slice [OF Cons.prems(2) q(1,2) False] by blast
    then show ?thesis using Cons.IH [OF q(3) w'(3)] False e by (simp del: fun_upd_apply)
  next
    case True
    show ?thesis
    proof (cases "deliver (snd (content q)) (user w)")
      case (Inl err)
      then show ?thesis using refuse [OF Cons.prems(2) q(1,2) True] True e by simp
    next
      case (Inr u)
      then obtain w' where w': "feed w f = Inr w'" "user w' = u" "holds w' (S(q := {}))"
        using complete [OF Cons.prems(2) q(1,2) True] by blast
      then show ?thesis using Cons.IH [OF q(3) w'(3)] Inr True e by (simp del: fun_upd_apply)
    qed
  qed
qed simp

text \<open>The frames of one package that leave a slice missing.\<close>

lemma feed_some:
  assumes "list_all2 (\<lambda>i. arrival_frame mp content (q, i)) ids fs" and "q \<in> keys" and "holds w S"
    and "S q \<subseteq> {..fst (content q)}" and "S q \<union> set ids \<noteq> {..fst (content q)}"
  shows "\<exists>w'. foldE feed w fs = Inr w' \<and> user w' = user w \<and> holds w' (S(q := S q \<union> set ids))"
  using assms
proof (induction ids fs arbitrary: w S rule: list_all2_induct)
  case Nil
  then show ?case by (auto simp: fun_upd_idem simp del: fun_upd_apply)
next
  case (Cons i ids f fs)
  have ids: "set ids \<subseteq> {..fst (content q)}"
    using Cons.hyps(2) by (cases q) (auto simp: list_all2_conv_all_nth in_set_conv_nth arrival_frame_def)
  have i: "i \<le> fst (content q)" using Cons.hyps(1) by (cases q) (simp add: arrival_frame_def)
  then have "insert i (S q) \<noteq> {..fst (content q)}" using Cons.prems(3,4) ids by auto
  then obtain w1 where w1: "feed w f = Inr w1" "user w1 = user w" "holds w1 (S(q := insert i (S q)))"
    using slice [OF Cons.prems(2,1) Cons.hyps(1)] by blast
  have upd: "(S(q := insert i (S q)))(q := X) = S(q := X)" for X by simp
  show ?case
    using Cons.IH [OF Cons.prems(1) w1(3)] w1(1,2) i Cons.prems(3,4)
    by (simp add: upd Un_insert_left del: fun_upd_apply) (simp add: Un_insert_left)
qed

end

end
