(* ===== verification/Cpp_Rx.thy ===== *)
theory Cpp_Rx
  imports Coordinator Interleaving
begin

text \<open>
  \<^bold>\<open>src/cpp/customdata-protobuf-rx.cpp\<close> and \<^bold>\<open>customdata-protobuf-rx.hpp\<close>: the decoder of
  the C++ binding on top of its \<open>Coordinator\<close>. It keeps a slot for every sender and package
  number, so that the frames of many packages may arrive mixed. protobuf is a parameter: a parser
  that gives a message or fails.
\<close>

section \<open>The decoder\<close>

text \<open>
  \<open>RxDecoder_parse\<close> is \<open>_prototype.New\<close> with \<open>ParseFromArray\<close>; the observer works on
  the state \<open>'u\<close> it captured. \<open>arena_messages\<close> counts the messages that \<open>New\<close> has put on the
  decoder's arena, which frees them only when it is destroyed itself.
\<close>

record ('m, 'u) RxDecoder =
  RxDecoder_config :: mp_config
  RxDecoder_parse :: "u8 list \<Rightarrow> 'm option"
  RxDecoder_observer :: "'m \<Rightarrow> 'u \<Rightarrow> 'u res"

record 'u decoder_world =
  coordinator_table :: Coordinator
  arena_messages :: nat
  observed :: 'u

definition new_RxDecoder ::
    "int \<Rightarrow> ('m \<Rightarrow> 'u \<Rightarrow> 'u res) \<Rightarrow> (u8 list \<Rightarrow> 'm option) \<Rightarrow> sender_meta list \<Rightarrow> 'u \<Rightarrow>
      ('m, 'u) RxDecoder \<times> 'u decoder_world" where
  "new_RxDecoder tu observer parse metas u =
     (\<lparr> RxDecoder_config = \<lparr> transmission_unit = of_int tu \<rparr>, RxDecoder_parse = parse,
        RxDecoder_observer = observer \<rparr>,
      \<lparr> coordinator_table = new_Coordinator metas, arena_messages = 0, observed = u \<rparr>)"

text \<open>Parsing the bytes of a package and telling the observer; a message that does not parse is
  dropped.\<close>

definition deliver_message :: "('m, 'u) RxDecoder \<Rightarrow> u8 list \<Rightarrow> 'u \<Rightarrow> 'u res" where
  "deliver_message d bytes u =
     (case RxDecoder_parse d bytes of None \<Rightarrow> Inr u | Some msg \<Rightarrow> RxDecoder_observer d msg u)"

text \<open>
  The view of the package's bytes has to reach the end of the package; the code asserts it, and
  reads past the view when assertions are off. Both are \<open>Out_Of_Bounds\<close>. The events are the four of
  the enum, so that the \<open>throw\<close> of the default branch has no counterpart.
\<close>

definition RxDecoder_Push ::
    "('m, 'u) RxDecoder \<Rightarrow> 'u decoder_world \<Rightarrow> u8 list \<Rightarrow> 'u decoder_world res" where
  "RxDecoder_Push d w block =
     (if length block < MP_HEADER_SIZE then Inr w
      else
        let hdr = mp_header_unpack (MP_ARRAY_TO_PACKED_HEADER block);
            max_payload = mp_max_payload (RxDecoder_config d);
            payload_size = (of_nat (min (unat (slice_payload_size hdr))
              (length block - MP_HEADER_SIZE)) :: u16);
            payload = take (unat payload_size) (drop MP_HEADER_SIZE block);
            coord = mp_rx_header_to_coordinate (RxDecoder_config d) hdr;
            table1 = gc_hook (coordinator_table w) (coord_sender_id coord) (coord_package_id coord)
        in case get_state table1 coord of (state, table2) \<Rightarrow>
          bindE (mp_rx_calc_slice_step state (slice_serial hdr) payload_size max_payload
              (eop hdr \<noteq> 0)) (\<lambda>inst.
            if inst_event inst = MP_RX_STREAM_DUPLICATE
            then Inr (w\<lparr> coordinator_table := table2 \<rparr>)
            else
              let table3 = (if payload_size > 0 then put_payload table2 coord payload else table2);
                  table4 = set_state table3 coord (next_state inst)
              in if inst_event inst = MP_RX_STREAM_COMPLETE
              then
                let normalized_coord = coord\<lparr> coord_offset := 0 \<rparr>;
                    end_at = unat (termination_at (next_state inst))
                in bindE (get_payload table4 normalized_coord) (\<lambda>(payload_view, table5).
                  if length payload_view < end_at then Inl Out_Of_Bounds
                  else
                    bindE (deliver_message d (take end_at payload_view) (observed w)) (\<lambda>u.
                      Inr (w\<lparr> coordinator_table := set_state table5 normalized_coord zero_state,
                              arena_messages := Suc (arena_messages w), observed := u \<rparr>)))
              else Inr (w\<lparr> coordinator_table := table4 \<rparr>)))"

text \<open>The blocks pushed one after the other.\<close>

definition push_blocks ::
    "('m, 'u) RxDecoder \<Rightarrow> 'u decoder_world \<Rightarrow> u8 list list \<Rightarrow> 'u decoder_world res" where
  "push_blocks d = foldE (RxDecoder_Push d)"

section \<open>What the table holds\<close>

text \<open>The slices \<open>S\<close> of a package in a vector.\<close>

definition slices_held :: "u16 \<Rightarrow> nat \<Rightarrow> u8 list \<Rightarrow> nat set \<Rightarrow> u8 list \<Rightarrow> bool" where
  "slices_held mp k bytes S m \<longleftrightarrow>
     (\<forall>i\<in>S. take (unat (slice_len mp k (length bytes) i)) (drop (i * unat mp) m) =
        slice_bytes mp k bytes i)"

lemma slices_held_write:
  assumes ok: "package_ok mp k (length bytes)" and S: "S \<subseteq> {..k}" and i: "i \<le> k" "i \<notin> S"
    and held: "slices_held mp k bytes S m"
  shows "slices_held mp k bytes (insert i S)
    (vector_write m (i * unat mp) (slice_bytes mp k bytes i))"
proof -
  let ?len = "\<lambda>j. unat (slice_len mp k (length bytes) j)" and ?d = "slice_bytes mp k bytes i"
  have d: "length ?d = ?len i" by (rule length_slice_bytes(1) [OF ok i(1)])
  have "take (?len j) (drop (j * unat mp) (vector_write m (i * unat mp) ?d)) = slice_bytes mp k bytes j"
    if j: "j \<in> S" for j
  proof (cases "?len j = 0")
    case True
    then show ?thesis by (simp add: slice_bytes_def)
  next
    case False
    have jk: "j \<le> k" "j \<noteq> i" using j S i by auto
    have at: "take (?len j) (drop (j * unat mp) m) = slice_bytes mp k bytes j"
      using held j by (simp add: slices_held_def)
    then have "length (take (?len j) (drop (j * unat mp) m)) = ?len j"
      using length_slice_bytes(1) [OF ok jk(1)] by simp
    then have "j * unat mp + ?len j \<le> length m" using False by simp
    moreover have "j * unat mp + ?len j \<le> i * unat mp \<or> i * unat mp + length ?d \<le> j * unat mp"
      using slices_apart [OF ok jk(1) i(1) jk(2), of 0 0] slice_offset_package(2) [OF ok jk(1)]
        slice_offset_package(2) [OF ok i(1)]
      by (simp add: apart_def d unat_u16_of_nat del: of_nat_mult)
    ultimately show ?thesis using at by (simp add: vector_write_other)
  qed
  moreover have "take (?len i) (drop (i * unat mp) (vector_write m (i * unat mp) ?d)) = ?d"
    using vector_write_same [of ?d "i * unat mp" m] by (simp add: d)
  ultimately show ?thesis by (simp add: slices_held_def)
qed

text \<open>
  What a slot holds while the slices \<open>X\<close> of a package have come, and the whole table. The
  numbers of the packages of one sender that are mixed lie within 127 of each other, so that the
  generation of the sender does not change while one of them is unfinished.
\<close>

definition key_coord :: "package_key \<Rightarrow> mp_coordinate" where
  "key_coord q = slice_coord (fst q) (snd q) 0 0"

definition package_held :: "u16 \<Rightarrow> nat \<times> u8 list \<Rightarrow> nat set \<Rightarrow> Slot \<Rightarrow> bool" where
  "package_held mp c X slot \<longleftrightarrow>
     package_view mp (fst c) (length (snd c)) X (slot_state slot) \<and>
     slices_held mp (fst c) (snd c) X (slot_data slot)"

definition keys_ok :: "u16 \<Rightarrow> package_key set \<Rightarrow> contents \<Rightarrow> bool" where
  "keys_ok mp keys content \<longleftrightarrow>
     (\<forall>q\<in>keys. package_ok mp (fst (content q)) (length (snd (content q))) \<and> wire_ok mp (fst q)) \<and>
     (\<forall>q\<in>keys. \<forall>r\<in>keys. fst q = fst r \<longrightarrow> unat (snd r) \<le> unat (snd q) + 127)"

definition table_holds ::
    "u16 \<Rightarrow> package_key set \<Rightarrow> contents \<Rightarrow> Coordinator \<Rightarrow> (package_key \<Rightarrow> nat set) \<Rightarrow> bool" where
  "table_holds mp keys content T S \<longleftrightarrow>
     table_wf T \<and>
     (\<forall>q\<in>keys. slot_live T (key_coord q) \<and>
        package_held mp (content q) (S q) (slot_at T (key_coord q)) \<and>
        (S q \<noteq> {} \<longrightarrow> (fst q, meta_pkg (sender_metas T ! unat (fst q))) \<in> keys))"

lemma key_coord_simps [simp]:
  "coord_sender_id (key_coord q) = fst q" "coord_package_id (key_coord q) = snd q"
  "same_package (key_coord q) (key_coord r) \<longleftrightarrow> q = r"
  "same_package (slice_coord s p mp i) (key_coord (s, p))"
  by (auto simp: key_coord_def same_package_def prod_eq_iff)

lemma package_held_empty:
  assumes "package_ok mp (fst c) (length (snd c))" and "slot_state slot = zero_state"
  shows "package_held mp c {} slot"
  using assms view_zero by (auto simp: package_held_def slices_held_def)

lemma view_received:
  "package_view mp k L S st \<Longrightarrow> 0 < received_count st \<Longrightarrow> S \<noteq> {}"
  by (auto simp: package_view_def word_less_nat_alt)

lemma keys_senders: "keys_ok mp keys content \<Longrightarrow> q \<in> keys \<Longrightarrow> fst q < 8"
  by (auto simp: keys_ok_def wire_ok_def)

text \<open>The hook leaves alone every slot that is in use.\<close>

lemma keys_live_gc_hook:
  assumes keys: "keys_ok mp keys content" and holds: "table_holds mp keys content T S"
    and q: "q \<in> keys" and r: "r \<in> keys"
  shows "slot_live (gc_hook T (fst q) (snd q)) (key_coord r)"
proof (rule slot_live_gc_hook)
  show "table_wf T" "slot_live T (key_coord r)" using holds r by (auto simp: table_holds_def)
  show "fst q < 8" using keys q by (rule keys_senders)
next
  assume same: "coord_sender_id (key_coord r) = fst q"
    and cnt: "received_count (slot_state (slot_at T (key_coord r))) > 0"
  have "package_held mp (content r) (S r) (slot_at T (key_coord r))"
    using holds r by (simp add: table_holds_def)
  then have "package_view mp (fst (content r)) (length (snd (content r))) (S r)
      (slot_state (slot_at T (key_coord r)))"
    by (simp add: package_held_def)
  then have "S r \<noteq> {}" using cnt by (rule view_received)
  then have "(fst q, meta_pkg (sender_metas T ! unat (fst q))) \<in> keys"
    using holds r same by (auto simp: table_holds_def)
  then show "\<not> unat (snd q) + 127 < unat (meta_pkg (sender_metas T ! unat (fst q)))"
    using keys q unfolding keys_ok_def by fastforce
qed

lemma table_holds_store:
  assumes keys: "keys_ok mp keys content" and holds: "table_holds mp keys content T S"
    and q: "q \<in> keys" and slot: "package_held mp (content q) X slot"
  defines "T1 \<equiv> gc_hook T (fst q) (snd q)"
  assumes gen: "slot_gen slot = meta_gen (sender_metas T1 ! unat (fst q))"
  shows "table_holds mp keys content (slot_put T1 (key_coord q) slot) (S(q := X))"
proof -
  have wf: "table_wf T" "table_wf T1" using holds by (simp_all add: table_holds_def T1_def gc_hook_wf)
  have s: "fst r < 8" if "r \<in> keys" for r using keys that by (rule keys_senders)
  have metas: "meta_pkg (sender_metas T1 ! unat t) =
      (if t = fst q then snd q else meta_pkg (sender_metas T ! unat t))" for t
    using gc_hook_metas [OF wf(1) s [OF q], of "snd q" t] by (simp add: T1_def)
  have key: "slot_live (slot_put T1 (key_coord q) slot) (key_coord r) \<and>
      package_held mp (content r) ((S(q := X)) r) (slot_at (slot_put T1 (key_coord q) slot) (key_coord r)) \<and>
      ((S(q := X)) r \<noteq> {} \<longrightarrow> (fst r, meta_pkg (sender_metas T1 ! unat (fst r))) \<in> keys)"
    if r: "r \<in> keys" for r
  proof (intro conjI impI)
    show "slot_live (slot_put T1 (key_coord q) slot) (key_coord r)"
      using s [OF q] s [OF r] gen keys_live_gc_hook [OF keys holds q r]
      by (intro slot_live_put [OF wf(2)]) (simp_all add: T1_def)
    have "package_held mp (content r) (S r) (slot_at T (key_coord r))"
      using holds r by (simp add: table_holds_def)
    then show "package_held mp (content r) ((S(q := X)) r)
        (slot_at (slot_put T1 (key_coord q) slot) (key_coord r))"
      using slot_at_put [OF wf(2), of "key_coord q" "key_coord r" slot] s [OF q] s [OF r] slot
      by (auto simp: T1_def)
    assume ne: "(S(q := X)) r \<noteq> {}"
    show "(fst r, meta_pkg (sender_metas T1 ! unat (fst r))) \<in> keys"
    proof (cases "fst r = fst q")
      case True
      then show ?thesis using q metas [of "fst r"] by simp
    next
      case False
      then have "S r \<noteq> {}" using ne by (cases "r = q") simp_all
      then show ?thesis using holds r metas [of "fst r"] False by (auto simp: table_holds_def)
    qed
  qed
  have "bitmap_wf (slot_state slot)" using slot by (simp add: package_held_def package_view_def)
  then show ?thesis using key slot_put_wf [OF wf(2)] by (simp add: table_holds_def)
qed

section \<open>One block\<close>

text \<open>
  What any block does to the slot it names: the payload is written in place with the next state,
  and a complete package is delivered and its state emptied.
\<close>

definition block_header :: "u8 list \<Rightarrow> mp_header_meta" where
  "block_header block = mp_header_unpack (MP_ARRAY_TO_PACKED_HEADER block)"

definition block_payload :: "u8 list \<Rightarrow> u8 list" where
  "block_payload block =
     take (unat (slice_payload_size (block_header block))) (drop MP_HEADER_SIZE block)"

definition slot_store :: "u16 \<Rightarrow> u8 list \<Rightarrow> mp_rx_slice_state \<Rightarrow> Slot \<Rightarrow> Slot" where
  "slot_store off payload st slot =
     slot\<lparr> slot_data := vector_write (slot_data slot) (unat off) payload, slot_state := st \<rparr>"

lemma slot_store_simps [simp]:
  "slot_gen (slot_store off d st slot) = slot_gen slot"
  "slot_state (slot_store off d st slot) = st"
  "slot_data (slot_store off d st slot) = vector_write (slot_data slot) (unat off) d"
  "(slot_store off d st slot)\<lparr> slot_state := st' \<rparr> = slot_store off d st' slot"
  by (simp_all add: slot_store_def)

lemma block_sender: "hdr_sender_id (block_header block) < 8"
  using header_wf_truncate [of "block_header block"]
  by (simp add: header_wf_def block_header_def pack_unpack_bits flip: unpack_pack_fields)

lemma block_payload_size:
  "(of_nat (min (unat (slice_payload_size (block_header block))) (length block - MP_HEADER_SIZE)) :: u16) =
     of_nat (length (block_payload block))"
  "take (unat (of_nat (length (block_payload block)) :: u16)) (drop MP_HEADER_SIZE block) =
     block_payload block"
  "0 < (of_nat (length (block_payload block)) :: u16) \<longleftrightarrow> block_payload block \<noteq> []"
proof -
  have "length (block_payload block) < 65536"
    using unat_u16_less [of "slice_payload_size (block_header block)"]
    by (simp add: block_payload_def min_def del: unat_u16_less)
  then have n: "unat (of_nat (length (block_payload block)) :: u16) = length (block_payload block)"
    by (simp add: unat_u16_of_nat)
  show "(of_nat (min (unat (slice_payload_size (block_header block))) (length block - MP_HEADER_SIZE)) :: u16) =
      of_nat (length (block_payload block))"
    by (simp add: block_payload_def min.commute)
  show "take (unat (of_nat (length (block_payload block)) :: u16)) (drop MP_HEADER_SIZE block) =
      block_payload block"
    unfolding n by (simp add: block_payload_def min_def)
  show "0 < (of_nat (length (block_payload block)) :: u16) \<longleftrightarrow> block_payload block \<noteq> []"
    by (simp add: word_less_nat_alt n)
qed

lemma push_steps:
  assumes wf: "table_wf T" and c: "c = mp_rx_header_to_coordinate config (block_header block)"
  defines "T1 \<equiv> gc_hook T (coord_sender_id c) (coord_package_id c)"
  defines "slot \<equiv> slot_view T1 c" and "d \<equiv> block_payload block"
  shows "get_state T1 c = (slot_state slot, slot_put T1 c slot)"
    and "set_state (if 0 < (of_nat (length d) :: u16) then put_payload (slot_put T1 c slot) c d
        else slot_put T1 c slot) c st = slot_put T1 c (slot_store (coord_offset c) d st slot)"
    and "get_payload (slot_put T1 c (slot_store (coord_offset c) d st slot)) (c\<lparr> coord_offset := 0 \<rparr>) =
      Inr (slot_data (slot_store (coord_offset c) d st slot), slot_put T1 c (slot_store (coord_offset c) d st slot))"
    and "set_state (slot_put T1 c (slot_store (coord_offset c) d st slot)) (c\<lparr> coord_offset := 0 \<rparr>) st' =
      slot_put T1 c (slot_store (coord_offset c) d st' slot)"
proof -
  have s8: "coord_sender_id c < 8"
    using block_sender [of block] by (simp add: c mp_rx_header_to_coordinate_def Let_def)
  have wf1: "table_wf T1" using wf by (simp add: T1_def gc_hook_wf)
  let ?T2 = "slot_put T1 c slot" and ?norm = "c\<lparr> coord_offset := 0 \<rparr>"
  have wf2: "table_wf ?T2"
    unfolding slot_def using wf1 slot_view_wf [OF wf1 s8] by (rule slot_put_wf)
  have put_view: "slot_view (slot_put T1 c sl) e = sl"
    if "slot_gen sl = slot_gen slot" "same_package c e" for sl e
    using slot_view_put [OF wf1 s8, of e sl] that s8 by (simp add: same_package_def slot_def)
  show "set_state (if 0 < (of_nat (length d) :: u16) then put_payload ?T2 c d else ?T2) c st =
      slot_put T1 c (slot_store (coord_offset c) d st slot)"
    unfolding d_def using put_then_set [OF wf2 s8 block_payload_size(3), of block st] put_view [of slot c]
    by (simp add: slot_store_def same_package_def split del: if_split)
  have same: "same_package c ?norm" "same_package ?norm c" by (simp_all add: same_package_def)
  note norm = slot_put_cong [OF same(2)] same(1)
  let ?with = "\<lambda>st. slot_store (coord_offset c) d st slot"
  have view4: "slot_view (slot_put T1 c (?with st)) ?norm = ?with st" for st
    using put_view [of "?with st" ?norm] norm(2) by simp
  show "get_payload (slot_put T1 c (?with st)) ?norm =
      Inr (slot_data (?with st), slot_put T1 c (?with st))"
    by (simp add: get_payload_eq view4 norm(1))
  show "set_state (slot_put T1 c (?with st)) ?norm st' = slot_put T1 c (?with st')"
    by (simp add: set_state_eq view4 norm(1))
  show "get_state T1 c = (slot_state slot, ?T2)" by (simp add: get_state_eq slot_def)
qed

lemma push_block:
  fixes d :: "('m, 'u) RxDecoder"
  assumes wf: "table_wf (coordinator_table w)" and size: "MP_HEADER_SIZE \<le> length block"
  defines "c \<equiv> mp_rx_header_to_coordinate (RxDecoder_config d) (block_header block)"
  defines "T1 \<equiv> gc_hook (coordinator_table w) (coord_sender_id c) (coord_package_id c)"
  defines "slot \<equiv> slot_view T1 c"
  shows "RxDecoder_Push d w block =
    bindE (mp_rx_calc_slice_step (slot_state slot) (slice_serial (block_header block))
        (of_nat (length (block_payload block))) (mp_max_payload (RxDecoder_config d))
        (eop (block_header block) \<noteq> 0)) (\<lambda>inst.
      let stored = slot_store (coord_offset c) (block_payload block) (next_state inst) slot
      in if inst_event inst = MP_RX_STREAM_DUPLICATE
      then Inr (w\<lparr> coordinator_table := slot_put T1 c slot \<rparr>)
      else if inst_event inst = MP_RX_STREAM_COMPLETE
      then if length (slot_data stored) < unat (termination_at (next_state inst)) then Inl Out_Of_Bounds
        else bindE (deliver_message d (take (unat (termination_at (next_state inst))) (slot_data stored))
            (observed w)) (\<lambda>u.
          Inr (w\<lparr> coordinator_table := slot_put T1 c (stored\<lparr> slot_state := zero_state \<rparr>),
            arena_messages := Suc (arena_messages w), observed := u \<rparr>))
      else Inr (w\<lparr> coordinator_table := slot_put T1 c stored \<rparr>))"
proof -
  note steps = push_steps [OF wf c_def [THEN meta_eq_to_obj_eq], folded T1_def, folded slot_def]
  have short: "\<not> length block < MP_HEADER_SIZE" using size by simp
  show ?thesis
    unfolding RxDecoder_Push_def Let_def block_header_def [symmetric] block_payload_size(1,2)
      c_def [symmetric] T1_def [symmetric] steps(1) prod.case steps(2,3)
    using short by (simp only: if_False bindE_Inr prod.case steps(4) slot_store_simps(4))
qed

lemma carried_block:
  assumes "carries_slice mp s p k bytes i f" and "package_ok mp k (length bytes)" and "i \<le> k"
    and "wire_ok mp s"
  shows "block_header f = slice_header_of mp s p k bytes i"
    and "block_payload f = slice_bytes mp k bytes i"
    and "of_nat (length (slice_bytes mp k bytes i)) = slice_len mp k (length bytes) i"
proof -
  show hdr: "block_header f = slice_header_of mp s p k bytes i"
    using carried_header(2) [OF assms] by (simp add: block_header_def)
  show payload: "block_payload f = slice_bytes mp k bytes i"
    using assms(1) by (simp add: block_payload_def hdr carries_slice_def) (simp add: slice_header_of_def)
  show "of_nat (length (slice_bytes mp k bytes i)) = slice_len mp k (length bytes) i"
    using length_slice_bytes(1) [OF assms(2,3)] by simp
qed

lemma carried_key:
  assumes "carries_slice mp s p k bytes i f" and "package_ok mp k (length bytes)" and "i \<le> k"
    and "wire_ok mp s"
  shows "MP_HEADER_SIZE \<le> length f \<and> hdr_sender_id (block_header f) = s \<and>
    package_serial (block_header f) = p"
  unfolding carried_block(1) [OF assms] using assms(1) by (simp add: carries_slice_def slice_header_of_def)

text \<open>A frame of a package the table holds.\<close>

lemma held_after_hook:
  assumes keys: "keys_ok mp keys content" and holds: "table_holds mp keys content T S"
    and q: "q \<in> keys"
  shows "package_held mp (content q) (S q) (slot_view (gc_hook T (fst q) (snd q)) (key_coord q))"
proof -
  have "package_held mp (content q) (S q) (slot_at T (key_coord q))"
    using holds q by (simp add: table_holds_def)
  then show ?thesis
    by (simp add: slot_view_live [OF keys_live_gc_hook [OF keys holds q q]] package_held_def)
qed

text \<open>
  Such a frame: where it is stored, its step, and that the vector holds the whole package when its
  last missing slice comes.
\<close>

lemma frame_facts:
  assumes keys: "keys_ok mp keys content" and holds: "table_holds mp keys content T S"
    and q: "q \<in> keys" and f: "arrival_frame mp content (q, i) f" and mp: "mp_max_payload config = mp"
  defines "T1 \<equiv> gc_hook T (fst q) (snd q)" and "c \<equiv> mp_rx_header_to_coordinate config (block_header f)"
  defines "slot \<equiv> slot_view T1 (key_coord q)" and "d \<equiv> block_payload f"
  obtains st' where "MP_HEADER_SIZE \<le> length f"
    "gc_hook T (coord_sender_id c) (coord_package_id c) = T1" "slot_view T1 c = slot"
    "\<And>sl. slot_put T1 c sl = slot_put T1 (key_coord q) sl"
    "mp_rx_calc_slice_step (slot_state slot) (slice_serial (block_header f)) (of_nat (length d)) mp
        (eop (block_header f) \<noteq> 0) =
      Inr \<lparr> inst_event = (if i \<in> S q then MP_RX_STREAM_DUPLICATE else slice_event (fst (content q)) (S q) i),
        next_state = st' \<rparr>"
    "package_view mp (fst (content q)) (length (snd (content q))) (insert i (S q)) st'"
    "i \<notin> S q \<Longrightarrow> slices_held mp (fst (content q)) (snd (content q)) (insert i (S q))
      (slot_data (slot_store (coord_offset c) d st' slot))"
    "i \<notin> S q \<Longrightarrow> insert i (S q) = {..fst (content q)} \<Longrightarrow>
      \<not> length (slot_data (slot_store (coord_offset c) d st' slot)) < unat (termination_at st') \<and>
      take (unat (termination_at st')) (slot_data (slot_store (coord_offset c) d st' slot)) = snd (content q)"
proof -
  obtain s p where sp: "q = (s, p)" by (cases q)
  obtain k bytes where ct: "content q = (k, bytes)" by (cases "content q")
  have ok: "package_ok mp k (length bytes)" and wire: "wire_ok mp s"
    using keys q ct sp by (auto simp: keys_ok_def)
  have i: "i \<le> k" and carry: "carries_slice mp s p k bytes i f"
    using f ct sp by (auto simp: arrival_frame_def)
  have "package_held mp (content q) (S q) slot"
    using held_after_hook [OF keys holds q] by (simp add: slot_def T1_def)
  then have view: "package_view mp k (length bytes) (S q) (slot_state slot)"
    and S: "S q \<subseteq> {..k}" and data: "slices_held mp k bytes (S q) (slot_data slot)"
    by (auto simp: package_held_def ct package_view_def)
  obtain st' where st': "step_package mp k (length bytes) (slot_state slot) i =
        Inr \<lparr> inst_event = (if i \<in> S q then MP_RX_STREAM_DUPLICATE else slice_event k (S q) i), next_state = st' \<rparr>"
      "package_view mp k (length bytes) (insert i (S q)) st'"
  proof (cases "i \<in> S q")
    case True
    then show ?thesis using that step_package_seen [OF ok view True] view by (simp add: insert_absorb)
  next
    case False
    then have "S q \<noteq> {..k}" using i by auto
    then show ?thesis using that step_package_refines [OF ok view _ i] False by auto
  qed
  have c: "c = slice_coord s p mp i"
    using header_to_slice_coord [OF ok i mp] by (simp add: c_def carried_block(1) [OF carry ok i wire])
  have d: "d = slice_bytes mp k bytes i" by (simp add: d_def carried_block(2) [OF carry ok i wire])
  let ?stored = "slot_store (coord_offset c) d st' slot"
  have off: "unat (coord_offset c) = i * unat mp"
    using slice_offset_package(2) [OF ok i] by (simp add: c unat_u16_of_nat del: of_nat_mult)
  have held': "slices_held mp k bytes (insert i (S q)) (slot_data ?stored)" if "i \<notin> S q"
    using slices_held_write [OF ok S i that data] off by (simp add: d)
  have whole: "\<not> length (slot_data ?stored) < unat (termination_at st') \<and>
      take (unat (termination_at st')) (slot_data ?stored) = bytes"
    if "i \<notin> S q" "insert i (S q) = {..k}"
    using slices_whole [OF ok, of "slot_data ?stored"] held' that st'(2)
    by (auto simp: slices_held_def package_view_def not_less)
  have same: "same_package c (key_coord q)" by (simp add: sp c)
  note cong = slot_put_cong [OF same] slot_view_cong [OF same, of T1, folded slot_def]
  have flds: "slice_serial (block_header f) = of_nat i" "eop (block_header f) \<noteq> 0 \<longleftrightarrow> i = k"
    by (simp_all add: carried_block(1) [OF carry ok i wire] slice_header_of_def)
  have step: "mp_rx_calc_slice_step (slot_state slot) (slice_serial (block_header f)) (of_nat (length d)) mp
      (eop (block_header f) \<noteq> 0) =
    Inr \<lparr> inst_event = (if i \<in> S q then MP_RX_STREAM_DUPLICATE else slice_event k (S q) i), next_state = st' \<rparr>"
    using st'(1) by (simp only: flds d carried_block(3) [OF carry ok i wire])
  show ?thesis
  proof (rule that [of st'])
    show "MP_HEADER_SIZE \<le> length f" using carry by (simp add: carries_slice_def)
    show "gc_hook T (coord_sender_id c) (coord_package_id c) = T1" by (simp add: T1_def c sp)
  qed (use cong step st'(2) held' whole in \<open>simp_all add: ct\<close>)
qed

lemma push_frame:
  assumes keys: "keys_ok mp keys content" and holds: "table_holds mp keys content (coordinator_table w) S"
    and q: "q \<in> keys" and f: "arrival_frame mp content (q, i) f"
    and mp: "mp_max_payload (RxDecoder_config d) = mp"
  defines "T1 \<equiv> gc_hook (coordinator_table w) (fst q) (snd q)"
  defines "slot \<equiv> slot_view T1 (key_coord q)"
  shows "\<exists>off d' st'. package_view mp (fst (content q)) (length (snd (content q))) (insert i (S q)) st' \<and>
      (i \<notin> S q \<longrightarrow> slices_held mp (fst (content q)) (snd (content q)) (insert i (S q))
        (slot_data (slot_store off d' st' slot))) \<and>
      RxDecoder_Push d w f =
        (if i \<in> S q then Inr (w\<lparr> coordinator_table := slot_put T1 (key_coord q) slot \<rparr>)
         else if insert i (S q) = {..fst (content q)}
         then bindE (deliver_message d (snd (content q)) (observed w)) (\<lambda>u. Inr (w\<lparr> coordinator_table :=
           slot_put T1 (key_coord q) (slot_store off d' zero_state slot),
           arena_messages := Suc (arena_messages w), observed := u \<rparr>))
         else Inr (w\<lparr> coordinator_table := slot_put T1 (key_coord q) (slot_store off d' st' slot) \<rparr>))"
proof -
  have wf: "table_wf (coordinator_table w)" using holds by (simp add: table_holds_def)
  let ?c = "mp_rx_header_to_coordinate (RxDecoder_config d) (block_header f)" and ?d = "block_payload f"
  obtain st' where facts: "MP_HEADER_SIZE \<le> length f"
      "gc_hook (coordinator_table w) (coord_sender_id ?c) (coord_package_id ?c) = T1" "slot_view T1 ?c = slot"
      "\<And>sl. slot_put T1 ?c sl = slot_put T1 (key_coord q) sl"
      "mp_rx_calc_slice_step (slot_state slot) (slice_serial (block_header f)) (of_nat (length ?d)) mp
        (eop (block_header f) \<noteq> 0) =
      Inr \<lparr> inst_event = (if i \<in> S q then MP_RX_STREAM_DUPLICATE else slice_event (fst (content q)) (S q) i),
        next_state = st' \<rparr>"
      "package_view mp (fst (content q)) (length (snd (content q))) (insert i (S q)) st'"
      "i \<notin> S q \<Longrightarrow> slices_held mp (fst (content q)) (snd (content q)) (insert i (S q))
        (slot_data (slot_store (coord_offset ?c) ?d st' slot))"
      "i \<notin> S q \<Longrightarrow> insert i (S q) = {..fst (content q)} \<Longrightarrow>
      \<not> length (slot_data (slot_store (coord_offset ?c) ?d st' slot)) < unat (termination_at st') \<and>
      take (unat (termination_at st')) (slot_data (slot_store (coord_offset ?c) ?d st' slot)) = snd (content q)"
    by (rule frame_facts [OF keys holds q f mp, folded T1_def, folded slot_def]) (rule that; assumption)
  show ?thesis
    using facts(6-8)
    by (intro exI [of _ "coord_offset ?c"] exI [of _ ?d] exI [of _ st'])
      (simp add: push_block [OF wf facts(1)] facts(2-5) mp Let_def slice_event_def del: slot_store_simps(3))
qed

section \<open>Any mixture of packages\<close>

definition cpp_holds ::
    "('m, 'u) RxDecoder \<Rightarrow> package_key set \<Rightarrow> contents \<Rightarrow> 'u decoder_world \<Rightarrow>
      (package_key \<Rightarrow> nat set) \<Rightarrow> bool" where
  "cpp_holds d keys content w S \<longleftrightarrow>
     keys_ok (mp_max_payload (RxDecoder_config d)) keys content \<and>
     table_holds (mp_max_payload (RxDecoder_config d)) keys content (coordinator_table w) S \<and>
     (\<forall>q\<in>keys. S q \<noteq> {..fst (content q)})"

lemma cpp_store:
  assumes "cpp_holds d keys content w S" and "q \<in> keys"
    and "package_held (mp_max_payload (RxDecoder_config d)) (content q) X sl" and "X \<noteq> {..fst (content q)}"
  defines "T1 \<equiv> gc_hook (coordinator_table w) (fst q) (snd q)"
  assumes "slot_gen sl = slot_gen (slot_view T1 (key_coord q))"
    and "coordinator_table w' = slot_put T1 (key_coord q) sl"
  shows "cpp_holds d keys content w' (S(q := X))"
  using assms table_holds_store [of "mp_max_payload (RxDecoder_config d)" keys content "coordinator_table w" S q X sl]
  by (simp add: cpp_holds_def)

lemma cpp_frame:
  assumes holds: "cpp_holds d keys content w S" and q: "q \<in> keys"
    and f: "arrival_frame (mp_max_payload (RxDecoder_config d)) content (q, i) f"
  shows "insert i (S q) \<noteq> {..fst (content q)} \<Longrightarrow>
      \<exists>T. RxDecoder_Push d w f = Inr (w\<lparr> coordinator_table := T \<rparr>) \<and>
        cpp_holds d keys content (w\<lparr> coordinator_table := T \<rparr>) (S(q := insert i (S q)))"
    and "insert i (S q) = {..fst (content q)} \<Longrightarrow>
      \<exists>T. RxDecoder_Push d w f = bindE (deliver_message d (snd (content q)) (observed w))
          (\<lambda>u. Inr (w\<lparr> coordinator_table := T, arena_messages := Suc (arena_messages w), observed := u \<rparr>)) \<and>
        (\<forall>n u. cpp_holds d keys content (w\<lparr> coordinator_table := T, arena_messages := n, observed := u \<rparr>)
          (S(q := {})))"
proof -
  let ?mp = "mp_max_payload (RxDecoder_config d)" and ?k = "fst (content q)"
  let ?T1 = "gc_hook (coordinator_table w) (fst q) (snd q)"
  let ?slot = "slot_view ?T1 (key_coord q)"
  have keys: "keys_ok ?mp keys content" and table: "table_holds ?mp keys content (coordinator_table w) S"
    using holds by (simp_all add: cpp_holds_def)
  note held = held_after_hook [OF keys table q] and store = cpp_store [OF holds q]
  have sub: "S q \<subset> {..?k}"
    using held holds q by (auto simp: package_held_def package_view_def cpp_holds_def)
  obtain off d' st' where st': "package_view ?mp ?k (length (snd (content q))) (insert i (S q)) st'"
      "i \<notin> S q \<longrightarrow> slices_held ?mp ?k (snd (content q)) (insert i (S q)) (slot_data (slot_store off d' st' ?slot))"
    and push: "RxDecoder_Push d w f =
        (if i \<in> S q then Inr (w\<lparr> coordinator_table := slot_put ?T1 (key_coord q) ?slot \<rparr>)
         else if insert i (S q) = {..?k}
         then bindE (deliver_message d (snd (content q)) (observed w)) (\<lambda>u. Inr (w\<lparr> coordinator_table :=
           slot_put ?T1 (key_coord q) (slot_store off d' zero_state ?slot),
           arena_messages := Suc (arena_messages w), observed := u \<rparr>))
         else Inr (w\<lparr> coordinator_table := slot_put ?T1 (key_coord q) (slot_store off d' st' ?slot) \<rparr>))"
    using push_frame [OF keys table q f refl] by blast
  {
    assume more: "insert i (S q) \<noteq> {..?k}"
    define sl where "sl = (if i \<in> S q then ?slot else slot_store off d' st' ?slot)"
    have "package_held ?mp (content q) (insert i (S q)) sl"
      using held st' more f sub by (auto simp: sl_def package_held_def arrival_frame_def insert_absorb)
    from store [OF this more] show "\<exists>T. RxDecoder_Push d w f = Inr (w\<lparr> coordinator_table := T \<rparr>) \<and>
        cpp_holds d keys content (w\<lparr> coordinator_table := T \<rparr>) (S(q := insert i (S q)))"
      using more push
      by (intro exI [of _ "slot_put ?T1 (key_coord q) sl"]) (simp add: sl_def)
  next
    assume all: "insert i (S q) = {..?k}"
    let ?sl = "slot_store off d' zero_state ?slot"
    have "package_held ?mp (content q) {} ?sl"
      using keys q by (intro package_held_empty) (simp_all add: keys_ok_def)
    moreover have "i \<notin> S q" using all sub by (auto simp: insert_absorb)
    ultimately show "\<exists>T. RxDecoder_Push d w f = bindE (deliver_message d (snd (content q)) (observed w))
          (\<lambda>u. Inr (w\<lparr> coordinator_table := T, arena_messages := Suc (arena_messages w), observed := u \<rparr>)) \<and>
        (\<forall>n u. cpp_holds d keys content (w\<lparr> coordinator_table := T, arena_messages := n, observed := u \<rparr>)
          (S(q := {})))"
      using store [of "{}" ?sl] all push
      by (intro exI [of _ "slot_put ?T1 (key_coord q) ?sl"]) simp
  }
qed

interpretation cpp_rx: package_table "RxDecoder_Push d" observed "deliver_message d"
  "mp_max_payload (RxDecoder_config d)" keys content "cpp_holds d keys content"
  for d :: "('m, 'u) RxDecoder" and keys :: "package_key set" and content :: contents
proof unfold_locales
  fix w S q i f
  assume *: "cpp_holds d keys content w S" "q \<in> keys"
    "arrival_frame (mp_max_payload (RxDecoder_config d)) content (q, i) f"
  show "\<exists>w'. RxDecoder_Push d w f = Inr w' \<and> observed w' = observed w \<and>
      cpp_holds d keys content w' (S(q := insert i (S q)))" if "insert i (S q) \<noteq> {..fst (content q)}"
    using cpp_frame(1) [OF * that] by auto
  show "\<exists>w'. RxDecoder_Push d w f = Inr w' \<and> observed w' = u \<and> cpp_holds d keys content w' (S(q := {}))"
    if "insert i (S q) = {..fst (content q)}" "deliver_message d (snd (content q)) (observed w) = Inr u" for u
    using cpp_frame(2) [OF * that(1)] that(2) by auto
  show "RxDecoder_Push d w f = Inl e"
    if "insert i (S q) = {..fst (content q)}" "deliver_message d (snd (content q)) (observed w) = Inl e" for e
    using cpp_frame(2) [OF * that(1)] that(2) by auto
qed

text \<open>The same with the messages on the arena counted.\<close>

definition deliver_counting :: "('m, 'u) RxDecoder \<Rightarrow> u8 list \<Rightarrow> 'u \<times> nat \<Rightarrow> ('u \<times> nat) res" where
  "deliver_counting d bytes un = bindE (deliver_message d bytes (fst un)) (\<lambda>u. Inr (u, Suc (snd un)))"

interpretation cpp_arena: package_table "RxDecoder_Push d" "\<lambda>w. (observed w, arena_messages w)"
  "deliver_counting d" "mp_max_payload (RxDecoder_config d)" keys content "cpp_holds d keys content"
  for d :: "('m, 'u) RxDecoder" and keys :: "package_key set" and content :: contents
proof unfold_locales
  fix w S q i f
  assume *: "cpp_holds d keys content w S" "q \<in> keys"
    "arrival_frame (mp_max_payload (RxDecoder_config d)) content (q, i) f"
  let ?deliver = "deliver_counting d (snd (content q)) (observed w, arena_messages w)"
  show "\<exists>w'. RxDecoder_Push d w f = Inr w' \<and>
      (observed w', arena_messages w') = (observed w, arena_messages w) \<and>
      cpp_holds d keys content w' (S(q := insert i (S q)))" if "insert i (S q) \<noteq> {..fst (content q)}"
    using cpp_frame(1) [OF * that] by auto
  show "\<exists>w'. RxDecoder_Push d w f = Inr w' \<and> (observed w', arena_messages w') = un \<and>
      cpp_holds d keys content w' (S(q := {}))"
    if "insert i (S q) = {..fst (content q)}" "?deliver = Inr un" for un
    using cpp_frame(2) [OF * that(1)] that(2) by (auto simp: deliver_counting_def bindE_eq_Inr)
  show "RxDecoder_Push d w f = Inl e"
    if "insert i (S q) = {..fst (content q)}" "?deliver = Inl e" for e
    using cpp_frame(2) [OF * that(1)] that(2)
    by (cases "deliver_message d (snd (content q)) (observed w)") (auto simp: deliver_counting_def)
qed

lemma deliver_counting_all:
  "deliver_all (deliver_counting d) (u, n) bs =
    bindE (deliver_all (deliver_message d) u bs) (\<lambda>u'. Inr (u', n + length bs))"
proof (induction bs arbitrary: u n)
  case (Cons b bs)
  then show ?case
    by (cases "deliver_message d b u") (simp_all add: deliver_counting_def)
qed simp

lemma push_arena: "RxDecoder_Push d w block = Inr w' \<Longrightarrow> arena_messages w \<le> arena_messages w'"
  by (auto simp: RxDecoder_Push_def Let_def bindE_eq_Inr split: if_splits prod.splits)

lemma pushes_arena: "push_blocks d w blocks = Inr w' \<Longrightarrow> arena_messages w \<le> arena_messages w'"
  unfolding push_blocks_def
proof (induction blocks arbitrary: w)
  case (Cons b bs)
  then obtain w1 where "RxDecoder_Push d w b = Inr w1" "foldE (RxDecoder_Push d) w1 bs = Inr w'"
    by (auto simp: bindE_eq_Inr)
  then show ?case using push_arena Cons.IH le_trans by blast
qed simp

lemma new_decoder_slots:
  assumes "length metas = 8" and "new_RxDecoder tu observer parse metas u = (d, w)"
  shows "table_wf (coordinator_table w)" and "observed w = u"
    and "coord_sender_id c < 8 \<Longrightarrow> slot_at (coordinator_table w) c = empty_slot"
proof -
  have table: "coordinator_table w = new_Coordinator metas" and "observed w = u"
    using assms(2) by (auto simp: new_RxDecoder_def)
  have size: "2 ^ (MP_SENDER_ID_BITS + MP_PACKAGE_ID_BITS) = (2048 :: nat)"
    by (simp add: MP_SENDER_ID_BITS_def MP_PACKAGE_ID_BITS_def)
  show "table_wf (coordinator_table w)"
    using assms(1) by (auto simp: table table_wf_def new_Coordinator_def size empty_slot_def)
  show "slot_at (coordinator_table w) c = empty_slot" if "coord_sender_id c < 8"
    using slot_index_less [OF that] by (simp add: slot_at_def table new_Coordinator_def size)
  show "observed w = u" by fact
qed

lemma new_decoder_holds:
  assumes "length metas = 8" and "new_RxDecoder tu observer parse metas u = (d, w)"
    and "keys_ok (mp_max_payload (RxDecoder_config d)) keys content"
  shows "cpp_holds d keys content w (\<lambda>_. {})"
  using new_decoder_slots [OF assms(1,2)] keys_senders [OF assms(3)] assms(3) package_held_empty
  by (auto simp: cpp_holds_def table_holds_def slot_live_def empty_slot_def keys_ok_def)

text \<open>The frames of one package, in any order, up to the last missing one.\<close>

lemma decoder_delivers_package:
  assumes "length metas = 8" and "new_RxDecoder tu observer parse metas u = (d, w)"
    and "mp_max_payload (RxDecoder_config d) = mp" and "package_ok mp k (length bytes)" and "wire_ok mp s"
    and fs: "list_all2 (carries_slice mp s p k bytes) (ids @ [i]) fs"
    and ids: "set ids \<union> {i} = {..k}" "set ids \<noteq> {..k}"
  shows "bindE (push_blocks d w fs) (\<lambda>w'. Inr (observed w')) = deliver_message d bytes u"
proof -
  let ?content = "(\<lambda>_. (k, bytes)) :: contents"
  have keys: "keys_ok mp {(s, p)} ?content" using assms(4,5) by (simp add: keys_ok_def)
  note holds = new_decoder_holds [OF assms(1,2), of "{(s, p)}" ?content, unfolded assms(3), OF keys]
  have "\<forall>j\<in>set (ids @ [i]). j \<le> k" using ids(1) by auto
  then have "list_all2 (arrival_frame mp ?content) (map (Pair (s, p)) (ids @ [i])) fs"
    using fs by (intro arrivals_of_package) simp_all
  then have "bindE (push_blocks d w fs) (\<lambda>w'. Inr (observed w')) =
      deliver_all (deliver_message d) u (arrivals_run ?content (\<lambda>_. {}) (map (Pair (s, p)) (ids @ [i]) @ []))"
    using cpp_rx.feed_arrivals [of d ?content "map (Pair (s, p)) (ids @ [i])" fs, unfolded assms(3), OF _ _ holds]
      new_decoder_slots(2) [OF assms(1,2)]
    by (auto simp: push_blocks_def image_subset_iff)
  also have "arrivals_run ?content (\<lambda>_. {}) (map (Pair (s, p)) (ids @ [i]) @ []) = [bytes]"
    using arrivals_run_package [of ids i ?content "(s, p)" "\<lambda>_. {}" "[]"] ids by simp
  finally show ?thesis by simp
qed

section \<open>Any block at all\<close>

text \<open>Whatever a block holds, it changes no slot but the one of its package.\<close>

lemma push_block_table:
  assumes wf: "table_wf (coordinator_table w)" and size: "MP_HEADER_SIZE \<le> length block"
    and push: "RxDecoder_Push d w block = Inr w'"
  defines "c \<equiv> mp_rx_header_to_coordinate (RxDecoder_config d) (block_header block)"
  defines "T1 \<equiv> gc_hook (coordinator_table w) (coord_sender_id c) (coord_package_id c)"
  shows "\<exists>sl. coordinator_table w' = slot_put T1 c sl \<and> bitmap_wf (slot_state sl) \<and>
    slot_gen sl = meta_gen (sender_metas T1 ! unat (coord_sender_id c))"
proof -
  have s8: "coord_sender_id c < 8"
    using block_sender [of block] by (simp add: c_def mp_rx_header_to_coordinate_def Let_def)
  have wf1: "table_wf T1" using wf by (simp add: T1_def gc_hook_wf)
  note view = slot_view_wf [OF wf1 s8]
  obtain inst where inst: "mp_rx_calc_slice_step (slot_state (slot_view T1 c)) (slice_serial (block_header block))
        (of_nat (length (block_payload block))) (mp_max_payload (RxDecoder_config d))
        (eop (block_header block) \<noteq> 0) = Inr inst"
    using push unfolding push_block [OF wf size] c_def [symmetric] T1_def [symmetric]
    by (auto simp: bindE_eq_Inr)
  let ?st = "\<lambda>st. slot_store (coord_offset c) (block_payload block) st (slot_view T1 c)"
  have "bitmap_wf (next_state inst)" using calc_slice_step_wf [OF inst view] .
  moreover have "coordinator_table w' \<in> {slot_put T1 c (slot_view T1 c),
      slot_put T1 c (?st zero_state), slot_put T1 c (?st (next_state inst))}"
    using push inst unfolding push_block [OF wf size] c_def [symmetric] T1_def [symmetric]
    by (auto simp: bindE_eq_Inr Let_def split: if_splits)
  ultimately show ?thesis using view by fastforce
qed

lemma push_table_wf:
  assumes "table_wf (coordinator_table w)" and "RxDecoder_Push d w block = Inr w'"
  shows "table_wf (coordinator_table w')"
proof (cases "MP_HEADER_SIZE \<le> length block")
  case True
  then show ?thesis
    using push_block_table [OF assms(1) True assms(2)] slot_put_wf gc_hook_wf [OF assms(1)] by fastforce
next
  case False
  then show ?thesis using assms by (simp add: RxDecoder_Push_def)
qed

text \<open>A block made of a header and bytes behind it.\<close>

definition wire_block :: "mp_header_meta \<Rightarrow> u8 list \<Rightarrow> u8 list" where
  "wire_block h payload = MP_PACKED_HEADER_TO_ARRAY (mp_header_pack h) @ payload"

lemma wire_block_simps:
  assumes "header_wf h"
  shows "block_header (wire_block h payload) = h"
    and "block_payload (wire_block h payload) = take (unat (slice_payload_size h)) payload"
    and "MP_HEADER_SIZE \<le> length (wire_block h payload)"
proof -
  have "take MP_HEADER_SIZE (wire_block h payload) = MP_PACKED_HEADER_TO_ARRAY (mp_header_pack h)"
    by (simp add: wire_block_def MP_HEADER_SIZE_def)
  then show hdr: "block_header (wire_block h payload) = h"
    using header_wire_roundtrip [OF assms] array_to_packed_take [of "wire_block h payload"]
    by (simp add: block_header_def)
  show "block_payload (wire_block h payload) = take (unat (slice_payload_size h)) payload"
    by (simp add: block_payload_def hdr) (simp add: wire_block_def MP_HEADER_SIZE_def)
  show "MP_HEADER_SIZE \<le> length (wire_block h payload)"
    by (simp add: wire_block_def MP_HEADER_SIZE_def)
qed

text \<open>Blocks of other packages leave a slot alone.\<close>

lemma push_blocks_other:
  assumes "push_blocks d w fs = Inr w'" and "table_wf (coordinator_table w)" and "fst q < 8"
    and "\<forall>f\<in>set fs. MP_HEADER_SIZE \<le> length f \<and>
      (hdr_sender_id (block_header f), package_serial (block_header f)) \<noteq> q"
  shows "table_wf (coordinator_table w') \<and>
    slot_at (coordinator_table w') (key_coord q) = slot_at (coordinator_table w) (key_coord q)"
  using assms
proof (induction fs arbitrary: w)
  case (Cons f fs)
  obtain w1 where w1: "RxDecoder_Push d w f = Inr w1" "push_blocks d w1 fs = Inr w'"
    using Cons.prems(1) by (auto simp: push_blocks_def bindE_eq_Inr)
  have wf1: "table_wf (coordinator_table w1)" using push_table_wf [OF Cons.prems(2) w1(1)] .
  let ?c = "mp_rx_header_to_coordinate (RxDecoder_config d) (block_header f)"
  let ?T = "gc_hook (coordinator_table w) (coord_sender_id ?c) (coord_package_id ?c)"
  have c: "coord_sender_id ?c < 8" "\<not> same_package ?c (key_coord q)"
    using block_sender [of f] Cons.prems(4)
    by (auto simp: mp_rx_header_to_coordinate_def Let_def same_package_def)
  obtain sl where "coordinator_table w1 = slot_put ?T ?c sl"
    using push_block_table [OF Cons.prems(2) _ w1(1)] Cons.prems(4) by auto
  then have "slot_at (coordinator_table w1) (key_coord q) = slot_at (coordinator_table w) (key_coord q)"
    using slot_at_put [OF gc_hook_wf [OF Cons.prems(2)] c(1)] Cons.prems(3) c(2) by simp
  then show ?case using Cons.IH [OF w1(2) wf1 Cons.prems(3)] Cons.prems(4) by simp
qed (simp add: push_blocks_def)

text \<open>A new decoder holds nothing of a package none of whose blocks have come.\<close>

lemma untouched_package_holds:
  assumes new: "new_RxDecoder tu observer parse metas u = (d, w)" "length metas = 8"
    and pushed: "push_blocks d w fs = Inr w'"
    and mp: "mp = mp_max_payload (RxDecoder_config d)" and wire: "wire_ok mp s"
    and ok: "package_ok mp k (length bytes)"
    and other: "\<forall>f\<in>set fs. MP_HEADER_SIZE \<le> length f \<and>
      (hdr_sender_id (block_header f), package_serial (block_header f)) \<noteq> (s, p)"
  shows "cpp_holds d {(s, p)} (\<lambda>_. (k, bytes)) w' (\<lambda>_. {})"
proof -
  have s8: "s < 8" using wire by (simp add: wire_ok_def)
  note new_slots = new_decoder_slots [OF new(2,1)]
  have "table_wf (coordinator_table w')" "slot_at (coordinator_table w') (key_coord (s, p)) = empty_slot"
    using push_blocks_other [OF pushed new_slots(1), of "(s, p)"] new_slots(3) s8 other by auto
  then show ?thesis
    using package_held_empty [of mp "(k, bytes)" empty_slot] ok wire
    by (simp add: cpp_holds_def table_holds_def keys_ok_def slot_live_def empty_slot_def mp)
qed

text \<open>A frame of a package whose slot was live when a much lower number came.\<close>

lemma push_after_wrap:
  assumes new: "new_RxDecoder tu observer parse metas u = (d, w)" "length metas = 8"
    and ok: "package_ok (mp_max_payload (RxDecoder_config d)) k (length bytes)"
    and wire: "wire_ok (mp_max_payload (RxDecoder_config d)) s"
    and fs: "list_all2 (carries_slice (mp_max_payload (RxDecoder_config d)) s p k bytes) ids fs"
    and ids: "set ids \<subset> {..k}" "0 \<in> set ids"
    and g: "MP_HEADER_SIZE \<le> length g" "hdr_sender_id (block_header g) = s"
      "unat (package_serial (block_header g)) + 127 < unat p"
    and f: "carries_slice (mp_max_payload (RxDecoder_config d)) s p k bytes i f" "i \<le> k"
    and pushed: "push_blocks d w (fs @ [g]) = Inr w2"
  shows "\<exists>w3. RxDecoder_Push d w2 f = Inr w3 \<and> observed w3 = observed w2"
proof -
  let ?mp = "mp_max_payload (RxDecoder_config d)" and ?q = "(s, p)" and ?content = "\<lambda>_. (k, bytes)"
  let ?c = "key_coord (s, p)" and ?cf = "slice_coord s p ?mp i"
  let ?cg = "mp_rx_header_to_coordinate (RxDecoder_config d) (block_header g)"
  have keys: "keys_ok ?mp {?q} ?content" using ok wire by (simp add: keys_ok_def)
  have s8: "s < 8" using wire by (simp add: wire_ok_def)
  have "list_all2 (\<lambda>i. arrival_frame ?mp ?content (?q, i)) ids fs"
    using fs ids(1) by (auto simp: arrival_frame_def list_all2_conv_all_nth subset_iff)
  then obtain w1 where w1: "push_blocks d w fs = Inr w1"
      "cpp_holds d {?q} ?content w1 ((\<lambda>_. {})(?q := set ids))"
    using cpp_rx.feed_some [OF _ _ new_decoder_holds [OF new(2,1) keys], of ?q ids fs] ids
    by (auto simp: push_blocks_def simp del: fun_upd_apply)
  have held: "package_held ?mp (k, bytes) (set ids) (slot_at (coordinator_table w1) ?c)"
      "slot_live (coordinator_table w1) ?c" "meta_pkg (sender_metas (coordinator_table w1) ! unat s) = p"
      "table_wf (coordinator_table w1)"
    using w1(2) ids(2) by (auto simp: cpp_holds_def table_holds_def)
  have "0 < card (set ids \<inter> {..<data_slices ?mp k (length bytes)})"
    using ids(2) package_okD(12) [OF ok] by (auto simp: card_gt_0_iff)
  then have cnt: "0 < received_count (slot_state (slot_at (coordinator_table w1) ?c))"
    using held(1) by (simp add: package_held_def package_view_def word_less_nat_alt)
  have cg: "coord_sender_id ?cg = s" "coord_package_id ?cg = package_serial (block_header g)"
    using g(2) by (simp_all add: mp_rx_header_to_coordinate_def Let_def)
  have push_g: "RxDecoder_Push d w1 g = Inr w2"
    using pushed w1(1) by (simp add: push_blocks_def foldE_append)
  obtain sl where w2: "bitmap_wf (slot_state sl)" "coordinator_table w2 =
      slot_put (gc_hook (coordinator_table w1) s (package_serial (block_header g))) ?cg sl"
    using push_block_table [OF held(4) g(1) push_g] by (auto simp: cg)
  have wf2: "table_wf (coordinator_table w2)" using push_table_wf [OF held(4) push_g] .
  have "slot_state (slot_view (gc_hook (coordinator_table w2) s p) ?c) = zero_state"
    using slot_view_after_wrap [of "coordinator_table w1" ?c ?cg sl] held(2-4) cnt s8 g(3) w2
    by (simp add: cg)
  then have zero: "slot_state (slot_view (gc_hook (coordinator_table w2) s p) ?cf) = zero_state"
    using slot_view_cong [of ?cf ?c] by simp
  have "0 < k" using ids by (cases k) auto
  then have k: "{} \<noteq> {..k}" "insert i {} \<noteq> {..k}" by auto
  then have ev: "slice_event k {} i \<noteq> MP_RX_STREAM_DUPLICATE" "slice_event k {} i \<noteq> MP_RX_STREAM_COMPLETE"
    by (simp_all add: slice_event_def)
  obtain st' where st': "step_package ?mp k (length bytes) zero_state i =
        Inr \<lparr> inst_event = slice_event k {} i, next_state = st' \<rparr>"
    using step_package_refines [OF ok view_zero [OF ok] k(1) f(2)] by blast
  have f': "MP_HEADER_SIZE \<le> length f" using f(1) by (simp add: carries_slice_def)
  note block = carried_block [OF f(1) ok f(2) wire]
  have "mp_rx_header_to_coordinate (RxDecoder_config d) (block_header f) = ?cf"
    unfolding block(1) by (rule header_to_slice_coord [OF ok f(2) refl])
  moreover have "slice_serial (block_header f) = of_nat i" "eop (block_header f) \<noteq> 0 \<longleftrightarrow> i = k"
    by (simp_all add: block(1) slice_header_of_def)
  ultimately show ?thesis
    using st' ev by (simp add: push_block [OF wf2 f'] block(2,3) zero Let_def)
qed

text \<open>Such a block, in terms of the slot that it finds.\<close>

abbreviation header_key :: "mp_header_meta \<Rightarrow> mp_coordinate" where
  "header_key h \<equiv> key_coord (hdr_sender_id h, package_serial h)"

abbreviation hooked :: "Coordinator \<Rightarrow> mp_header_meta \<Rightarrow> Coordinator" where
  "hooked T h \<equiv> gc_hook T (hdr_sender_id h) (package_serial h)"

lemma push_wire_block:
  fixes d :: "('m, 'u) RxDecoder"
  assumes wf: "table_wf (coordinator_table w)" and h: "header_wf h"
    and n: "unat (slice_payload_size h) = length payload"
  defines "mp \<equiv> mp_max_payload (RxDecoder_config d)"
  defines "T1 \<equiv> hooked (coordinator_table w) h"
  defines "slot \<equiv> slot_view T1 (header_key h)"
  shows "RxDecoder_Push d w (wire_block h payload) =
    bindE (mp_rx_calc_slice_step (slot_state slot) (slice_serial h) (slice_payload_size h) mp (eop h \<noteq> 0)) (\<lambda>inst.
      let stored = slot_store (mp_slice_idx_to_offset (slice_serial h) mp) payload (next_state inst) slot
      in if inst_event inst = MP_RX_STREAM_DUPLICATE
      then Inr (w\<lparr> coordinator_table := slot_put T1 (header_key h) slot \<rparr>)
      else if inst_event inst = MP_RX_STREAM_COMPLETE
      then if length (slot_data stored) < unat (termination_at (next_state inst)) then Inl Out_Of_Bounds
        else bindE (deliver_message d (take (unat (termination_at (next_state inst))) (slot_data stored))
            (observed w)) (\<lambda>u. Inr (w\<lparr> coordinator_table :=
              slot_put T1 (header_key h) (stored\<lparr> slot_state := zero_state \<rparr>),
              arena_messages := Suc (arena_messages w), observed := u \<rparr>))
      else Inr (w\<lparr> coordinator_table := slot_put T1 (header_key h) stored \<rparr>))"
proof -
  let ?c = "mp_rx_header_to_coordinate (RxDecoder_config d) h"
  have c: "coord_sender_id ?c = hdr_sender_id h" "coord_package_id ?c = package_serial h"
      "coord_offset ?c = mp_slice_idx_to_offset (slice_serial h) mp"
    by (simp_all add: mp_rx_header_to_coordinate_def Let_def mp_def)
  then have same: "same_package ?c (header_key h)" by (simp add: same_package_def)
  have "block_payload (wire_block h payload) = payload"
    using wire_block_simps(2) [OF h, of payload] n by simp
  moreover have "of_nat (length payload) = slice_payload_size h" by (simp flip: n)
  ultimately show ?thesis
    using push_block [OF wf wire_block_simps(3) [OF h], of d payload]
    unfolding wire_block_simps(1) [OF h] c slot_put_cong [OF same] slot_view_cong [OF same]
    by (simp only: mp_def T1_def slot_def)
qed

text \<open>A new slice that does not complete its package, as the next block of that package finds it.\<close>

lemma push_new_slice:
  assumes wf: "table_wf (coordinator_table w)" and h: "header_wf h"
    and n: "unat (slice_payload_size h) = length payload"
  defines "slot \<equiv> slot_view (hooked (coordinator_table w) h) (header_key h)"
  assumes step: "mp_rx_calc_slice_step (slot_state slot) (slice_serial h) (slice_payload_size h)
        (mp_max_payload (RxDecoder_config d)) (eop h \<noteq> 0) = Inr inst"
      "inst_event inst \<noteq> MP_RX_STREAM_DUPLICATE" "inst_event inst \<noteq> MP_RX_STREAM_COMPLETE"
  shows "\<exists>w'. RxDecoder_Push d w (wire_block h payload) = Inr w' \<and> table_wf (coordinator_table w') \<and>
    slot_view (hooked (coordinator_table w') h) (header_key h) =
      slot_store (mp_slice_idx_to_offset (slice_serial h) (mp_max_payload (RxDecoder_config d)))
        payload (next_state inst) slot"
proof -
  let ?T1 = "hooked (coordinator_table w) h" and ?c = "header_key h"
  have s8: "hdr_sender_id h < 8" using h by (simp add: header_wf_def)
  define sl where "sl = slot_store (mp_slice_idx_to_offset (slice_serial h)
    (mp_max_payload (RxDecoder_config d))) payload (next_state inst) slot"
  have push: "RxDecoder_Push d w (wire_block h payload) =
      Inr (w\<lparr> coordinator_table := slot_put ?T1 ?c sl \<rparr>)"
    using step by (simp add: push_wire_block [OF wf h n] slot_def sl_def)
  have wf1: "table_wf ?T1" using wf by (rule gc_hook_wf)
  have wf': "table_wf (slot_put ?T1 ?c sl)" using push_table_wf [OF wf push] by simp
  have "meta_pkg (sender_metas ?T1 ! unat (hdr_sender_id h)) = package_serial h"
    using gc_hook_metas [OF wf s8] by simp
  then have "slot_view (hooked (slot_put ?T1 ?c sl) h) ?c = slot_view (slot_put ?T1 ?c sl) ?c"
    using slot_view_gc_hook [OF wf' s8] by simp
  also have "\<dots> = sl"
    using slot_view_put [OF wf1, of ?c ?c sl] s8 by (simp add: sl_def slot_def)
  finally show ?thesis using push wf' by (simp add: sl_def)
qed

lemma new_decoder_found:
  assumes "length metas = 8" and "new_RxDecoder tu observer parse metas u = (d, w)" and "s < 8"
  shows "slot_state (slot_view (gc_hook (coordinator_table w) s p) (key_coord (s, p))) = zero_state"
    and "slot_data (slot_view (gc_hook (coordinator_table w) s p) (key_coord (s, p))) = []"
proof -
  have "slot_at (coordinator_table w) (key_coord (s, p)) = empty_slot"
    using new_decoder_slots(3) [OF assms(1,2)] assms(3) by simp
  then show "slot_state (slot_view (gc_hook (coordinator_table w) s p) (key_coord (s, p))) = zero_state"
      "slot_data (slot_view (gc_hook (coordinator_table w) s p) (key_coord (s, p))) = []"
    by (simp_all add: slot_view_eq gc_clock_hook_def Let_def empty_slot_def flip: slot_at_def)
qed

text \<open>The header of a slice that is not the last one.\<close>

definition plain_header :: "u8 \<Rightarrow> u8 \<Rightarrow> u8 \<Rightarrow> u16 \<Rightarrow> mp_header_meta" where
  "plain_header s p i n = \<lparr> package_serial = p, slice_serial = i, hdr_sender_id = s, eop = 0,
     slice_payload_size = n \<rparr>"

section \<open>An example\<close>

text \<open>Two packages, and a decoder whose observer collects the messages.\<close>

definition example_contents :: contents where
  "example_contents q = (if q = (2, 9) then (1, [1, 2, 3, 4, 5]) else (0, [7]))"

definition example_decoder :: "(u8 list, u8 list list) RxDecoder \<times> u8 list list decoder_world" where
  "example_decoder = new_RxDecoder 8 (\<lambda>msg seen. Inr (seen @ [msg])) Some
     (replicate 8 \<lparr> meta_pkg = 200, meta_gen = 3 \<rparr>) []"

lemma example_decoder_new:
  "new_RxDecoder 8 (\<lambda>msg seen. Inr (seen @ [msg])) Some
     (replicate 8 \<lparr> meta_pkg = 200, meta_gen = 3 \<rparr>) [] = (fst example_decoder, snd example_decoder)"
  by (simp add: example_decoder_def)

lemma example_decoder_payload: "mp_max_payload (RxDecoder_config (fst example_decoder)) = 4"
  by (simp add: example_decoder_def new_RxDecoder_def mp_max_payload_def MP_HEADER_SIZE_def)

section \<open>Properties\<close>

text \<open>C9: The C++ decoder delivers any mixture of packages rightly. The frames of many packages, of
  several senders, may be pushed in any order and with repetitions: from a new decoder, whatever its
  uninitialized table held, the messages the observer is given are exactly those of the packages
  whose slices have all come, in the order in which the last ones came, each parsed from the bytes
  of its package. The package numbers of one sender that are mixed lie within 127 of each other.\<close>

theorem decoder_delivers_mixture:
  assumes "new_RxDecoder tu observer parse metas u = (d, w)" and "length metas = 8"
    and "mp = mp_max_payload (RxDecoder_config d)" and "keys_ok mp keys content"
    and "list_all2 (arrival_frame mp content) es fs" and "fst ` set es \<subseteq> keys"
  shows "bindE (push_blocks d w fs) (\<lambda>w'. Inr (observed w')) =
    deliver_all (deliver_message d) u (arrivals_run content (\<lambda>_. {}) es)"
  using cpp_rx.feed_arrivals [OF assms(5) [unfolded assms(3)] assms(6)
      new_decoder_holds [OF assms(2,1) assms(4) [unfolded assms(3)]]]
  by (simp add: push_blocks_def new_decoder_slots(2) [OF assms(2,1)])

theorem decoder_delivers_mixture_witness:
  "bindE (push_blocks (fst example_decoder) (snd example_decoder)
      [slice_frame 4 2 9 1 [1, 2, 3, 4, 5] 1, slice_frame 4 2 10 0 [7] 0,
       slice_frame 4 2 9 1 [1, 2, 3, 4, 5] 1, slice_frame 4 2 9 1 [1, 2, 3, 4, 5] 0])
      (\<lambda>w. Inr (observed w)) = Inr [[7], [1, 2, 3, 4, 5]]"
proof -
  let ?es = "[((2, 9), 1), ((2, 10), 0), ((2, 9), 1), ((2, 9), 0)] :: (package_key \<times> nat) list"
  have a: "carries_slice 4 2 9 1 [1, 2, 3, 4, 5] i (slice_frame 4 2 9 1 [1, 2, 3, 4, 5] i)" if "i \<le> 1" for i
    using that by (intro slice_frame_carries(1)) (simp_all add: package_ok_def wire_ok_def)
  have b: "carries_slice 4 2 10 0 [7] 0 (slice_frame 4 2 10 0 [7] 0)"
    by (intro slice_frame_carries(1)) (simp_all add: package_ok_def wire_ok_def)
  note new = example_decoder_new and mp = example_decoder_payload [symmetric]
  have keys: "keys_ok 4 {(2, 9), (2, 10)} example_contents"
    by (auto simp: keys_ok_def example_contents_def package_ok_def wire_ok_def)
  have run: "arrivals_run example_contents (\<lambda>_. {}) ?es = [[7], [1, 2, 3, 4, 5]]"
  proof -
    have "{1} \<noteq> {..1 :: nat}" "{0, 1} = {..1 :: nat}" by (auto simp: atMost_Suc)
    then show ?thesis by (simp add: example_contents_def insert_commute)
  qed
  have "bindE (push_blocks (fst example_decoder) (snd example_decoder)
      [slice_frame 4 2 9 1 [1, 2, 3, 4, 5] 1, slice_frame 4 2 10 0 [7] 0,
       slice_frame 4 2 9 1 [1, 2, 3, 4, 5] 1, slice_frame 4 2 9 1 [1, 2, 3, 4, 5] 0])
      (\<lambda>w. Inr (observed w)) =
    deliver_all (deliver_message (fst example_decoder)) [] (arrivals_run example_contents (\<lambda>_. {}) ?es)"
    by (rule decoder_delivers_mixture [OF new _ mp keys])
      (auto simp: arrival_frame_def example_contents_def a [of 0, simplified] a [of 1, simplified] b)
  then show ?thesis
    unfolding run by (simp add: deliver_message_def example_decoder_def new_RxDecoder_def)
qed

text \<open>C32: The decoder's memory grows with every message. Each package that completes leaves a message on the
  arena, delivered or not, and nothing takes it off again: after a mixture of packages the arena
  holds as many messages as packages have completed, and whatever is pushed later it never holds
  fewer.\<close>

theorem arena_keeps_every_message:
  assumes "new_RxDecoder tu observer parse metas u = (d, w)" and "length metas = 8"
    and "mp = mp_max_payload (RxDecoder_config d)" and "keys_ok mp keys content"
    and "list_all2 (arrival_frame mp content) es fs" and "fst ` set es \<subseteq> keys"
    and "push_blocks d w fs = Inr w'"
  shows "arena_messages w' = length (arrivals_run content (\<lambda>_. {}) es) \<and>
    (\<forall>later w''. push_blocks d w' later = Inr w'' \<longrightarrow> arena_messages w' \<le> arena_messages w'')"
proof -
  have "arena_messages w = 0" using assms(1) by (auto simp: new_RxDecoder_def)
  then have "deliver_all (deliver_counting d) (observed w, 0) (arrivals_run content (\<lambda>_. {}) es) =
      Inr (observed w', arena_messages w')"
    using cpp_arena.feed_arrivals [OF assms(5) [unfolded assms(3)] assms(6)
        new_decoder_holds [OF assms(2,1) assms(4) [unfolded assms(3)]]] assms(7)
    by (simp add: push_blocks_def)
  then have "arena_messages w' = length (arrivals_run content (\<lambda>_. {}) es)"
    by (auto simp: deliver_counting_all bindE_eq_Inr)
  then show ?thesis using pushes_arena by blast
qed

theorem arena_keeps_every_message_witness:
  "\<exists>w'. push_blocks (fst example_decoder) (snd example_decoder)
      [slice_frame 4 2 9 0 [7] 0, slice_frame 4 2 9 0 [7] 0] = Inr w' \<and> arena_messages w' = 2"
proof -
  have f: "carries_slice 4 2 9 0 [7] 0 (slice_frame 4 2 9 0 [7] 0)"
    by (intro slice_frame_carries(1)) (simp_all add: package_ok_def wire_ok_def)
  let ?content = "\<lambda>_. (0, [7]) :: nat \<times> u8 list" and ?es = "[((2, 9), 0), ((2, 9), 0)] :: (package_key \<times> nat) list"
    and ?fs = "[slice_frame 4 2 9 0 [7] 0, slice_frame 4 2 9 0 [7] 0]"
  note new = example_decoder_new and mp = example_decoder_payload [symmetric]
  have keys: "keys_ok 4 {(2, 9)} ?content" by (auto simp: keys_ok_def package_ok_def wire_ok_def)
  have fs: "list_all2 (arrival_frame 4 ?content) ?es ?fs" using f by (simp add: arrival_frame_def)
  have run: "arrivals_run ?content (\<lambda>_. {}) ?es = [[7], [7]]" by (simp add: atMost_0)
  have "bindE (push_blocks (fst example_decoder) (snd example_decoder) ?fs) (\<lambda>w. Inr (observed w)) = Inr [[7], [7]]"
    using cpp_rx.feed_arrivals [of "fst example_decoder" ?content ?es ?fs "{(2, 9)}" "snd example_decoder" "\<lambda>_. {}"]
      fs new_decoder_holds [OF _ new, of "{(2, 9)}" ?content] keys new_decoder_slots(2) [OF _ new]
    by (simp add: push_blocks_def run example_decoder_payload deliver_message_def)
      (simp add: example_decoder_def new_RxDecoder_def)
  then obtain w' where w': "push_blocks (fst example_decoder) (snd example_decoder) ?fs = Inr w'"
    by (auto simp: bindE_eq_Inr)
  show ?thesis
    using arena_keeps_every_message [OF new _ mp keys fs _ w'] w' run by simp
qed

text \<open>C23: Any block whatsoever keeps the decoder's table well formed: 2048 slots and 8 sender entries,
  every slot's bitmap of eight words; and the slot and the sender entry that a block names lie in
  the table.\<close>

theorem decoder_table_stays_well_formed:
  assumes "table_wf (coordinator_table w)"
  shows "slot_index (mp_rx_header_to_coordinate (RxDecoder_config d) (block_header block)) <
      length (slots (coordinator_table w)) \<and>
    unat (hdr_sender_id (block_header block)) < length (sender_metas (coordinator_table w)) \<and>
    (\<forall>w'. RxDecoder_Push d w block = Inr w' \<longrightarrow> table_wf (coordinator_table w'))"
  using assms slot_index_less [of "mp_rx_header_to_coordinate (RxDecoder_config d) (block_header block)"]
    push_table_wf [OF assms] block_sender [of block]
  by (auto simp: table_wf_def word_less_nat_alt mp_rx_header_to_coordinate_def Let_def)

theorem decoder_table_stays_well_formed_witness:
  "\<exists>w'. RxDecoder_Push (fst example_decoder) (snd example_decoder) (slice_frame 4 2 10 0 [7] 0) = Inr w' \<and>
    table_wf (coordinator_table w')"
proof -
  let ?f = "slice_frame 4 2 10 0 [7] 0"
  have ok: "package_ok 4 0 (length [7 :: u8])" "wire_ok 4 2" by (simp_all add: package_ok_def wire_ok_def)
  then have "list_all2 (carries_slice 4 2 10 0 [7]) ([] @ [0]) [?f]"
    by (simp add: slice_frame_carries(1))
  from decoder_delivers_package [OF _ example_decoder_new example_decoder_payload ok this]
  have "bindE (RxDecoder_Push (fst example_decoder) (snd example_decoder) ?f) (\<lambda>w. Inr (observed w)) = Inr [[7]]"
    by (simp add: push_blocks_def deliver_message_def example_decoder_def new_RxDecoder_def)
  then obtain w' where w': "RxDecoder_Push (fst example_decoder) (snd example_decoder) ?f = Inr w'"
    by (cases "RxDecoder_Push (fst example_decoder) (snd example_decoder) ?f") auto
  have "table_wf (coordinator_table (snd example_decoder))"
    using new_decoder_slots(1) [OF _ example_decoder_new] by simp
  from decoder_table_stays_well_formed [OF this, of "fst example_decoder" ?f]
  show ?thesis using w' by blast
qed

lemma carried_keys:
  assumes "list_all2 (carries_slice mp s p k bytes) ids fs" "set ids \<subseteq> {..k}"
    and "package_ok mp k (length bytes)" "wire_ok mp s"
  shows "\<forall>h\<in>set fs. MP_HEADER_SIZE \<le> length h \<and> hdr_sender_id (block_header h) = s \<and>
    package_serial (block_header h) = p"
  using assms(1,2)
proof (induction rule: list_all2_induct)
  case (Cons i ids f fs)
  then show ?case using carried_key [OF Cons.hyps(1) assms(3) _ assms(4)] by auto
qed simp

text \<open>C33: Around the wrap of the package number the C++ decoder forgets packages that are on their
  way. When some slices of a package have come, its first one among them, then a slice of a package
  of the same sender whose number is more than 127 lower, such as the package after number 255, then
  no single frame completes the first package any more: the observer sees nothing of it, even when
  that frame is the last one missing.\<close>

theorem wrap_forgets_package:
  assumes new: "new_RxDecoder tu observer parse metas u = (d, w)" "length metas = 8"
    and mp: "mp = mp_max_payload (RxDecoder_config d)" and wire: "wire_ok mp s"
    and ok: "package_ok mp k (length bytes)" "package_ok mp k' (length bytes')"
    and fs: "list_all2 (carries_slice mp s p k bytes) ids fs" "set ids \<subset> {..k}" "0 \<in> set ids"
    and g: "carries_slice mp s p' k' bytes' j g" "j \<le> k'" "unat p' + 127 < unat p"
    and f: "carries_slice mp s p k bytes i f" "i \<le> k"
  shows "bindE (push_blocks d w (fs @ [g, f])) (\<lambda>w'. Inr (observed w')) =
    (if k' = 0 then deliver_message d bytes' u else Inr u)"
proof -
  have s8: "s < 8" using wire by (simp add: wire_ok_def)
  have keys: "keys_ok mp {(s, p)} (\<lambda>_. (k, bytes))" "keys_ok mp {(s, p')} (\<lambda>_. (k', bytes'))"
    using ok wire by (simp_all add: keys_ok_def)
  note new_holds = new_decoder_holds [OF new(2,1) keys(1) [unfolded mp]]
  note new_slots = new_decoder_slots [OF new(2,1)]
  have "list_all2 (\<lambda>i. arrival_frame mp (\<lambda>_. (k, bytes)) ((s, p), i)) ids fs"
    using fs by (auto simp: arrival_frame_def list_all2_conv_all_nth subset_iff)
  then obtain w1 where w1: "push_blocks d w fs = Inr w1" "observed w1 = u"
    using cpp_rx.feed_some [OF _ _ new_holds, of "(s, p)" ids fs] fs(2) new_slots(2)
    by (auto simp: push_blocks_def mp)
  have hdr: "\<forall>h\<in>set fs. MP_HEADER_SIZE \<le> length h \<and> hdr_sender_id (block_header h) = s \<and>
      package_serial (block_header h) = p"
    using carried_keys [OF fs(1) psubset_imp_subset [OF fs(2)] ok(1) wire] .
  have holds: "cpp_holds d {(s, p')} (\<lambda>_. (k', bytes')) w1 (\<lambda>_. {})"
    using untouched_package_holds [OF new w1(1) mp wire ok(2), of p'] hdr g(3) by auto
  have hdr_g: "MP_HEADER_SIZE \<le> length g" "block_header g = slice_header_of mp s p' k' bytes' j"
    using g(1) carried_block(1) [OF g(1) ok(2) g(2) wire] by (simp_all add: carries_slice_def)
  have arrives: "arrival_frame (mp_max_payload (RxDecoder_config d)) (\<lambda>_. (k', bytes')) ((s, p'), j) g"
    using g by (simp add: arrival_frame_def mp)
  note push_g = cpp_frame [OF holds _ arrives]
  have last: "bindE (RxDecoder_Push d w2 f) (\<lambda>w'. Inr (observed w')) = Inr (observed w2)"
    if "RxDecoder_Push d w1 g = Inr w2" for w2
    using push_after_wrap [OF new ok(1) [unfolded mp] wire [unfolded mp] fs(1) [unfolded mp] fs(2,3) hdr_g(1) _ _
        f(1) [unfolded mp] f(2), of w2] that w1(1) g(3)
    by (auto simp: push_blocks_def foldE_append hdr_g(2) slice_header_of_def)
  have pushes: "bindE (push_blocks d w (fs @ [g, f])) (\<lambda>w'. Inr (observed w')) =
      bindE (RxDecoder_Push d w1 g) (\<lambda>w2. bindE (RxDecoder_Push d w2 f) (\<lambda>w'. Inr (observed w')))"
    using w1(1) by (simp add: push_blocks_def foldE_append bindE_assoc)
  show ?thesis
  proof (cases "k' = 0")
    case True
    then have "{j} = {..k'}" using g(2) by simp
    then obtain T where T: "RxDecoder_Push d w1 g = bindE (deliver_message d bytes' u)
        (\<lambda>u. Inr (w1\<lparr> coordinator_table := T, arena_messages := Suc (arena_messages w1), observed := u \<rparr>))"
      using push_g(2) w1(2) by auto
    then show ?thesis
      using True last unfolding pushes by (cases "deliver_message d bytes' u") simp_all
  next
    case False
    then obtain T where T: "RxDecoder_Push d w1 g = Inr (w1\<lparr> coordinator_table := T \<rparr>)"
      using push_g(1) w1(2) by auto
    then show ?thesis using False last [OF T] w1(2) unfolding pushes by simp
  qed
qed

theorem wrap_forgets_package_witness:
  "bindE (push_blocks (fst example_decoder) (snd example_decoder)
      ([slice_frame 4 2 255 1 [1, 2, 3, 4, 5] 0] @
       [slice_frame 4 2 0 0 [7] 0, slice_frame 4 2 255 1 [1, 2, 3, 4, 5] 1]))
      (\<lambda>w. Inr (observed w)) = Inr [[7]]"
proof -
  have a: "carries_slice 4 2 255 1 [1, 2, 3, 4, 5] i (slice_frame 4 2 255 1 [1, 2, 3, 4, 5] i)"
    if "i \<le> 1" for i
    using that by (intro slice_frame_carries(1)) (simp_all add: package_ok_def wire_ok_def)
  have b: "carries_slice 4 2 0 0 [7] 0 (slice_frame 4 2 0 0 [7] 0)"
    by (intro slice_frame_carries(1)) (simp_all add: package_ok_def wire_ok_def)
  note new = example_decoder_new and mp = example_decoder_payload [symmetric]
  have fs: "list_all2 (carries_slice 4 2 255 1 [1, 2, 3, 4, 5]) [0] [slice_frame 4 2 255 1 [1, 2, 3, 4, 5] 0]"
    using a [of 0] by simp
  have ids: "set [0] \<subset> {..1 :: nat}" "0 \<in> set [0 :: nat]" by (auto simp: atMost_Suc)
  show ?thesis
    using wrap_forgets_package [OF new _ mp _ _ _ fs ids b order_refl _ a [OF order_refl] order_refl]
    by (simp add: package_ok_def wire_ok_def deliver_message_def example_decoder_def new_RxDecoder_def)
qed

lemma cut_block:
  assumes ok: "package_ok mp k (length bytes)" and wire: "wire_ok mp s"
    and f: "carries_slice mp s p k bytes 0 f" and n: "n < length (slice_bytes mp k bytes 0)"
  shows "block_header (take (MP_HEADER_SIZE + n) f) = slice_header_of mp s p k bytes 0"
    and "block_payload (take (MP_HEADER_SIZE + n) f) = take n bytes"
    and "MP_HEADER_SIZE + n \<le> length f" "n < length bytes" "n < unat mp"
proof -
  let ?b = "take (MP_HEADER_SIZE + n) f" and ?h = "slice_header_of mp s p k bytes 0"
  note okD = package_okD [OF ok]
  have cut: "slice_bytes mp k bytes 0 = take (unat (slice_len mp k (length bytes) 0)) bytes"
    by (simp add: slice_bytes_def)
  have len: "n < unat (slice_len mp k (length bytes) 0)" "n < length bytes" "n < unat mp"
    using n length_slice_bytes [OF ok, of 0] okD(6)
    by (auto simp: cut slice_len_def min_def split: if_splits)
  have size: "MP_HEADER_SIZE + n \<le> length f"
    using f n by (auto simp: carries_slice_def dest!: arg_cong [of _ _ length])
  have "block_header ?b = block_header f"
    using size by (simp add: block_header_def MP_ARRAY_TO_PACKED_HEADER_def MP_HEADER_SIZE_def)
  then have hdr: "block_header ?b = ?h" using carried_block(1) [OF f ok _ wire] by simp
  have payload: "block_payload ?b = take n bytes"
  proof -
    let ?m = "unat (slice_len mp k (length bytes) 0)"
    have "take ?m (drop MP_HEADER_SIZE f) = take ?m bytes" using f by (simp add: carries_slice_def cut)
    from arg_cong [OF this, of "take n"] show ?thesis
      using len(1) by (simp add: block_payload_def hdr drop_take) (simp add: slice_header_of_def min_def)
  qed
  show "block_header ?b = ?h" "block_payload ?b = take n bytes" "MP_HEADER_SIZE + n \<le> length f"
    "n < length bytes" "n < unat mp"
    by (fact hdr payload size len(2,3))+
qed

lemma short_first_slice_completes:
  assumes n: "0 < n" "n < unat mp" and mp: "package_ok mp k l"
  obtains st' where
    "\<And>e. mp_rx_calc_slice_step zero_state 0 (of_nat n) mp e =
      Inr \<lparr> inst_event = MP_RX_STREAM_COMPLETE, next_state = st' \<rparr>"
    "unat (termination_at st') = n"
proof -
  note okD = package_okD [OF mp]
  have n16: "unat (of_nat n :: u16) = n" using n(2) unat_u16_less [of mp] by (simp add: unat_u16_of_nat del: unat_u16_less)
  have small: "package_ok mp 0 n" using okD n(1) n(2) unat_u16_less [of mp] by (simp add: package_ok_def del: unat_u16_less)
  have "slice_len mp 0 n 0 = of_nat n" by (simp add: slice_len_def)
  then obtain st' where st': "mp_rx_calc_slice_step zero_state 0 (of_nat n) mp True =
        Inr \<lparr> inst_event = MP_RX_STREAM_COMPLETE, next_state = st' \<rparr>" "unat (termination_at st') = n"
    using step_package_refines [OF small view_zero [OF small], of 0]
    by (auto simp: slice_event_def package_view_def)
  have "of_nat n < mp" using n(2) n16 by (simp add: word_less_nat_alt)
  moreover have "(of_nat n :: u16) \<noteq> 0" using n(1) n16 by (metis unat_0 less_irrefl)
  ultimately have "mp_rx_calc_slice_step zero_state 0 (of_nat n) mp e =
      mp_rx_calc_slice_step zero_state 0 (of_nat n) mp True" for e
    by (simp add: mp_rx_calc_slice_step_def)
  then have step: "mp_rx_calc_slice_step zero_state 0 (of_nat n) mp e =
      Inr \<lparr> inst_event = MP_RX_STREAM_COMPLETE, next_state = st' \<rparr>" for e
    using st'(1) by simp
  from that [OF step st'(2)] show thesis .
qed

text \<open>C34: A block cut short on its way makes the C++ decoder take a piece for the whole: when the first
  block of a package reaches it with at least one byte but not all of its payload, the decoder
  trusts the length it sees, completes the package at once and delivers the bytes that came.\<close>

theorem truncated_block_delivers:
  assumes new: "new_RxDecoder tu observer parse metas u = (d, w)" "length metas = 8"
    and mp: "mp = mp_max_payload (RxDecoder_config d)" and ok: "package_ok mp k (length bytes)"
    and wire: "wire_ok mp s" and f: "carries_slice mp s p k bytes 0 f"
    and n: "0 < n" "n < length (slice_bytes mp k bytes 0)"
  shows "bindE (RxDecoder_Push d w (take (MP_HEADER_SIZE + n) f)) (\<lambda>w'. Inr (observed w')) =
    deliver_message d (take n bytes) u"
proof -
  let ?b = "take (MP_HEADER_SIZE + n) f"
  note cut = cut_block [OF ok wire f n(2)]
  obtain st' where step: "\<And>e. mp_rx_calc_slice_step zero_state 0 (of_nat n) mp e =
        Inr \<lparr> inst_event = MP_RX_STREAM_COMPLETE, next_state = st' \<rparr>" "unat (termination_at st') = n"
    using short_first_slice_completes [OF n(1) cut(5) ok] by blast
  have s8: "s < 8" using wire by (simp add: wire_ok_def)
  have coord: "mp_rx_header_to_coordinate (RxDecoder_config d) (slice_header_of mp s p k bytes 0) = key_coord (s, p)"
    by (simp add: mp_rx_header_to_coordinate_def slice_header_of_def Let_def mp_slice_idx_to_offset_def
        key_coord_def slice_coord_def)
  have serial: "slice_serial (slice_header_of mp s p k bytes 0) = 0" by (simp add: slice_header_of_def)
  have len_b: "MP_HEADER_SIZE \<le> length ?b" using cut(3) by simp
  note push = push_block [OF new_decoder_slots(1) [OF new(2,1)] len_b, of d, unfolded cut(1,2) coord serial mp [symmetric]]
  have "coord_offset (key_coord (s, p)) = 0" "bytes \<noteq> []" "length (take n bytes) = n"
    using cut(4) by (auto simp: key_coord_def slice_coord_def mp_slice_idx_to_offset_def)
  then show ?thesis
    using push n(1) new_decoder_found [OF new(2,1) s8, of p] step new_decoder_slots(2) [OF new(2,1)]
    by (simp add: vector_write_def bindE_assoc Let_def)
qed

theorem truncated_block_delivers_witness:
  "bindE (RxDecoder_Push (fst example_decoder) (snd example_decoder)
      (take (MP_HEADER_SIZE + 2) (slice_frame 4 2 9 1 [1, 2, 3, 4, 5] 0))) (\<lambda>w. Inr (observed w)) = Inr [[1, 2]]"
proof -
  note new = example_decoder_new and mp = example_decoder_payload [symmetric]
  have ok: "package_ok 4 1 (length ([1, 2, 3, 4, 5] :: u8 list))" and wire: "wire_ok 4 2"
    by (simp_all add: package_ok_def wire_ok_def)
  have f: "carries_slice 4 2 9 1 [1, 2, 3, 4, 5] 0 (slice_frame 4 2 9 1 [1, 2, 3, 4, 5] 0)"
    by (rule slice_frame_carries(1) [OF ok _ wire]) simp
  have "(2 :: nat) < length (slice_bytes 4 1 ([1, 2, 3, 4, 5] :: u8 list) 0)"
    by (simp add: slice_bytes_def slice_len_def)
  from truncated_block_delivers [OF new _ mp ok wire f _ this] show ?thesis
    by (simp add: deliver_message_def) (simp add: example_decoder_def new_RxDecoder_def)
qed

lemma short_slices_steps:
  assumes mp: "0 < mp" "mp < 4096"
  obtains a b c where
    "mp_rx_calc_slice_step zero_state 1 0 mp False =
      Inr \<lparr> inst_event = MP_RX_STREAM_NEW_SLICE_OUT_OF_ORDER, next_state = a \<rparr>"
    "mp_rx_calc_slice_step a 2 0 mp False =
      Inr \<lparr> inst_event = MP_RX_STREAM_NEW_SLICE_OUT_OF_ORDER, next_state = b \<rparr>"
    "mp_rx_calc_slice_step b 0 mp mp False =
      Inr \<lparr> inst_event = MP_RX_STREAM_COMPLETE, next_state = c \<rparr>"
    "unat (termination_at c) = 2 * unat mp"
proof -
  have m: "mp \<noteq> 0" "0 < unat mp" "unat mp < 4096" using mp by (simp_all add: word_less_nat_alt unat_gt_0)
  define a where "a = record_slice zero_state 1 0 mp False"
  define b where "b = record_slice a 2 0 mp False"
  have off: "unat (mp_slice_idx_to_offset 0 mp) = 0" "unat (mp_slice_idx_to_offset 1 mp) = unat mp"
      "unat (mp_slice_idx_to_offset 2 mp) = 2 * unat mp"
    using m(3) by (simp_all add: unat_slice_offset)
  have step_a: "mp_rx_calc_slice_step zero_state 1 0 mp False =
      Inr \<lparr> inst_event = MP_RX_STREAM_NEW_SLICE_OUT_OF_ORDER, next_state = a \<rparr>"
    using m off by (simp add: calc_slice_step_eq a_def)
  have seen_a: "slice_seen a i \<longleftrightarrow> i = 1" if "i < 256" for i using that by (simp add: a_def)
  have step_b: "mp_rx_calc_slice_step a 2 0 mp False =
      Inr \<lparr> inst_event = MP_RX_STREAM_NEW_SLICE_OUT_OF_ORDER, next_state = b \<rparr>"
    using m off seen_a [of 2] by (simp add: calc_slice_step_eq b_def a_def)
  let ?c = "record_slice b 0 mp mp False"
  have seen_c: "slice_seen ?c i \<longleftrightarrow> i < 3" if "i < 256" for i
    using that by (auto simp: b_def a_def)
  have term_c: "unat (termination_at ?c) = 2 * unat mp" "termination_at ?c > 0"
    using m off by (simp_all add: b_def a_def mp_rx_calc_termination_def word_less_nat_alt)
  have stops: "wm_stops ?c mp (0 + of_nat j * mp) \<longleftrightarrow> 2 \<le> j" if "j \<le> 2" for j
  proof -
    have "j * unat mp < 65536" using that m(3) mult_le_mono1 [OF that, of "unat mp"] by linarith
    then have "unat (0 + of_nat j * mp :: u16) = j * unat mp"
      using that by (simp add: unat_u16_mult unat_u16_of_nat)
    then show ?thesis
      using seen_c [of j] that term_c m by (simp add: wm_stops_def word_le_nat_alt)
  qed
  have "mp_rx_watermark_loop watermark_fuel ?c mp 0 = Inr (0 + of_nat 2 * mp)"
    using stops stops [of 2] by (intro watermark_loop_first [OF m(1)]) (simp_all add: watermark_fuel_def)
  moreover have "unat (0 + of_nat 2 * mp :: u16) = 2 * unat mp"
    using m(3) by (simp add: unat_u16_mult)
  ultimately obtain wm where "mp_rx_advance_watermark ?c mp = Inr wm"
    using term_c by (simp add: mp_rx_advance_watermark_def b_def a_def word_less_nat_alt)
  then have step_c: "mp_rx_calc_slice_step b 0 mp mp False =
      Inr \<lparr> inst_event = MP_RX_STREAM_COMPLETE, next_state = ?c\<lparr> watermark := wm \<rparr> \<rparr>"
    using off term_c m is_complete_spec [OF m(1), of "?c\<lparr> watermark := wm \<rparr>"]
    by (simp add: calc_slice_step_eq b_def a_def)
  show thesis using that [OF step_a step_b step_c] term_c(1) by simp
qed

text \<open>C35: Three short blocks make the C++ decoder read past the bytes it holds, or abort where
  assertions are on. Blocks of slices 1 and 2 without any data, and without the end mark, each set an
  end of the package and count as received; when the full slice 0 comes, the package counts as
  complete with two slices of bytes, of which the vector holds one.\<close>

theorem short_slices_overread:
  assumes new: "new_RxDecoder tu observer parse metas u = (d, w)" "length metas = 8"
    and mp: "mp = mp_max_payload (RxDecoder_config d)" "0 < mp" "mp < 4096" and s: "s < 8"
    and payload: "length payload = unat mp"
  shows "push_blocks d w [wire_block (plain_header s p 1 0) [], wire_block (plain_header s p 2 0) [],
    wire_block (plain_header s p 0 mp) payload] = Inl Out_Of_Bounds"
proof -
  let ?h = "plain_header s p"
  have m: "mp \<noteq> 0" "0 < unat mp" "unat mp < 4096" using mp by (simp_all add: word_less_nat_alt unat_gt_0)
  have wf: "header_wf (?h i n)" if "n < 4096" for i n using s that by (simp add: plain_header_def header_wf_def)
  let ?key = "key_coord (s, p)" and ?G = "\<lambda>w. gc_hook (coordinator_table w) s p"
  obtain a b c where step: "mp_rx_calc_slice_step zero_state 1 0 mp False =
        Inr \<lparr> inst_event = MP_RX_STREAM_NEW_SLICE_OUT_OF_ORDER, next_state = a \<rparr>"
      "mp_rx_calc_slice_step a 2 0 mp False =
        Inr \<lparr> inst_event = MP_RX_STREAM_NEW_SLICE_OUT_OF_ORDER, next_state = b \<rparr>"
      "mp_rx_calc_slice_step b 0 mp mp False = Inr \<lparr> inst_event = MP_RX_STREAM_COMPLETE, next_state = c \<rparr>"
      "unat (termination_at c) = 2 * unat mp"
    by (rule short_slices_steps [OF mp(2,3)])
  obtain w1 where w1: "RxDecoder_Push d w (wire_block (?h 1 0) []) = Inr w1" "table_wf (coordinator_table w1)"
      "slot_state (slot_view (?G w1) ?key) = a" "slot_data (slot_view (?G w1) ?key) = []"
    using push_new_slice [OF new_decoder_slots(1) [OF new(2,1)] wf [of 0 1], of "[]" d] step(1)
      new_decoder_found [OF new(2,1) s, of p]
    by (auto simp: plain_header_def mp vector_write_def)
  obtain w2 where w2: "RxDecoder_Push d w1 (wire_block (?h 2 0) []) = Inr w2" "table_wf (coordinator_table w2)"
      "slot_state (slot_view (?G w2) ?key) = b" "slot_data (slot_view (?G w2) ?key) = []"
    using push_new_slice [OF w1(2) wf [of 0 2], of "[]" d] step(2) w1(3,4)
    by (auto simp: plain_header_def mp vector_write_def)
  have "RxDecoder_Push d w2 (wire_block (?h 0 mp) payload) = Inl Out_Of_Bounds"
    using push_wire_block [OF w2(2) wf [of mp 0], of payload d] step(3,4) w2(3,4) payload m mp
    by (simp add: plain_header_def vector_write_length mp_slice_idx_to_offset_def)
  then show ?thesis by (simp add: push_blocks_def w1(1) w2(1))
qed

theorem short_slices_overread_witness:
  "push_blocks (fst example_decoder) (snd example_decoder)
    [wire_block (plain_header 2 9 1 0) [], wire_block (plain_header 2 9 2 0) [],
     wire_block (plain_header 2 9 0 4) [1, 2, 3, 4]] = Inl Out_Of_Bounds"
  using short_slices_overread [OF example_decoder_new _ example_decoder_payload [symmetric]] by simp

end
