(* ===== verification/Messages.thy ===== *)
theory Messages
  imports Cpp_Rx
begin

text \<open>
  Messages of one sender, numbered from \<open>first\<close> on, as packages. \<open>last_of\<close> gives the number of a
  message's last slice, in which the senders differ: the C++ encoder marks a full last slice as
  the end, the others send an empty slice behind it.
\<close>

definition message_key :: "u8 \<Rightarrow> u8 \<Rightarrow> nat \<Rightarrow> package_key" where
  "message_key sender first j = (sender, first + of_nat j)"

definition message_contents :: "(u8 list \<Rightarrow> nat) \<Rightarrow> u8 \<Rightarrow> u8 list list \<Rightarrow> contents" where
  "message_contents last_of first bs q = (let b = bs ! unat (snd q - first) in (last_of b, b))"

lemma message_contents_key:
  "j < 256 \<Longrightarrow> message_contents last_of first bs (message_key sender first j) = (last_of (bs ! j), bs ! j)"
  by (simp add: message_contents_def message_key_def unat_u8_of_nat Let_def)

lemma message_keys:
  assumes "unat first + n \<le> 256" and "n \<le> 128" and "wire_ok mp sender" and "length bs = n"
    and "\<forall>b\<in>set bs. package_ok mp (last_of b) (length b)"
  shows "inj_on (message_key sender first) {..<n}"
    and "keys_ok mp (message_key sender first ` {..<n}) (message_contents last_of first bs)"
proof -
  have un: "unat (first + of_nat j) = unat first + j" if "j < n" for j
    using that assms(1,2) by (simp add: unat_word_ariths unat_u8_of_nat)
  show "inj_on (message_key sender first) {..<n}"
  proof (rule inj_onI)
    fix i j assume ij: "i \<in> {..<n}" "j \<in> {..<n}" "message_key sender first i = message_key sender first j"
    then have "unat (first + of_nat i) = unat (first + of_nat j)" by (simp add: message_key_def)
    then show "i = j" using un ij(1,2) by simp
  qed
  have "package_ok mp (last_of (bs ! j)) (length (bs ! j))" if "j < n" for j
    using assms(4,5) that by simp
  then show "keys_ok mp (message_key sender first ` {..<n}) (message_contents last_of first bs)"
    using assms(2,3) un
    by (auto simp: keys_ok_def message_contents_key) (simp_all add: message_key_def)
qed

text \<open>
  The arrivals \<open>js\<close>, pairs of a message and a slice, as arrivals of packages. The frames \<open>fs\<close> are those
  of the slices, and the packages that complete are the messages that do.
\<close>

lemma message_arrivals:
  assumes number: "unat first + length bs \<le> 256" "length bs \<le> 128" and wire: "wire_ok mp sender"
    and ok: "\<forall>b\<in>set bs. package_ok mp (last_of b) (length b)"
    and fs: "list_all2 (\<lambda>(j, i) f. j < length bs \<and> i \<le> last_of (bs ! j) \<and>
      carries_slice mp sender (first + of_nat j) (last_of (bs ! j)) (bs ! j) i f) js fs"
  defines "key \<equiv> message_key sender first" and "content \<equiv> message_contents last_of first bs"
  shows "keys_ok mp (key ` {..<length bs}) content"
    and "list_all2 (arrival_frame mp content) (map (apfst key) js) fs"
    and "fst ` set (map (apfst key) js) \<subseteq> key ` {..<length bs}"
    and "arrivals_run content (\<lambda>_. {}) (map (apfst key) js) =
      map (\<lambda>j. bs ! j) (completed (\<lambda>j. last_of (bs ! j)) (\<lambda>_. {}) js)"
proof -
  let ?n = "length bs"
  have keys: "inj_on key {..<?n}" "keys_ok mp (key ` {..<?n}) content"
    using message_keys [OF number wire refl ok] by (simp_all add: key_def content_def)
  have at: "content (key j) = (last_of (bs ! j), bs ! j)" if "j < ?n" for j
    using that number by (simp add: message_contents_key key_def content_def)
  show "keys_ok mp (key ` {..<?n}) content" by (rule keys(2))
  have "list_all2 (\<lambda>(j, i) f. j < ?n \<and> i \<le> last_of (bs ! j) \<and>
      carries_slice mp (fst (key j)) (snd (key j)) (last_of (bs ! j)) (bs ! j) i f) js fs"
    using fs by (simp add: key_def message_key_def)
  note sent = numbered_arrivals [OF keys(1) _ this, of content]
  show "list_all2 (arrival_frame mp content) (map (apfst key) js) fs"
    "fst ` set (map (apfst key) js) \<subseteq> key ` {..<?n}"
    "arrivals_run content (\<lambda>_. {}) (map (apfst key) js) =
      map (\<lambda>j. bs ! j) (completed (\<lambda>j. last_of (bs ! j)) (\<lambda>_. {}) js)"
    using sent at by simp_all
qed

text \<open>The frames picked out of the frames of each message.\<close>

lemma picked_frames:
  assumes "\<forall>j<length bs. \<forall>i\<le>last_of (bs ! j). carries_slice mp sender (first + of_nat j)
      (last_of (bs ! j)) (bs ! j) i (fss ! j ! i)"
    and "\<forall>(j, i)\<in>set js. j < length bs \<and> i \<le> last_of (bs ! j)"
  shows "list_all2 (\<lambda>(j, i) f. j < length bs \<and> i \<le> last_of (bs ! j) \<and>
      carries_slice mp sender (first + of_nat j) (last_of (bs ! j)) (bs ! j) i f) js
    (map (\<lambda>(j, i). fss ! j ! i) js)"
  using assms by (auto simp: list_all2_map2 list_all2_same)

end
