(* ===== verification/Cpp_Link.thy ===== *)
theory Cpp_Link
  imports Cpp_Tx Messages
begin

text \<open>
  The C++ binding end to end: messages pushed into a \<open>TxEncoderCore\<close> one after the other, their
  frames mixed on the way, and a \<open>RxDecoder\<close> at the end.
\<close>

section \<open>Sending many messages\<close>

text \<open>The frames of each message, in a list of their own.\<close>

fun push_messages ::
    "'m serializer \<Rightarrow> u8 list list TxEncoderCore \<Rightarrow> 'm list \<Rightarrow> u8 list \<Rightarrow>
      (u8 list list TxEncoderCore \<times> u8 list list list) res" where
  "push_messages serialize core [] buffer = Inr (core, [])"
| "push_messages serialize core (m # ms) buffer =
     bindE (TxEncoderCore_Push serialize core [] m buffer) (\<lambda>(ok, core', fs).
     bindE (push_messages serialize core' ms buffer) (\<lambda>(core'', fss). Inr (core'', fs # fss)))"

text \<open>
  A serializer that writes \<open>bytes_of m\<close>, at least one byte, through full buffers.
\<close>

definition last_slice :: "u16 \<Rightarrow> u8 list \<Rightarrow> nat" where
  "last_slice mp bytes = (length bytes - 1) div unat mp"

definition serializes :: "u16 \<Rightarrow> 'm serializer \<Rightarrow> ('m \<Rightarrow> u8 list) \<Rightarrow> 'm \<Rightarrow> bool" where
  "serializes mp serialize bytes_of m \<longleftrightarrow>
     serialize m (unat mp) = (zc_calls (unat mp) (bytes_of m), True) \<and> bytes_of m \<noteq> [] \<and>
     package_ok mp (last_slice mp (bytes_of m)) (length (bytes_of m))"

lemma push_message:
  assumes "core_next core = collect_frames" and "mp = core_tu core - 4" and "4 < core_tu core"
    and "wire_ok mp (core_sender_id core)" and "length buffer = unat (core_tu core)"
    and "serializes mp serialize bytes_of m"
  shows "\<exists>fs. TxEncoderCore_Push serialize core [] m buffer =
      Inr (True, core\<lparr> current_package_id := current_package_id core + 1 \<rparr>, fs) \<and>
    length fs = Suc (last_slice mp (bytes_of m)) \<and>
    (\<forall>i\<le>last_slice mp (bytes_of m). carries_slice mp (core_sender_id core) (current_package_id core)
      (last_slice mp (bytes_of m)) (bytes_of m) i (fs ! i))"
proof -
  note ser = assms(6) [unfolded serializes_def]
  obtain fs where "length fs = Suc (last_slice mp (bytes_of m))"
      "\<forall>i\<le>last_slice mp (bytes_of m). carries_slice mp (core_sender_id core)
        (current_package_id core) (last_slice mp (bytes_of m)) (bytes_of m) i (fs ! i)"
      "TxEncoderCore_Push serialize core [] m buffer = bindE (observe_all (core_next core) [] fs) (\<lambda>w'.
        Inr (True, core\<lparr> current_package_id := current_package_id core + 1 \<rparr>, w'))"
    using sender_frames [OF assms(2-4), of serialize m "bytes_of m" "last_slice mp (bytes_of m)" buffer]
      ser assms(5) by (auto simp: last_slice_def)
  then show ?thesis by (auto simp: assms(1) observe_collect)
qed

lemma push_messages_send:
  assumes "core_next core = collect_frames" and "mp = core_tu core - 4" and "4 < core_tu core"
    and "wire_ok mp (core_sender_id core)" and "length buffer = unat (core_tu core)"
    and "\<forall>m\<in>set ms. serializes mp serialize bytes_of m"
  shows "\<exists>core' fss. push_messages serialize core ms buffer = Inr (core', fss) \<and>
    (\<forall>j<length ms. \<forall>i\<le>last_slice mp (bytes_of (ms ! j)).
      carries_slice mp (core_sender_id core) (current_package_id core + of_nat j)
        (last_slice mp (bytes_of (ms ! j))) (bytes_of (ms ! j)) i (fss ! j ! i))"
  using assms
proof (induction ms arbitrary: core)
  case (Cons m ms)
  let ?core = "core\<lparr> current_package_id := current_package_id core + 1 \<rparr>"
  obtain fs where fs: "TxEncoderCore_Push serialize core [] m buffer = Inr (True, ?core, fs)"
      "\<forall>i\<le>last_slice mp (bytes_of m). carries_slice mp (core_sender_id core) (current_package_id core)
        (last_slice mp (bytes_of m)) (bytes_of m) i (fs ! i)"
    using push_message [OF Cons.prems(1-5), of serialize bytes_of m] Cons.prems(6) by auto
  obtain core' fss where fss: "push_messages serialize ?core ms buffer = Inr (core', fss)"
      "\<forall>j<length ms. \<forall>i\<le>last_slice mp (bytes_of (ms ! j)).
        carries_slice mp (core_sender_id core) (current_package_id core + 1 + of_nat j)
          (last_slice mp (bytes_of (ms ! j))) (bytes_of (ms ! j)) i (fss ! j ! i)"
    using Cons.IH [of ?core] Cons.prems by auto
  have "carries_slice mp (core_sender_id core) (current_package_id core + of_nat j)
      (last_slice mp (bytes_of ((m # ms) ! j))) (bytes_of ((m # ms) ! j)) i ((fs # fss) ! j ! i)"
    if "j < length (m # ms)" "i \<le> last_slice mp (bytes_of ((m # ms) ! j))" for i j
    using fs(2) fss(2) that by (cases j) (simp_all add: add.assoc)
  then show ?case using fs(1) fss(1) by auto
qed simp

section \<open>A decoder fed with the frames of messages\<close>

text \<open>
  A new decoder, given frames of messages with consecutive package numbers in any order, calls the
  observer with the messages that complete.
\<close>

lemma feed_messages:
  assumes decoder: "new_RxDecoder (int (unat tu)) observer parse metas u = (d, w)" "length metas = 8"
    and mp: "mp = tu - 4" "wire_ok mp sender"
    and number: "unat first + length ms \<le> 256" "length ms \<le> 128"
    and ms: "\<forall>m\<in>set ms. package_ok mp (last_slice mp (bytes_of m)) (length (bytes_of m)) \<and>
      parse (bytes_of m) = Some m"
    and fs: "list_all2 (\<lambda>(j, i) f. j < length ms \<and> i \<le> last_slice mp (bytes_of (ms ! j)) \<and>
      carries_slice mp sender (first + of_nat j) (last_slice mp (bytes_of (ms ! j))) (bytes_of (ms ! j)) i f) js fs"
  shows "bindE (push_blocks d w fs) (\<lambda>w'. Inr (observed w')) =
    foldE (\<lambda>u j. observer (ms ! j) u) u (completed (\<lambda>j. last_slice mp (bytes_of (ms ! j))) (\<lambda>_. {}) js)"
proof -
  let ?bs = "map bytes_of ms" and ?k = "\<lambda>j. last_slice mp (bytes_of (ms ! j))"
  let ?key = "message_key sender first" and ?content = "message_contents (last_slice mp) first (map bytes_of ms)"
  let ?js = "completed ?k (\<lambda>_. {}) js"
  have d: "mp_max_payload (RxDecoder_config d) = mp" "RxDecoder_parse d = parse" "RxDecoder_observer d = observer"
    using decoder(1) mp(1) by (auto simp: new_RxDecoder_def mp_max_payload_def MP_HEADER_SIZE_def)
  have below: "\<forall>j\<in>fst ` set js. j < length ms" using fs by (induction rule: list_all2_induct) auto
  have ok: "\<forall>b\<in>set ?bs. package_ok mp (last_slice mp b) (length b)" using ms by simp
  have number': "unat first + length ?bs \<le> 256" "length ?bs \<le> 128" using number by simp_all
  have "list_all2 (\<lambda>(j, i) f. j < length ?bs \<and> i \<le> last_slice mp (?bs ! j) \<and>
      carries_slice mp sender (first + of_nat j) (last_slice mp (?bs ! j)) (?bs ! j) i f) js fs"
    using fs by (rule list_all2_mono) auto
  note sent = message_arrivals [OF number' mp(2) ok this]
  have "completed (\<lambda>j. last_slice mp (?bs ! j)) (\<lambda>_. {}) js = ?js"
    using below by (intro completed_cong) auto
  then have "arrivals_run ?content (\<lambda>_. {}) (map (apfst ?key) js) = map (\<lambda>j. ?bs ! j) ?js"
    using sent(4) by simp
  then have "bindE (push_blocks d w fs) (\<lambda>w'. Inr (observed w')) =
      deliver_all (deliver_message d) u (map (\<lambda>j. ?bs ! j) ?js)"
    using cpp_rx.feed_arrivals [of d ?content _ fs "?key ` {..<length ?bs}" w "\<lambda>_. {}"] sent(1-3)
      new_decoder_holds [OF decoder(2,1)] new_decoder_slots(2) [OF decoder(2,1)]
    by (simp add: push_blocks_def d(1))
  also have "\<dots> = foldE (\<lambda>u j. deliver_message d (?bs ! j) u) u ?js" by (rule foldE_map)
  also have "\<dots> = foldE (\<lambda>u j. observer (ms ! j) u) u ?js"
  proof (rule foldE_cong)
    fix u j assume "j \<in> set ?js"
    then have "j < length ms" using completed_subset [of ?k "\<lambda>_. {}" js] below by blast
    then show "deliver_message d (?bs ! j) u = observer (ms ! j) u"
      using ms by (simp add: deliver_message_def d)
  qed
  finally show ?thesis .
qed

section \<open>Properties\<close>

text \<open>C4: The C++ binding carries messages. Up to 128 messages are pushed into an encoder one after the
  other, without the package number starting over, and their frames reach a new decoder of the same
  unit mixed in any way, repeated or lost: the observer is given exactly the messages all of whose
  slices have come, unchanged, in the order in which their last missing slices came.\<close>

theorem cpp_messages_roundtrip:
  assumes core: "core_next core = collect_frames" "mp = core_tu core - 4" "4 < core_tu core"
      "wire_ok mp (core_sender_id core)" "length buffer = unat (core_tu core)"
    and ms: "\<forall>m\<in>set ms. serializes mp serialize bytes_of m \<and> parse (bytes_of m) = Some m"
    and number: "unat (current_package_id core) + length ms \<le> 256" "length ms \<le> 128"
    and decoder: "new_RxDecoder (int (unat (core_tu core))) observer parse metas u = (d, w)" "length metas = 8"
    and js: "\<forall>(j, i)\<in>set js. j < length ms \<and> i \<le> last_slice mp (bytes_of (ms ! j))"
  shows "\<exists>core' fss. push_messages serialize core ms buffer = Inr (core', fss) \<and>
    bindE (push_blocks d w (map (\<lambda>(j, i). fss ! j ! i) js)) (\<lambda>w'. Inr (observed w')) =
      foldE (\<lambda>u j. observer (ms ! j) u) u
        (completed (\<lambda>j. last_slice mp (bytes_of (ms ! j))) (\<lambda>_. {}) js)"
proof -
  let ?k = "\<lambda>j. last_slice mp (bytes_of (ms ! j))"
  obtain core' fss where fss: "push_messages serialize core ms buffer = Inr (core', fss)"
      "\<forall>j<length ms. \<forall>i\<le>?k j. carries_slice mp (core_sender_id core) (current_package_id core + of_nat j)
        (?k j) (bytes_of (ms ! j)) i (fss ! j ! i)"
    using push_messages_send [OF core, of ms serialize bytes_of] ms by blast
  have ok: "\<forall>m\<in>set ms. package_ok mp (last_slice mp (bytes_of m)) (length (bytes_of m)) \<and>
      parse (bytes_of m) = Some m"
    using ms by (auto simp: serializes_def)
  have "list_all2 (\<lambda>(j, i) f. j < length ms \<and> i \<le> ?k j \<and> carries_slice mp (core_sender_id core)
      (current_package_id core + of_nat j) (?k j) (bytes_of (ms ! j)) i f) js (map (\<lambda>(j, i). fss ! j ! i) js)"
    using fss(2) js by (auto simp: list_all2_map2 list_all2_same)
  from feed_messages [OF decoder core(2,4) number ok this] fss(1) show ?thesis by blast
qed

theorem cpp_messages_roundtrip_witness:
  "\<exists>core' fss. push_messages (\<lambda>m n. (zc_calls n m, True)) (new_TxEncoderCore 8 2 collect_frames)
      [[1, 2, 3, 4, 5], [7]] (replicate 8 9) = Inr (core', fss) \<and>
    bindE (push_blocks (fst example_decoder) (snd example_decoder)
      (map (\<lambda>(j, i). fss ! j ! i) [(0, 1), (1, 0), (0, 1), (0, 0)])) (\<lambda>w'. Inr (observed w')) =
      Inr [[7], [1, 2, 3, 4, 5]]"
proof -
  let ?core = "new_TxEncoderCore 8 2 collect_frames"
    and ?ms = "[[1, 2, 3, 4, 5], [7]] :: u8 list list" and ?js = "[(0, 1), (1, 0), (0, 1), (0, 0)] :: (nat \<times> nat) list"
  have core: "core_tu ?core = 8" "core_sender_id ?core = 2" "core_next ?core = collect_frames"
      "current_package_id ?core = 0"
    by (simp_all add: new_TxEncoderCore_def)
  have new: "new_RxDecoder (int (unat (core_tu ?core))) (\<lambda>msg seen. Inr (seen @ [msg])) Some
      (replicate 8 \<lparr> meta_pkg = 200, meta_gen = 3 \<rparr>) [] = (fst example_decoder, snd example_decoder)"
    using example_decoder_new by (simp add: core)
  have k: "last_slice 4 [1, 2, 3, 4, 5] = 1" "last_slice 4 [7] = 0"
    by (simp_all add: last_slice_def)
  have "{1} \<noteq> {..1 :: nat}" "{0, 1} = {..1 :: nat}" by (auto simp: atMost_Suc)
  then have "completed (\<lambda>j. last_slice 4 (id (?ms ! j))) (\<lambda>_. {}) ?js = [1, 0]"
    using k by (simp add: insert_commute)
  moreover have "\<forall>m\<in>set ?ms. serializes 4 (\<lambda>m n. (zc_calls n m, True)) id m \<and> Some (id m) = Some m"
    by (simp add: serializes_def last_slice_def package_ok_def)
  ultimately show ?thesis
    using cpp_messages_roundtrip [where core = ?core and ms = ?ms and js = ?js and bytes_of = id
        and serialize = "\<lambda>m n. (zc_calls n m, True)" and buffer = "replicate 8 9" and mp = 4, OF core(3) _ _ _ _ _ _ _ new]
    by (simp add: core wire_ok_def k)
qed

end
