(* ===== verification/Cpp_Threads.thy ===== *)
theory Cpp_Threads
  imports Cpp_Link "HOL-Library.Multiset"
begin

text \<open>
  Calls of \<open>TxEncoderCore::Push\<close> from several threads. Each call takes its package number from
  the shared atomic counter, writes into a buffer of its own, and calls the shared observer for each
  slice; between these the threads take turns in any way. A schedule is the list of the jobs whose
  turn it is, a job being one call of \<open>Push\<close>. The observer's calls do not overlap.
\<close>

section \<open>Jobs\<close>

text \<open>
  A job waits with its message and buffer, runs with its stream and the calls protobuf has still to
  make, or has returned.
\<close>

datatype 'm job =
    Job_Waiting 'm "u8 list"
  | Job_Running "u8 list list TxStream" "zc_call list" bool
  | Job_Done bool

record 'm jobs_world =
  jobs_core :: "u8 list list TxEncoderCore"
  jobs :: "'m job list"
  jobs_wire :: "u8 list list"

text \<open>
  One turn of job \<open>j\<close>: the start of \<open>Push\<close>, with the increment of the counter, one call of the
  stream, or the end.
\<close>

definition job_step :: "'m serializer \<Rightarrow> 'm jobs_world \<Rightarrow> nat \<Rightarrow> 'm jobs_world res" where
  "job_step serialize w j =
     (case jobs w ! j of
        Job_Waiting m buffer \<Rightarrow>
          let core = jobs_core w
          in bindE (new_TxStream \<lparr> transmission_unit = core_tu core \<rparr>
               \<lparr> coord_sender_id = core_sender_id core, coord_package_id = current_package_id core,
                 coord_offset = 0 \<rparr> buffer (core_next core)) (\<lambda>stream.
             case serialize m (payload_buf_size stream) of (calls, ok) \<Rightarrow>
             Inr (w\<lparr> jobs_core := core\<lparr> current_package_id := current_package_id core + 1 \<rparr>,
               jobs := (jobs w)[j := Job_Running stream calls ok] \<rparr>))
      | Job_Running stream (c # cs) ok \<Rightarrow>
          bindE (zc_step (stream, jobs_wire w) c) (\<lambda>(stream', wire).
            Inr (w\<lparr> jobs := (jobs w)[j := Job_Running stream' cs ok], jobs_wire := wire \<rparr>))
      | Job_Running stream [] ok \<Rightarrow>
          if ok then bindE (stream_finalize stream (jobs_wire w)) (\<lambda>(stream', wire).
            Inr (w\<lparr> jobs := (jobs w)[j := Job_Done ok], jobs_wire := wire \<rparr>))
          else Inr (w\<lparr> jobs := (jobs w)[j := Job_Done ok] \<rparr>)
      | Job_Done ok \<Rightarrow> Inr w)"

definition run_jobs :: "'m serializer \<Rightarrow> 'm jobs_world \<Rightarrow> nat list \<Rightarrow> 'm jobs_world res" where
  "run_jobs serialize = foldE (job_step serialize)"

definition new_jobs :: "u8 list list TxEncoderCore \<Rightarrow> ('m \<times> u8 list) list \<Rightarrow> 'm jobs_world" where
  "new_jobs core ps =
     \<lparr> jobs_core = core, jobs = map (\<lambda>(m, buffer). Job_Waiting m buffer) ps, jobs_wire = [] \<rparr>"

text \<open>How many turns a job still needs.\<close>

fun job_turns :: "'m serializer \<Rightarrow> u16 \<Rightarrow> 'm job \<Rightarrow> nat" where
  "job_turns serialize mp (Job_Waiting m buffer) = length (fst (serialize m (unat mp))) + 2"
| "job_turns serialize mp (Job_Running stream calls ok) = Suc (length calls)"
| "job_turns serialize mp (Job_Done ok) = 0"

fun_cases no_turns_left: "job_turns serialize mp job = 0"

text \<open>Taken alone, the turns of a job are the function \<open>Push\<close>.\<close>

lemma job_runs_calls:
  assumes "j < length (jobs w)" and "jobs w ! j = Job_Running stream calls ok"
  shows "run_jobs serialize w (replicate (length calls) j) =
    bindE (foldE zc_step (stream, jobs_wire w) calls) (\<lambda>(stream', wire).
      Inr (w\<lparr> jobs := (jobs w)[j := Job_Running stream' [] ok], jobs_wire := wire \<rparr>))"
  using assms
proof (induction calls arbitrary: w stream)
  case Nil
  then show ?case using list_update_id [of "jobs w" j] by (simp add: run_jobs_def)
next
  case (Cons c cs)
  show ?case
  proof (cases "zc_step (stream, jobs_wire w) c")
    case (Inl e)
    then show ?thesis using Cons.prems by (simp add: run_jobs_def job_step_def)
  next
    case (Inr r)
    obtain stream' wire where r: "r = (stream', wire)" by (cases r)
    let ?w = "w\<lparr> jobs := (jobs w)[j := Job_Running stream' cs ok], jobs_wire := wire \<rparr>"
    have "run_jobs serialize w (replicate (length (c # cs)) j) = run_jobs serialize ?w (replicate (length cs) j)"
      using Cons.prems Inr r by (simp add: run_jobs_def job_step_def)
    then show ?thesis using Cons.IH [of ?w stream'] Cons.prems Inr r by simp
  qed
qed

lemma job_alone:
  assumes "j < length (jobs w)" and "jobs w ! j = Job_Waiting m buffer"
    and "length buffer = unat mp + MP_HEADER_SIZE"
  shows "run_jobs serialize w (replicate (job_turns serialize mp (jobs w ! j)) j) =
    bindE (TxEncoderCore_Push serialize (jobs_core w) (jobs_wire w) m buffer) (\<lambda>(ok, core, wire).
      Inr \<lparr> jobs_core = core, jobs = (jobs w)[j := Job_Done ok], jobs_wire = wire \<rparr>)"
proof -
  let ?core = "jobs_core w"
  obtain calls ok where ser: "serialize m (unat mp) = (calls, ok)" by (cases "serialize m (unat mp)")
  obtain stream where s: "new_TxStream \<lparr> transmission_unit = core_tu ?core \<rparr>
      \<lparr> coord_sender_id = core_sender_id ?core, coord_package_id = current_package_id ?core,
        coord_offset = 0 \<rparr> buffer (core_next ?core) = Inr stream" "payload_buf_size stream = unat mp"
    using assms(3) by (auto simp: new_TxStream_def payload_buf_size_def)
  let ?w = "w\<lparr> jobs_core := ?core\<lparr> current_package_id := current_package_id ?core + 1 \<rparr>,
    jobs := (jobs w)[j := Job_Running stream calls ok] \<rparr>"
  have start: "job_step serialize w j = Inr ?w"
    using assms(2) ser s by (simp add: job_step_def Let_def)
  have turns: "replicate (job_turns serialize mp (jobs w ! j)) j = j # replicate (length calls) j @ [j]"
    using assms(2) ser by (simp flip: replicate_append_same)
  have run: "run_jobs serialize ?w (replicate (length calls) j) =
      bindE (foldE zc_step (stream, jobs_wire w) calls) (\<lambda>(stream', wire).
        Inr (?w\<lparr> jobs := (jobs w)[j := Job_Running stream' [] ok], jobs_wire := wire \<rparr>))"
    using job_runs_calls [of j ?w stream calls ok serialize] assms(1) by simp
  have "run_jobs serialize w (j # replicate (length calls) j @ [j]) =
      bindE (run_jobs serialize ?w (replicate (length calls) j)) (\<lambda>w'. job_step serialize w' j)"
    using start by (simp add: run_jobs_def foldE_append)
  also have "\<dots> = bindE (TxEncoderCore_Push serialize ?core (jobs_wire w) m buffer) (\<lambda>(ok, core, wire).
      Inr \<lparr> jobs_core = core, jobs = (jobs w)[j := Job_Done ok], jobs_wire = wire \<rparr>)"
    unfolding run using assms(1) s ser
    by (cases w, cases ok) (simp_all add: TxEncoderCore_Push_def bindE_assoc Let_def
        case_prod_unfold job_step_def)
  finally show ?thesis unfolding turns .
qed

section \<open>The frames still to come\<close>

text \<open>
  With the collecting observer a step appends its frames to the wire, and does nothing else with it.
  \<open>frames_left\<close> is what a running job will still send.
\<close>

definition frames_left :: "u8 list list TxStream \<Rightarrow> zc_call list \<Rightarrow> u8 list list res" where
  "frames_left s calls =
     bindE (foldE zc_step (s, []) calls) (\<lambda>(s', fs). bindE (stream_finalize s' fs) (\<lambda>(s'', fs'). Inr fs'))"

lemma commit_appends:
  assumes "stream_observer s = collect_frames"
  shows "commit_slice s w e sz = bindE (commit_slice s [] e sz) (\<lambda>(s', fs). Inr (s', w @ fs))"
  using assms by (simp add: commit_slice_def bindE_assoc collect_frames_def)

lemma finalize_appends:
  assumes "stream_observer s = collect_frames"
  shows "stream_finalize s w = bindE (stream_finalize s []) (\<lambda>(s', fs). Inr (s', w @ fs))"
  using commit_appends [OF assms, of w] by (simp add: stream_finalize_def)

lemma zc_step_appends:
  assumes "stream_observer s = collect_frames"
  shows "zc_step (s, w) c = bindE (zc_step (s, []) c) (\<lambda>(s', fs). Inr (s', w @ fs))"
    and "zc_step (s, w) c = Inr (s', w') \<Longrightarrow> stream_observer s' = collect_frames"
proof -
  show "zc_step (s, w) c = bindE (zc_step (s, []) c) (\<lambda>(s', fs). Inr (s', w @ fs))"
  proof (cases c)
    case (Zc_Next bytes)
    then show ?thesis
      using commit_appends [OF assms, of w]
      by (simp add: Next_def bindE_assoc case_prod_unfold)
  qed simp
  show "stream_observer s' = collect_frames" if "zc_step (s, w) c = Inr (s', w')"
    using that assms
    by (cases c) (auto simp: Next_def BackUp_def commit_slice_def bindE_eq_Inr split: if_splits)
qed

lemma calls_append:
  assumes "stream_observer s = collect_frames"
  shows "foldE zc_step (s, w) calls = bindE (foldE zc_step (s, []) calls) (\<lambda>(s', fs). Inr (s', w @ fs))"
    and "foldE zc_step (s, w) calls = Inr (s', w') \<Longrightarrow> stream_observer s' = collect_frames"
  using assms
proof (induction calls arbitrary: s w s' w')
  case (Cons c cs)
  case 1
  show ?case
  proof (cases "zc_step (s, []) c")
    case (Inr r)
    then obtain s1 fs where r: "zc_step (s, []) c = Inr (s1, fs)" by (cases r) simp
    then have o1: "stream_observer s1 = collect_frames" using zc_step_appends(2) [OF 1] by simp
    show ?thesis
      using zc_step_appends(1) [OF 1, of w c] r Cons.IH(1) [OF o1, of "w @ fs"] Cons.IH(1) [OF o1, of fs]
      by (simp add: bindE_assoc case_prod_unfold)
  qed (use zc_step_appends(1) [OF 1, of w c] in simp)
  case 2
  then obtain r where "zc_step (s, w) c = Inr r" "foldE zc_step r cs = Inr (s', w')"
    by (auto simp: bindE_eq_Inr)
  moreover obtain s1 w1 where "r = (s1, w1)" by (cases r)
  ultimately show ?case using zc_step_appends(2) [OF 2(2)] Cons.IH(2) [of s1 w1 s' w'] by blast
qed simp_all

lemma frames_left_Cons:
  assumes "stream_observer s = collect_frames" and "frames_left s (c # cs) = Inr fs"
  obtains s' gs hs where "zc_step (s, []) c = Inr (s', gs)" "stream_observer s' = collect_frames"
    "frames_left s' cs = Inr hs" "fs = gs @ hs"
proof -
  obtain s' gs where c: "zc_step (s, []) c = Inr (s', gs)"
    using assms(2) by (auto simp: frames_left_def bindE_eq_Inr)
  then have o1: "stream_observer s' = collect_frames" using zc_step_appends(2) [OF assms(1)] by simp
  have "bindE (foldE zc_step (s', gs) cs) (\<lambda>(s', fs). bindE (stream_finalize s' fs) (\<lambda>(s'', fs'). Inr fs')) = Inr fs"
    using c assms(2) by (simp add: frames_left_def)
  then have "bindE (foldE zc_step (s', []) cs) (\<lambda>(s1, hs).
      bindE (stream_finalize s1 (gs @ hs)) (\<lambda>(s'', fs'). Inr fs')) = Inr fs"
    unfolding calls_append(1) [OF o1, of gs cs] by (simp add: bindE_assoc case_prod_unfold)
  then obtain s1 hs1 s2 where run: "foldE zc_step (s', []) cs = Inr (s1, hs1)"
      "stream_finalize s1 (gs @ hs1) = Inr (s2, fs)"
    by (auto simp: bindE_eq_Inr)
  have "stream_observer s1 = collect_frames" using calls_append(2) [OF o1 run(1)] .
  note fin = finalize_appends [OF this]
  obtain hs2 where hs2: "stream_finalize s1 [] = Inr (s2, hs2)" "fs = gs @ hs1 @ hs2"
    using run(2) fin [of "gs @ hs1"] by (auto simp: bindE_eq_Inr)
  have "frames_left s' cs = Inr (hs1 @ hs2)"
    unfolding frames_left_def run(1) using fin [of hs1] hs2(1) by simp
  then show ?thesis using c o1 hs2(2) by (intro that)
qed

lemma push_frames_left:
  assumes "TxEncoderCore_Push serialize core [] m buffer = Inr (True, core', fs)"
    and "core_next core = collect_frames"
  obtains stream calls where
    "new_TxStream \<lparr> transmission_unit = core_tu core \<rparr>
       \<lparr> coord_sender_id = core_sender_id core, coord_package_id = current_package_id core,
         coord_offset = 0 \<rparr> buffer (core_next core) = Inr stream"
    "serialize m (payload_buf_size stream) = (calls, True)"
    "frames_left stream calls = Inr fs" "stream_observer stream = collect_frames"
proof -
  obtain stream where s: "new_TxStream \<lparr> transmission_unit = core_tu core \<rparr>
      \<lparr> coord_sender_id = core_sender_id core, coord_package_id = current_package_id core,
        coord_offset = 0 \<rparr> buffer (core_next core) = Inr stream"
    using assms(1) by (auto simp: TxEncoderCore_Push_def Let_def bindE_eq_Inr)
  obtain calls ok where ser: "serialize m (payload_buf_size stream) = (calls, ok)"
    by (cases "serialize m (payload_buf_size stream)")
  have ok: "ok" and "frames_left stream calls = Inr fs"
    using assms(1) s ser
    by (auto simp: TxEncoderCore_Push_def Let_def bindE_eq_Inr frames_left_def split: if_splits)
  moreover have "stream_observer stream = collect_frames"
    using s assms(2) by (auto simp: new_TxStream_def split: if_splits)
  ultimately show ?thesis using that s ser by simp
qed

section \<open>What has been sent\<close>

text \<open>
  The jobs in the order in which they started are the list \<open>started\<close>; the one at \<open>x\<close> has the package
  number \<open>x\<close> behind the first one. The frames on the wire are the slices \<open>js\<close>, pairs of \<open>x\<close> and a
  slice number.
\<close>

definition job_bytes :: "('m \<Rightarrow> u8 list) \<Rightarrow> ('m \<times> u8 list) list \<Rightarrow> nat \<Rightarrow> u8 list" where
  "job_bytes bytes_of ps j = bytes_of (fst (ps ! j))"

definition job_slice ::
    "u16 \<Rightarrow> u8 \<Rightarrow> u8 \<Rightarrow> (nat \<Rightarrow> u8 list) \<Rightarrow> nat list \<Rightarrow> nat \<times> nat \<Rightarrow> u8 list \<Rightarrow> bool" where
  "job_slice mp sender first bytes started = (\<lambda>(x, i) f.
     x < length started \<and> i \<le> last_slice mp (bytes (started ! x)) \<and>
     carries_slice mp sender (first + of_nat x) (last_slice mp (bytes (started ! x)))
       (bytes (started ! x)) i f)"

fun job_left :: "'m job \<Rightarrow> u8 list list \<Rightarrow> bool" where
  "job_left (Job_Waiting m buffer) fs = False"
| "job_left (Job_Running s cs ok) fs =
     (ok \<and> stream_observer s = collect_frames \<and> frames_left s cs = Inr fs)"
| "job_left (Job_Done ok) fs = (ok \<and> fs = [])"

definition sent_slices :: "(nat \<times> nat) list \<Rightarrow> nat \<Rightarrow> nat set" where
  "sent_slices js x = {i. (x, i) \<in> set js}"

text \<open>A job has sent its first \<open>e\<close> slices, and the frames it will still send are the others.\<close>

definition job_sending ::
    "u16 \<Rightarrow> u8 \<Rightarrow> u8 \<Rightarrow> (nat \<Rightarrow> u8 list) \<Rightarrow> nat list \<Rightarrow> 'm job \<Rightarrow> nat \<Rightarrow> nat set \<Rightarrow> bool" where
  "job_sending mp sender first bytes started job x sent \<longleftrightarrow>
     (\<exists>e fs. sent = {..<e} \<and> job_left job fs \<and>
        e + length fs = Suc (last_slice mp (bytes (started ! x))) \<and>
        (\<forall>y<length fs. job_slice mp sender first bytes started (x, e + y) (fs ! y)))"

definition jobs_inv ::
    "u16 \<Rightarrow> (nat \<Rightarrow> u8 list) \<Rightarrow> u8 list list TxEncoderCore \<Rightarrow> ('m \<times> u8 list) list \<Rightarrow>
      'm jobs_world \<Rightarrow> nat list \<Rightarrow> (nat \<times> nat) list \<Rightarrow> bool" where
  "jobs_inv mp bytes core ps w started js \<longleftrightarrow>
     jobs_core w = core\<lparr> current_package_id := current_package_id core + of_nat (length started) \<rparr> \<and>
     length (jobs w) = length ps \<and> distinct started \<and> set started \<subseteq> {..<length ps} \<and>
     (\<forall>j<length ps. j \<notin> set started \<longrightarrow> jobs w ! j = Job_Waiting (fst (ps ! j)) (snd (ps ! j))) \<and>
     distinct js \<and>
     list_all2 (job_slice mp (core_sender_id core) (current_package_id core) bytes started) js (jobs_wire w) \<and>
     (\<forall>x<length started. job_sending mp (core_sender_id core) (current_package_id core) bytes started
        (jobs w ! (started ! x)) x (sent_slices js x))"

lemma send_more:
  assumes "list_all2 P js wire" and "distinct js" and "sent_slices js x = {..<e}"
    and "\<forall>y<length gs. P (x, e + y) (gs ! y)"
  defines "new \<equiv> map (\<lambda>y. (x, e + y)) [0..<length gs]"
  shows "list_all2 P (js @ new) (wire @ gs)" and "distinct (js @ new)"
    and "sent_slices (js @ new) x' = (if x' = x then {..<e + length gs} else sent_slices js x')"
proof -
  show "list_all2 P (js @ new) (wire @ gs)"
    using assms(1,4) by (intro list_all2_appendI) (simp_all add: new_def list_all2_conv_all_nth)
  have "(x, e + y) \<notin> set js" for y using assms(3) by (auto simp: sent_slices_def)
  then show "distinct (js @ new)"
    using assms(2) by (auto simp: new_def distinct_map inj_on_def)
  have split: "{..<e + length gs} = {..<e} \<union> (\<lambda>y. e + y) ` {..<length gs}"
  proof (intro set_eqI iffI)
    fix z assume "z \<in> {..<e + length gs}"
    then show "z \<in> {..<e} \<union> (\<lambda>y. e + y) ` {..<length gs}"
      by (cases "z < e") (auto intro!: image_eqI [of _ _ "z - e"])
  qed auto
  show "sent_slices (js @ new) x' = (if x' = x then {..<e + length gs} else sent_slices js x')"
    unfolding split using assms(3) by (auto simp: sent_slices_def new_def)
qed

text \<open>A job that runs on: the frames it sends in its turn move from those left to those sent.\<close>

lemma jobs_inv_send:
  assumes inv: "jobs_inv mp bytes core ps w started js" and x: "x < length started"
    and left: "job_left (jobs w ! (started ! x)) (gs @ hs)" and left': "job_left job hs"
    and job: "\<forall>fs. job_left (jobs w ! (started ! x)) fs \<longrightarrow> fs = gs @ hs"
  shows "\<exists>js'. jobs_inv mp bytes core ps
    (w\<lparr> jobs := (jobs w)[started ! x := job], jobs_wire := jobs_wire w @ gs \<rparr>) started js'"
proof -
  let ?P = "job_slice mp (core_sender_id core) (current_package_id core) bytes started"
  note inv' = inv [unfolded jobs_inv_def]
  obtain e fs where e: "sent_slices js x = {..<e}" "job_left (jobs w ! (started ! x)) fs"
      "e + length fs = Suc (last_slice mp (bytes (started ! x)))" "\<forall>y<length fs. ?P (x, e + y) (fs ! y)"
    using inv' x unfolding job_sending_def by blast
  then have fs: "fs = gs @ hs" using job by blast
  have now: "\<forall>y<length gs. ?P (x, e + y) (gs ! y)"
  proof (intro allI impI)
    fix y assume "y < length gs"
    then show "?P (x, e + y) (gs ! y)" using e(4) [rule_format, of y] by (simp add: fs nth_append)
  qed
  have later: "\<forall>y<length hs. ?P (x, (e + length gs) + y) (hs ! y)"
  proof (intro allI impI)
    fix y assume "y < length hs"
    then show "?P (x, (e + length gs) + y) (hs ! y)"
      using e(4) [rule_format, of "length gs + y"] by (simp add: fs nth_append add.assoc)
  qed
  have wire: "list_all2 ?P js (jobs_wire w)" and "distinct js" using inv' by simp_all
  note more = send_more [OF this e(1) now]
  let ?js = "js @ map (\<lambda>y. (x, e + y)) [0..<length gs]"
  let ?w = "w\<lparr> jobs := (jobs w)[started ! x := job], jobs_wire := jobs_wire w @ gs \<rparr>"
  have lt: "started ! x < length ps" and d: "distinct started" using inv' x nth_mem by fastforce+
  have "job_sending mp (core_sender_id core) (current_package_id core) bytes started
      (jobs ?w ! (started ! x')) x' (sent_slices ?js x')" if x': "x' < length started" for x'
  proof (cases "x' = x")
    case True
    have "e + length gs + length hs = Suc (last_slice mp (bytes (started ! x)))" using e(3) fs by simp
    then show ?thesis
      using left' later lt inv' True more(3) [of x] unfolding job_sending_def
      by (intro exI [of _ "e + length gs"] exI [of _ hs]) simp
  next
    case False
    then have "started ! x' \<noteq> started ! x" using d x x' by (simp add: nth_eq_iff_index_eq)
    then show ?thesis using inv' x' False more(3) [of x'] by simp
  qed
  moreover have "jobs ?w ! j = jobs w ! j" if "j \<notin> set started" for j
    using that x by (metis (no_types) jobs_world.select_convs(2) jobs_world.surjective jobs_world.update_convs(2,3) nth_list_update_neq nth_mem)
  ultimately have "jobs_inv mp bytes core ps ?w started ?js"
    using inv' more(1,2) unfolding jobs_inv_def by simp
  then show ?thesis by blast
qed

text \<open>A job that starts.\<close>

lemma job_slice_started:
  "job_slice mp sender first bytes started p f \<Longrightarrow> job_slice mp sender first bytes (started @ [j]) p f"
  by (auto simp: job_slice_def nth_append split: prod.splits)

lemma job_sending_started:
  "job_sending mp sender first bytes started job x sent \<Longrightarrow> x < length started \<Longrightarrow>
   job_sending mp sender first bytes (started @ [j]) job x sent"
  unfolding job_sending_def
  by (elim exE conjE) (intro exI conjI, assumption+, simp_all add: nth_append job_slice_started)

lemma sent_slices_fresh:
  assumes "list_all2 (job_slice mp sender first bytes started) js wire"
  shows "sent_slices js (length started) = {}"
  using assms
  by (induction rule: list_all2_induct) (auto simp: sent_slices_def job_slice_def)

definition jobs_ok ::
    "u16 \<Rightarrow> 'm serializer \<Rightarrow> ('m \<Rightarrow> u8 list) \<Rightarrow> u8 list list TxEncoderCore \<Rightarrow> ('m \<times> u8 list) list \<Rightarrow> bool" where
  "jobs_ok mp serialize bytes_of core ps \<longleftrightarrow>
     core_next core = collect_frames \<and> mp = core_tu core - 4 \<and> 4 < core_tu core \<and>
     wire_ok mp (core_sender_id core) \<and>
     (\<forall>(m, buffer)\<in>set ps. length buffer = unat (core_tu core) \<and> serializes mp serialize bytes_of m)"

text \<open>The first turn of a job takes the next number and opens a stream that has the message's frames to send.\<close>

lemma waiting_job_starts:
  assumes ok: "jobs_ok mp serialize bytes_of core ps"
    and inv: "jobs_inv mp (job_bytes bytes_of ps) core ps w started js"
    and j: "j < length ps" "j \<notin> set started" and ps: "ps ! j = (m, buffer)"
  obtains stream calls fs where
    "job_step serialize w j = Inr (w\<lparr> jobs_core := (jobs_core w)\<lparr> current_package_id := current_package_id (jobs_core w) + 1 \<rparr>,
      jobs := (jobs w)[j := Job_Running stream calls True] \<rparr>)"
    "serialize m (unat mp) = (calls, True)"
    "frames_left stream calls = Inr fs" "stream_observer stream = collect_frames"
    "length fs = Suc (last_slice mp (bytes_of m))"
    "\<forall>i\<le>last_slice mp (bytes_of m). carries_slice mp (core_sender_id core)
      (current_package_id core + of_nat (length started)) (last_slice mp (bytes_of m)) (bytes_of m) i (fs ! i)"
proof -
  note ok' = ok [unfolded jobs_ok_def] and inv' = inv [unfolded jobs_inv_def]
  let ?core = "jobs_core w" and ?x = "length started"
  let ?sender = "core_sender_id core" and ?first = "current_package_id core"
  have m: "length buffer = unat (core_tu core)" "serializes mp serialize bytes_of m"
    using ok' ps nth_mem [OF j(1)] by auto
  have core: "core_next ?core = collect_frames" "mp = core_tu ?core - 4" "4 < core_tu ?core"
      "wire_ok mp (core_sender_id ?core)" "length buffer = unat (core_tu ?core)"
      "core_sender_id ?core = ?sender" "current_package_id ?core = ?first + of_nat ?x"
    using inv' ok' m(1) by auto
  obtain fs where fs: "TxEncoderCore_Push serialize ?core [] m buffer =
        Inr (True, ?core\<lparr> current_package_id := current_package_id ?core + 1 \<rparr>, fs)"
      "length fs = Suc (last_slice mp (bytes_of m))"
      "\<forall>i\<le>last_slice mp (bytes_of m). carries_slice mp ?sender (?first + of_nat ?x)
        (last_slice mp (bytes_of m)) (bytes_of m) i (fs ! i)"
    using push_message [OF core(1-5) m(2)] core(6,7) by auto
  obtain stream calls where s: "new_TxStream \<lparr> transmission_unit = core_tu ?core \<rparr>
        \<lparr> coord_sender_id = core_sender_id ?core, coord_package_id = current_package_id ?core,
          coord_offset = 0 \<rparr> buffer (core_next ?core) = Inr stream"
      "serialize m (payload_buf_size stream) = (calls, True)"
      "frames_left stream calls = Inr fs" "stream_observer stream = collect_frames"
    by (rule push_frames_left [OF fs(1) core(1)])
  have "unat (core_tu core) - 4 = unat mp"
    using ok' by (simp add: unat_sub word_le_nat_alt word_less_nat_alt)
  then have size: "payload_buf_size stream = unat mp"
    using s(1) m(1) by (auto simp: new_TxStream_def payload_buf_size_def MP_HEADER_SIZE_def split: if_splits)
  have waiting: "jobs w ! j = Job_Waiting m buffer" using inv' j ps by simp
  have "job_step serialize w j = Inr (w\<lparr> jobs_core := ?core\<lparr> current_package_id := current_package_id ?core + 1 \<rparr>,
      jobs := (jobs w)[j := Job_Running stream calls True] \<rparr>)"
    using waiting s(1,2) by (simp add: job_step_def Let_def)
  with s(2-4) fs(2,3) show thesis unfolding size by (intro that)
qed

lemma jobs_inv_start:
  assumes ok: "jobs_ok mp serialize bytes_of core ps"
    and inv: "jobs_inv mp (job_bytes bytes_of ps) core ps w started js"
    and j: "j < length ps" "j \<notin> set started"
  shows "\<exists>w'. job_step serialize w j = Inr w' \<and>
    jobs_inv mp (job_bytes bytes_of ps) core ps w' (started @ [j]) js \<and>
    (\<forall>j'. j' \<noteq> j \<longrightarrow> jobs w' ! j' = jobs w ! j') \<and>
    Suc (job_turns serialize mp (jobs w' ! j)) = job_turns serialize mp (jobs w ! j)"
proof -
  obtain m buffer where ps: "ps ! j = (m, buffer)" by (cases "ps ! j")
  note inv' = inv [unfolded jobs_inv_def]
  let ?core = "jobs_core w" and ?x = "length started" and ?bytes = "job_bytes bytes_of ps"
  let ?sender = "core_sender_id core" and ?first = "current_package_id core"
  obtain stream calls fs where run: "job_step serialize w j =
        Inr (w\<lparr> jobs_core := ?core\<lparr> current_package_id := current_package_id ?core + 1 \<rparr>,
          jobs := (jobs w)[j := Job_Running stream calls True] \<rparr>)"
      "serialize m (unat mp) = (calls, True)"
      "frames_left stream calls = Inr fs" "stream_observer stream = collect_frames"
      "length fs = Suc (last_slice mp (bytes_of m))"
      "\<forall>i\<le>last_slice mp (bytes_of m). carries_slice mp ?sender (?first + of_nat ?x)
        (last_slice mp (bytes_of m)) (bytes_of m) i (fs ! i)"
    by (rule waiting_job_starts [OF ok inv j ps])
  let ?w = "w\<lparr> jobs_core := ?core\<lparr> current_package_id := current_package_id ?core + 1 \<rparr>,
    jobs := (jobs w)[j := Job_Running stream calls True] \<rparr>"
  have "jobs_inv mp ?bytes core ps ?w (started @ [j]) js"
    unfolding jobs_inv_def
  proof (intro conjI allI impI)
    show "jobs_core ?w = core\<lparr> current_package_id := ?first + of_nat (length (started @ [j])) \<rparr>"
      using inv' by simp
    show "list_all2 (job_slice mp ?sender ?first ?bytes (started @ [j])) js (jobs_wire ?w)"
      using inv' by (auto elim: list_all2_mono intro: job_slice_started)
    fix x assume x: "x < length (started @ [j])"
    show "job_sending mp ?sender ?first ?bytes (started @ [j]) (jobs ?w ! ((started @ [j]) ! x)) x (sent_slices js x)"
    proof (cases "x = ?x")
      case True
      have "sent_slices js x = {..<0}" using inv' sent_slices_fresh True by auto
      moreover have "\<forall>y<length fs. job_slice mp ?sender ?first ?bytes (started @ [j]) (x, 0 + y) (fs ! y)"
        using run(5,6) True ps by (simp add: job_slice_def job_bytes_def)
      ultimately show ?thesis
        using True run(3-5) inv' j(1) ps unfolding job_sending_def
        by (intro exI [of _ 0] exI [of _ fs]) (simp add: job_bytes_def)
    next
      case False
      then have "x < length started" using x by simp
      moreover from this have "started ! x \<noteq> j" using j(2) nth_mem by blast
      ultimately show ?thesis
        using inv' job_sending_started [of mp ?sender ?first ?bytes started "jobs w ! (started ! x)" x "sent_slices js x" j]
        by (simp add: nth_append)
    qed
  qed (use inv' j ps in \<open>auto simp: nth_list_update\<close>)
  moreover have "\<forall>j'. j' \<noteq> j \<longrightarrow> jobs ?w ! j' = jobs w ! j'" by simp
  moreover have "Suc (job_turns serialize mp (jobs ?w ! j)) = job_turns serialize mp (jobs w ! j)"
    using run(2) inv' j ps by simp
  ultimately show ?thesis using run(1) by blast
qed

section \<open>Running the jobs\<close>

lemma job_left_unique: "job_left job fs \<Longrightarrow> job_left job gs \<Longrightarrow> fs = gs"
  by (cases job) auto

text \<open>Every turn of a job succeeds, keeps the invariant and leaves the other jobs alone.\<close>

lemma job_turn:
  assumes ok: "jobs_ok mp serialize bytes_of core ps"
    and inv: "jobs_inv mp (job_bytes bytes_of ps) core ps w started js"
    and j: "j < length ps"
  shows "\<exists>w' started' js'. job_step serialize w j = Inr w' \<and>
    jobs_inv mp (job_bytes bytes_of ps) core ps w' started' js' \<and>
    (\<forall>j'. j' \<noteq> j \<longrightarrow> jobs w' ! j' = jobs w ! j') \<and>
    job_turns serialize mp (jobs w' ! j) = job_turns serialize mp (jobs w ! j) - 1"
proof (cases "j \<in> set started")
  case False
  then show ?thesis using jobs_inv_start [OF ok inv j] by (metis diff_Suc_1)
next
  case True
  then obtain x where x: "x < length started" "j = started ! x" by (auto simp: in_set_conv_nth)
  then obtain fs where left: "job_left (jobs w ! j) fs"
    using inv by (auto simp: jobs_inv_def job_sending_def)
  have lt: "j < length (jobs w)" using inv j by (simp add: jobs_inv_def)
  have goal: ?thesis
    if turn: "job_step serialize w j = Inr (w\<lparr> jobs := (jobs w)[j := job], jobs_wire := jobs_wire w @ gs \<rparr>)"
        "job_turns serialize mp job = job_turns serialize mp (jobs w ! j) - 1"
      and fs: "fs = gs @ hs" "job_left job hs"
    for job gs hs
  proof -
    obtain js' where "jobs_inv mp (job_bytes bytes_of ps) core ps
        (w\<lparr> jobs := (jobs w)[j := job], jobs_wire := jobs_wire w @ gs \<rparr>) started js'"
      using jobs_inv_send [OF inv x(1), of gs hs job] left fs job_left_unique x(2) by blast
    then show ?thesis using turn lt
      by (intro exI [of _ "w\<lparr> jobs := (jobs w)[j := job], jobs_wire := jobs_wire w @ gs \<rparr>"]
          exI [of _ started] exI [of _ js']) simp
  qed
  show ?thesis
  proof (cases "jobs w ! j")
    case (Job_Waiting m buffer)
    then show ?thesis using left by simp
  next
    case (Job_Done ok)
    then have "job_step serialize w j = Inr w" by (simp add: job_step_def)
    then show ?thesis using inv Job_Done by (intro exI [of _ w] exI [of _ started] exI [of _ js]) simp
  next
    case (Job_Running s cs okf)
    then have run: "okf" "stream_observer s = collect_frames" "frames_left s cs = Inr fs"
      using left by simp_all
    show ?thesis
    proof (cases cs)
      case Nil
      then obtain s' where "stream_finalize s [] = Inr (s', fs)"
        using run(3) by (auto simp: frames_left_def bindE_eq_Inr)
      then have "job_step serialize w j = Inr (w\<lparr> jobs := (jobs w)[j := Job_Done True], jobs_wire := jobs_wire w @ fs \<rparr>)"
        using Job_Running Nil run(1) finalize_appends [OF run(2), of "jobs_wire w"] by (simp add: job_step_def)
      then show ?thesis using Job_Running Nil by (intro goal [of fs "Job_Done True" "[]"]) simp_all
    next
      case (Cons c cs')
      obtain s' gs hs where c: "zc_step (s, []) c = Inr (s', gs)" "stream_observer s' = collect_frames"
          "frames_left s' cs' = Inr hs" "fs = gs @ hs"
        using frames_left_Cons [OF run(2)] run(3) Cons by blast
      then have "job_step serialize w j = Inr (w\<lparr> jobs := (jobs w)[j := Job_Running s' cs' True], jobs_wire := jobs_wire w @ gs \<rparr>)"
        using Job_Running Cons run(1) zc_step_appends(1) [OF run(2), of "jobs_wire w" c] by (simp add: job_step_def)
      then show ?thesis using Job_Running Cons c(2-4) by (intro goal [of gs "Job_Running s' cs' True" hs]) simp_all
    qed
  qed
qed

lemma jobs_run:
  assumes ok: "jobs_ok mp serialize bytes_of core ps"
    and "jobs_inv mp (job_bytes bytes_of ps) core ps w started js" and "set sched \<subseteq> {..<length ps}"
  shows "\<exists>w' started' js'. run_jobs serialize w sched = Inr w' \<and>
    jobs_inv mp (job_bytes bytes_of ps) core ps w' started' js' \<and>
    (\<forall>j. job_turns serialize mp (jobs w' ! j) = job_turns serialize mp (jobs w ! j) - count_list sched j)"
  using assms(2,3)
proof (induction sched arbitrary: w started js)
  case Nil
  then show ?case by (auto simp: run_jobs_def)
next
  case (Cons j sched)
  obtain w1 st1 js1 where one: "job_step serialize w j = Inr w1"
      "jobs_inv mp (job_bytes bytes_of ps) core ps w1 st1 js1" "\<forall>j'. j' \<noteq> j \<longrightarrow> jobs w1 ! j' = jobs w ! j'"
      "job_turns serialize mp (jobs w1 ! j) = job_turns serialize mp (jobs w ! j) - 1"
    using job_turn [OF ok Cons.prems(1), of j] Cons.prems(2) by auto
  obtain w' st' js' where rest: "run_jobs serialize w1 sched = Inr w'"
      "jobs_inv mp (job_bytes bytes_of ps) core ps w' st' js'"
      "\<forall>j. job_turns serialize mp (jobs w' ! j) = job_turns serialize mp (jobs w1 ! j) - count_list sched j"
    using Cons.IH [OF one(2)] Cons.prems(2) by auto
  have "job_turns serialize mp (jobs w' ! j') = job_turns serialize mp (jobs w ! j') - count_list (j # sched) j'" for j'
    using rest(3) one(3,4) by (cases "j' = j") simp_all
  then show ?case using one(1) rest(1,2) by (auto simp: run_jobs_def)
qed

lemma new_jobs_inv: "jobs_inv mp bytes core ps (new_jobs core ps) [] []"
  by (auto simp: jobs_inv_def new_jobs_def case_prod_unfold)

text \<open>
  When every job is done, the jobs have started in some order, and every slice of every message is on
  the wire once.
\<close>

lemma jobs_finished:
  assumes "jobs_inv mp (job_bytes bytes_of ps) core ps w started js"
    and "\<forall>j<length ps. job_turns serialize mp (jobs w ! j) = 0"
  shows "mset started = mset [0..<length ps]"
    and "\<forall>x<length started. sent_slices js x = {..last_slice mp (job_bytes bytes_of ps (started ! x))}"
proof -
  note inv = assms(1) [unfolded jobs_inv_def]
  have all: "j \<in> set started" if "j < length ps" for j
    using inv assms(2) that by fastforce
  then have "set started = set [0..<length ps]" using inv by auto
  then show "mset started = mset [0..<length ps]"
    using inv set_eq_iff_mset_eq_distinct distinct_upt by blast
  show "\<forall>x<length started. sent_slices js x = {..last_slice mp (job_bytes bytes_of ps (started ! x))}"
  proof (intro allI impI)
    fix x assume x: "x < length started"
    then have "started ! x < length ps" using inv nth_mem by blast
    then have "job_turns serialize mp (jobs w ! (started ! x)) = 0" using assms(2) by simp
    then have "\<exists>ok. jobs w ! (started ! x) = Job_Done ok" by (auto elim!: no_turns_left)
    then show "sent_slices js x = {..last_slice mp (job_bytes bytes_of ps (started ! x))}"
      using inv x by (auto simp: job_sending_def)
  qed
qed

text \<open>Each message completes once, in whatever order the frames come.\<close>

lemma all_complete:
  assumes "distinct js" and "\<forall>(x, i)\<in>set js. x < n \<and> i \<le> k x" and "\<forall>x<n. {i. (x, i) \<in> set js} = {..k x}"
  shows "mset (completed k (\<lambda>_. {}) js) = mset [0..<n]"
proof (rule multiset_eqI)
  fix x
  have "{} \<noteq> {..k y}" for y by simp
  then have count: "count (mset (completed k (\<lambda>_. {}) js)) x = (if {} \<union> {i. (x, i) \<in> set js} = {..k x} then 1 else 0)"
    unfolding count_mset using assms(2) by (intro completed_once [OF assms(1)]) auto
  show "count (mset (completed k (\<lambda>_. {}) js)) x = count (mset [0..<n]) x"
  proof (cases "x < n")
    case False
    then have "{i. (x, i) \<in> set js} = {}" using assms(2) by auto
    then show ?thesis using False count by simp
  qed (use count assms(3) in simp)
qed

lemma list_all2_reordered:
  assumes "list_all2 P xs ys" and "mset ys' = mset ys"
  shows "\<exists>xs'. list_all2 P xs' ys' \<and> mset xs' = mset xs"
proof -
  have "list_all2 P\<inverse>\<inverse> ys xs" using assms(1) by (simp add: list.rel_flip)
  then obtain xs' where "list_all2 P\<inverse>\<inverse> ys' xs'" "mset xs' = mset xs"
    using list_all2_reorder_left_invariance assms(2) by blast
  then show ?thesis by (auto simp: list.rel_flip)
qed

section \<open>Properties\<close>

lemma any_arrival_delivers:
  assumes decoder: "new_RxDecoder (int (unat tu)) observer parse metas u = (d, w)" "length metas = 8"
    and mp: "mp = tu - 4" "wire_ok mp sender"
    and number: "unat first + length ms \<le> 256" "length ms \<le> 128"
    and ms: "\<forall>m\<in>set ms. package_ok mp (last_slice mp (bytes_of m)) (length (bytes_of m)) \<and>
      parse (bytes_of m) = Some m"
    and slices: "list_all2 (\<lambda>(x, i) f. x < length ms \<and> i \<le> last_slice mp (bytes_of (ms ! x)) \<and>
      carries_slice mp sender (first + of_nat x) (last_slice mp (bytes_of (ms ! x))) (bytes_of (ms ! x)) i f)
      js wire"
    and sent: "distinct js" "\<And>x. x < length ms \<Longrightarrow> {i. (x, i) \<in> set js} = {..last_slice mp (bytes_of (ms ! x))}"
    and fs: "mset fs = mset wire"
  shows "\<exists>order. mset order = mset ms \<and>
    bindE (push_blocks d w fs) (\<lambda>w'. Inr (observed w')) = foldE (\<lambda>u m. observer m u) u order"
proof -
  let ?k = "\<lambda>x. last_slice mp (bytes_of (ms ! x))"
  obtain js' where js': "list_all2 (\<lambda>(x, i) f. x < length ms \<and> i \<le> ?k x \<and>
      carries_slice mp sender (first + of_nat x) (?k x) (bytes_of (ms ! x)) i f) js' fs" "mset js' = mset js"
    using list_all2_reordered [OF slices fs] by blast
  let ?order = "completed ?k (\<lambda>_. {}) js'"
  have "distinct js'" "set js' = set js"
    using sent(1) js'(2) mset_eq_imp_distinct_iff mset_eq_setD by blast+
  moreover have "\<forall>(x, i)\<in>set js'. x < length ms \<and> i \<le> ?k x"
    using js'(1) by (induction rule: list_all2_induct) auto
  ultimately have "mset ?order = mset [0..<length ms]" using sent(2) by (intro all_complete) simp_all
  then have "mset (map ((!) ms) ?order) = mset (map ((!) ms) [0..<length ms])" by (simp only: mset_map)
  then have "mset (map ((!) ms) ?order) = mset ms" by (simp only: map_nth)
  moreover have "bindE (push_blocks d w fs) (\<lambda>w'. Inr (observed w')) =
      foldE (\<lambda>u m. observer m u) u (map ((!) ms) ?order)"
    using feed_messages [OF decoder mp number ms js'(1)] by (simp add: foldE_map)
  ultimately show ?thesis by blast
qed

text \<open>C7: \<open>Push\<close> may be called from several threads. Each of the jobs pushes one message, with a buffer of its
  own, and the turns of the jobs are mixed in any way that gives each the turns it needs. Every turn
  succeeds, and the frames sent, in any order, give a new decoder every message exactly once,
  unchanged.\<close>

theorem concurrent_pushes_deliver:
  assumes core: "core_next core = collect_frames" "4 < core_tu core" "wire_ok (core_tu core - 4) (core_sender_id core)"
    and ps: "\<forall>(m, buffer)\<in>set ps. length buffer = unat (core_tu core) \<and>
      serializes (core_tu core - 4) serialize bytes_of m \<and> parse (bytes_of m) = Some m"
    and number: "unat (current_package_id core) + length ps \<le> 256" "length ps \<le> 128"
    and sched: "set sched \<subseteq> {..<length ps}"
      "\<forall>j<length ps. length (fst (serialize (fst (ps ! j)) (unat (core_tu core - 4)))) + 2 \<le> count_list sched j"
    and decoder: "new_RxDecoder (int (unat (core_tu core))) observer parse metas u = (d, w)" "length metas = 8"
  shows "\<exists>w'. run_jobs serialize (new_jobs core ps) sched = Inr w' \<and>
    (\<forall>fs. mset fs = mset (jobs_wire w') \<longrightarrow> (\<exists>order. mset order = mset (map fst ps) \<and>
      bindE (push_blocks d w fs) (\<lambda>w''. Inr (observed w'')) = foldE (\<lambda>u m. observer m u) u order))"
proof -
  let ?mp = "core_tu core - 4" and ?s = "core_sender_id core" and ?first = "current_package_id core"
  let ?bytes = "job_bytes bytes_of ps"
  have ok: "jobs_ok ?mp serialize bytes_of core ps" using core ps by (auto simp: jobs_ok_def)
  obtain w' started js where run: "run_jobs serialize (new_jobs core ps) sched = Inr w'"
      "jobs_inv ?mp ?bytes core ps w' started js"
      "\<forall>j. job_turns serialize ?mp (jobs w' ! j) = job_turns serialize ?mp (jobs (new_jobs core ps) ! j) - count_list sched j"
    using jobs_run [OF ok new_jobs_inv sched(1)] by blast
  have "\<forall>j<length ps. job_turns serialize ?mp (jobs w' ! j) = 0"
    using run(3) sched(2) by (simp add: new_jobs_def case_prod_unfold)
  note finished = jobs_finished [OF run(2) this]
  note inv = run(2) [unfolded jobs_inv_def]
  define ms where "ms = map (\<lambda>j. fst (ps ! j)) started"
  have perm: "mset ms = mset (map fst ps)"
  proof -
    have "map (\<lambda>j. fst (ps ! j)) [0..<length ps] = map fst ps" by (rule nth_equalityI) simp_all
    then have "image_mset (\<lambda>j. fst (ps ! j)) (mset [0..<length ps]) = mset (map fst ps)"
      by (metis mset_map)
    then show ?thesis by (simp only: ms_def mset_map finished(1))
  qed
  have len: "length ms = length ps" using mset_eq_length [OF perm] by simp
  have bytes: "?bytes (started ! x) = bytes_of (ms ! x)" if "x < length ms" for x
    using that by (simp add: ms_def job_bytes_def)
  have slices: "list_all2 (\<lambda>(x, i) f. x < length ms \<and> i \<le> last_slice ?mp (bytes_of (ms ! x)) \<and>
      carries_slice ?mp ?s (?first + of_nat x) (last_slice ?mp (bytes_of (ms ! x))) (bytes_of (ms ! x)) i f)
      js (jobs_wire w')"
    using inv by (auto simp: job_slice_def ms_def job_bytes_def elim!: list_all2_mono)
  have sent: "{i. (x, i) \<in> set js} = {..last_slice ?mp (bytes_of (ms ! x))}" if "x < length ms" for x
    using finished(2) that bytes [OF that] by (simp add: sent_slices_def ms_def)
  have ms: "\<forall>m\<in>set ms. package_ok ?mp (last_slice ?mp (bytes_of m)) (length (bytes_of m)) \<and> parse (bytes_of m) = Some m"
    using ps perm [THEN mset_eq_setD] by (auto simp: serializes_def)
  have "distinct js" using inv by blast
  note arrival = any_arrival_delivers [OF decoder refl core(3) _ _ ms slices this sent, unfolded perm len]
  show ?thesis using run(1) arrival [OF number] by blast
qed

lemma collecting_order:
  "foldE (\<lambda>u m. Inr (u @ [m])) u order = Inr (u @ order)"
  by (induction order arbitrary: u) simp_all

theorem concurrent_pushes_deliver_witness:
  "\<exists>w'. run_jobs (\<lambda>m n. (zc_calls n m, True)) (new_jobs (new_TxEncoderCore 8 2 collect_frames)
      [([1, 2, 3, 4, 5], replicate 8 9), ([7], replicate 8 0)]) [0, 1, 0, 0, 1, 1, 0, 1, 0] = Inr w' \<and>
    (\<forall>fs. mset fs = mset (jobs_wire w') \<longrightarrow> (\<exists>seen. mset seen = mset [[1, 2, 3, 4, 5], [7]] \<and>
      bindE (push_blocks (fst example_decoder) (snd example_decoder) fs) (\<lambda>w''. Inr (observed w'')) = Inr seen))"
proof -
  let ?core = "new_TxEncoderCore 8 2 collect_frames"
    and ?ps = "[([1, 2, 3, 4, 5], replicate 8 9), ([7], replicate 8 0)] :: (u8 list \<times> u8 list) list"
    and ?sched = "[0, 1, 0, 0, 1, 1, 0, 1, 0] :: nat list"
  have core: "core_tu ?core = 8" "core_sender_id ?core = 2" "core_next ?core = collect_frames"
      "current_package_id ?core = 0"
    by (simp_all add: new_TxEncoderCore_def)
  have new: "new_RxDecoder (int (unat (core_tu ?core))) (\<lambda>msg seen. Inr (seen @ [msg])) Some
      (replicate 8 \<lparr> meta_pkg = 200, meta_gen = 3 \<rparr>) [] = (fst example_decoder, snd example_decoder)"
    using example_decoder_new by (simp add: core)
  have ps: "\<forall>(m, buffer)\<in>set ?ps. length buffer = unat (core_tu ?core) \<and>
      serializes (core_tu ?core - 4) (\<lambda>m n. (zc_calls n m, True)) id m \<and> Some (id m) = Some m"
    by (simp add: core serializes_def last_slice_def package_ok_def)
  have sched: "\<forall>j<length ?ps. length (fst (zc_calls (unat (core_tu ?core - 4)) (fst (?ps ! j)), True)) + 2 \<le>
      count_list ?sched j"
    by (simp add: core less_Suc_eq all_conj_distrib zc_calls.simps)
  show ?thesis
    using concurrent_pushes_deliver [where core = ?core and ps = ?ps and bytes_of = id and sched = ?sched
        and serialize = "\<lambda>m n. (zc_calls n m, True)", OF core(3) _ _ ps _ _ _ sched new]
    by (simp add: core wire_ok_def collecting_order)
qed

end
