(* ===== verification/Cpp_Generations.thy ===== *)
theory Cpp_Generations
  imports Cpp_Rx
begin

text \<open>
  What a new generation does not empty. \<open>gc_clock_hook\<close> of \<^bold>\<open>customdata-protobuf-rx.cpp\<close> compares the
  generation of a slot only when slices have been counted in it, and an empty slice with the end mark
  is not counted. So an end that came alone outlives its generation and cuts the next package of that
  number.
\<close>

section \<open>The hook twice\<close>

lemma gc_hook_idem:
  "table_wf T \<Longrightarrow> s < 8 \<Longrightarrow> gc_hook (gc_hook T s p) s p = gc_hook T s p"
  by (simp add: gc_hook_def table_wf_def Let_def word_less_nat_alt)

text \<open>So the decoder does the same from a table in which the hook for the block has been called before.\<close>

lemma push_hooked:
  assumes "table_wf (coordinator_table w)" and "s < 8" and "MP_HEADER_SIZE \<le> length f"
    and "hdr_sender_id (block_header f) = s" and "package_serial (block_header f) = p"
  shows "RxDecoder_Push d (w\<lparr> coordinator_table := gc_hook (coordinator_table w) s p \<rparr>) f = RxDecoder_Push d w f"
proof -
  have "coord_sender_id (mp_rx_header_to_coordinate (RxDecoder_config d) (block_header f)) = s"
    "coord_package_id (mp_rx_header_to_coordinate (RxDecoder_config d) (block_header f)) = p"
    using assms(4,5) by (simp_all add: mp_rx_header_to_coordinate_def Let_def)
  note coord = this
  let ?w = "w\<lparr> coordinator_table := gc_hook (coordinator_table w) s p \<rparr>"
  have table: "coordinator_table ?w = gc_hook (coordinator_table w) s p" "observed ?w = observed w"
    "arena_messages ?w = arena_messages w" "?w\<lparr> coordinator_table := T \<rparr> = w\<lparr> coordinator_table := T \<rparr>" for T
    by simp_all
  have wf: "table_wf (coordinator_table ?w)" using assms(1) by (simp add: gc_hook_wf)
  show ?thesis
    unfolding push_block [OF wf assms(3)] push_block [OF assms(1,3)] coord table
      gc_hook_idem [OF assms(1,2)] ..
qed

section \<open>An end without a package\<close>

text \<open>
  The slices below a position at which another end is known are slices of the package cut there.
\<close>

lemma cut_slice:
  assumes ok: "package_ok mp k' (length bytes)" and i: "i < k" "k * unat mp < length bytes"
    and f: "carries_slice mp s p k' bytes i f"
  shows "carries_slice mp s p k (take (k * unat mp) bytes) i f"
proof -
  have "k * unat mp < Suc k' * unat mp" using package_okD(6) [OF ok] i(2) by linarith
  then have "i < k'" using i(1) mult_less_cancel2 [of k "unat mp" "Suc k'"] by linarith
  moreover have "unat mp + i * unat mp \<le> k * unat mp"
    using mult_le_mono1 [of "Suc i" k "unat mp"] i(1) by simp
  ultimately show ?thesis
    using f i by (simp add: carries_slice_def slice_header_of_def slice_len_def slice_bytes_def drop_take min_def
        del: mult_Suc)
qed

lemma held_end:
  assumes held: "package_held mp (k, bytes) {k} slot" and len: "length bytes = k * unat mp" "length bytes' = k * unat mp"
    and ok: "package_ok mp k (length bytes)"
  shows "package_held mp (k, bytes') {k} slot" and "received_count (slot_state slot) = 0"
proof -
  show "package_held mp (k, bytes') {k} slot"
    using held len by (simp add: package_held_def slices_held_def slice_len_def slice_bytes_def)
  have "data_slices mp k (length bytes) = k" using len(1) by (simp add: data_slices_def)
  then show "received_count (slot_state slot) = 0"
    using held by (simp add: package_held_def package_view_def unat_eq_0)
qed

text \<open>The state behind an end of a package and a block of a much lower number.\<close>

lemma end_survives:
  assumes new: "new_RxDecoder tu observer parse metas u = (d, w)" "length metas = 8"
    and mp: "mp = mp_max_payload (RxDecoder_config d)" and wire: "wire_ok mp s"
    and ok: "package_ok mp k (length bytes)" "length bytes = k * unat mp" "length bytes' = k * unat mp"
    and e: "carries_slice mp s p k bytes k e"
    and g: "MP_HEADER_SIZE \<le> length g" "hdr_sender_id (block_header g) = s" "package_serial (block_header g) = p'"
      "unat p' + 127 < unat p"
    and pushed: "push_blocks d w [e, g] = Inr w2"
  shows "table_wf (coordinator_table w2)"
    and "cpp_holds d {(s, p)} (\<lambda>_. (k, bytes'))
      (w2\<lparr> coordinator_table := gc_hook (coordinator_table w2) s p \<rparr>) (\<lambda>_. {k})"
proof -
  let ?c = "key_coord (s, p)" and ?content = "(\<lambda>_. (k, bytes)) :: contents"
    and ?cg = "mp_rx_header_to_coordinate (RxDecoder_config d) (block_header g)"
  have s8: "s < 8" using wire by (simp add: wire_ok_def)
  have keys: "keys_ok mp {(s, p)} ?content" "keys_ok mp {(s, p)} (\<lambda>_. (k, bytes'))"
    using ok wire by (simp_all add: keys_ok_def)
  note start = new_decoder_holds [OF new(2,1) keys(1) [unfolded mp]]
  have "0 < k" using package_okD(4) [OF ok(1)] ok(2) by (cases k) simp_all
  then have more: "{k} \<noteq> {..k}" by (auto simp: set_eq_iff)
  have "arrival_frame (mp_max_payload (RxDecoder_config d)) ?content ((s, p), k) e"
    using e by (simp add: arrival_frame_def mp)
  from cpp_frame(1) [OF start _ this] more obtain T where
      one: "RxDecoder_Push d w e = Inr (w\<lparr> coordinator_table := T \<rparr>)"
        "cpp_holds d {(s, p)} ?content (w\<lparr> coordinator_table := T \<rparr>) ((\<lambda>_. {})((s, p) := {k}))"
    by auto
  have held: "package_held mp (k, bytes) {k} (slot_at T ?c)" "table_wf T"
    using one(2) by (simp_all add: cpp_holds_def table_holds_def mp)
  have push_g: "push_blocks d (w\<lparr> coordinator_table := T \<rparr>) [g] = Inr w2"
    using pushed one(1) by (simp add: push_blocks_def)
  have other: "table_wf (coordinator_table w2) \<and> slot_at (coordinator_table w2) ?c = slot_at T ?c"
    using push_blocks_other [OF push_g, of "(s, p)"] held(2) g s8 by auto
  then show wf2: "table_wf (coordinator_table w2)" by simp
  let ?T = "gc_hook (coordinator_table w2) s p"
  have slot: "package_held mp (k, bytes') {k} (slot_at ?T ?c)" "slot_live ?T ?c"
    using held_end [OF held(1) ok(2,3,1)] other by (simp_all add: slot_live_def)
  have "meta_pkg (sender_metas ?T ! unat s) = p" using gc_hook_metas [OF wf2 s8, of p s] by simp
  then show "cpp_holds d {(s, p)} (\<lambda>_. (k, bytes')) (w2\<lparr> coordinator_table := ?T \<rparr>) (\<lambda>_. {k})"
    using keys(2) slot gc_hook_wf [OF wf2] more by (simp add: cpp_holds_def table_holds_def mp)
qed

text \<open>Up to there the observer has been told nothing.\<close>

lemma end_then_low:
  assumes new: "new_RxDecoder tu observer parse metas u = (d, w)" "length metas = 8"
    and mp: "mp = mp_max_payload (RxDecoder_config d)" and wire: "wire_ok mp s"
    and old: "package_ok mp k (length old)" "carries_slice mp s p k old k e" "0 < k"
    and low: "package_ok mp k'' (length low)" "carries_slice mp s p' k'' low j g" "j \<le> k''" "0 < k''" "p' \<noteq> p"
  shows "\<exists>w2. push_blocks d w [e, g] = Inr w2 \<and> observed w2 = u"
proof -
  have single: "{x} \<noteq> {..n}" if "0 < n" for x n :: nat
    using arg_cong [of "{x}" "{..n}" card] that by auto
  have more: "{k} \<noteq> {..k}" "{j} \<noteq> {..k''}" by (rule single, fact)+
  have e: "MP_HEADER_SIZE \<le> length e \<and> hdr_sender_id (block_header e) = s \<and> package_serial (block_header e) = p"
    by (rule carried_key [OF old(2,1) order_refl wire])
  have frames: "arrival_frame (mp_max_payload (RxDecoder_config d)) (\<lambda>_. (k, old)) ((s, p), k) e"
      "arrival_frame (mp_max_payload (RxDecoder_config d)) (\<lambda>_. (k'', low)) ((s, p'), j) g"
    using old(2) low(2,3) by (simp_all add: arrival_frame_def mp)
  have "cpp_holds d {(s, p)} (\<lambda>_. (k, old)) w (\<lambda>_. {})"
    using untouched_package_holds [OF new _ mp wire old(1), of "[]"] by (simp add: push_blocks_def)
  from cpp_frame(1) [OF this _ frames(1)] obtain w1 where w1: "push_blocks d w [e] = Inr w1" "observed w1 = u"
    using more(1) new_decoder_slots(2) [OF new(2,1)] by (auto simp: push_blocks_def)
  have "cpp_holds d {(s, p')} (\<lambda>_. (k'', low)) w1 (\<lambda>_. {})"
    using untouched_package_holds [OF new w1(1) mp wire low(1), of p'] e low(5) by auto
  from cpp_frame(1) [OF this _ frames(2)] show ?thesis
    using more(2) w1 by (auto simp: push_blocks_def)
qed

text \<open>The slices of a package whose end is known already, at a table that holds that end.\<close>

lemma slices_below_end:
  assumes wf: "table_wf (coordinator_table w)" and mp: "mp = mp_max_payload (RxDecoder_config d)"
    and wire: "wire_ok mp s" and ok: "package_ok mp k (length bytes)"
    and holds: "cpp_holds d {(s, p)} (\<lambda>_. (k, bytes))
      (w\<lparr> coordinator_table := gc_hook (coordinator_table w) s p \<rparr>) (\<lambda>_. {k})"
    and carry: "list_all2 (carries_slice mp s p k bytes) (ids @ [i]) fs"
    and ids: "set ids \<union> {i} = {..<k}" "set ids \<noteq> {..<k}"
  shows "bindE (push_blocks d w fs) (\<lambda>w'. Inr (observed w')) = deliver_message d bytes (observed w)"
proof -
  let ?content = "(\<lambda>_. (k, bytes)) :: contents"
    and ?w = "w\<lparr> coordinator_table := gc_hook (coordinator_table w) s p \<rparr>"
  have s8: "s < 8" using wire by (simp add: wire_ok_def)
  have below: "\<forall>j\<in>set (ids @ [i]). j < k" using ids(1) by auto
  have arrive: "list_all2 (arrival_frame mp ?content) (map (Pair (s, p)) (ids @ [i])) fs"
    using carry below by (intro arrivals_of_package) (auto intro: less_imp_le)
  have all: "insert i (set ids) = {..<k}" "k \<notin> set ids" using ids(1) below by auto
  have "{..k} - {k} = {..<k}" "insert k {..<k} = {..k}" by auto
  then have seen: "set ids \<subseteq> {..k}" "{k} \<union> set ids \<noteq> {..k}" "insert i (insert k (set ids)) = {..k}"
    using ids(2) all below unfolding insert_commute [of i k] all(1) by auto
  have "arrivals_run ?content (\<lambda>_. {k}) (map (Pair (s, p)) (ids @ [i])) = [bytes]"
    using arrivals_run_some [of ids ?content "(s, p)" "\<lambda>_. {k}" "[((s, p), i)]"] seen by simp
  then have "bindE (push_blocks d ?w fs) (\<lambda>w'. Inr (observed w')) = deliver_message d bytes (observed w)"
    using cpp_rx.feed_arrivals [OF arrive [unfolded mp] _ holds] by (auto simp: push_blocks_def image_subset_iff)
  moreover obtain f gs where f: "fs = f # gs" using carry by (cases fs) simp_all
  obtain j where "j < k" "carries_slice mp s p k bytes j f"
    using carry below unfolding f by (cases ids) auto
  then have "MP_HEADER_SIZE \<le> length f \<and> hdr_sender_id (block_header f) = s \<and> package_serial (block_header f) = p"
    using carried_key [OF _ ok less_imp_le wire] by blast
  then have "push_blocks d ?w fs = push_blocks d w fs"
    using push_hooked [OF wf s8, of f p d] by (simp add: f push_blocks_def)
  ultimately show ?thesis by simp
qed

section \<open>Properties\<close>

text \<open>C40: The end of a package that was lost cuts a later one. When of a package whose length is a multiple of
  the maximum payload only the last, empty slice has come, and the sender's package numbers start over,
  the C++ decoder does not forget the end: the next package of that number, if it is longer, is handed
  on cut at the length of the old one as soon as its slices up to there have come.\<close>

theorem stale_end_cuts_next_package:
  assumes new: "new_RxDecoder tu observer parse metas u = (d, w)" "length metas = 8"
    and mp: "mp = mp_max_payload (RxDecoder_config d)" and wire: "wire_ok mp s"
    and old: "package_ok mp k (length old)" "length old = k * unat mp" "carries_slice mp s p k old k e"
    and low: "package_ok mp k'' (length low)" "carries_slice mp s p' k'' low j g" "j \<le> k''" "0 < k''"
      "unat p' + 127 < unat p"
    and next_ok: "package_ok mp k' (length bytes)" "length old < length bytes"
    and fs: "list_all2 (carries_slice mp s p k' bytes) (ids @ [i]) fs" "set ids \<union> {i} = {..<k}" "set ids \<noteq> {..<k}"
  shows "bindE (push_blocks d w (e # g # fs)) (\<lambda>w'. Inr (observed w')) =
    deliver_message d (take (length old) bytes) u"
proof -
  let ?bytes = "take (length old) bytes"
  have len: "length ?bytes = k * unat mp" using next_ok(2) old(2) by simp
  have ok: "package_ok mp k (length ?bytes)" unfolding len using old(1,2) by simp
  have "0 < k" using package_okD(4) [OF old(1)] old(2) by (cases k) simp_all
  then obtain w2 where w2: "push_blocks d w [e, g] = Inr w2" "observed w2 = u"
    using end_then_low [OF new mp wire old(1,3) _ low(1-4)] low(5) by auto
  have g: "MP_HEADER_SIZE \<le> length g" "hdr_sender_id (block_header g) = s" "package_serial (block_header g) = p'"
    using carried_key [OF low(2,1,3) wire] by auto
  note survives = end_survives [OF new mp wire old(1,2) len old(3) g low(5) w2(1)]
  have "j < k \<Longrightarrow> carries_slice mp s p k' bytes j f \<Longrightarrow> carries_slice mp s p k ?bytes j f" for j f
    using cut_slice [OF next_ok(1), of j k] next_ok(2) old(2) by simp
  moreover have "\<forall>j\<in>set (ids @ [i]). j < k" using fs(2) by auto
  ultimately have "list_all2 (carries_slice mp s p k ?bytes) (ids @ [i]) fs"
    using list.rel_mono_strong [OF fs(1)] by blast
  note slices_below_end [OF survives(1) mp wire ok survives(2) this fs(2,3)]
  moreover have "push_blocks d w (e # g # fs) = bindE (push_blocks d w [e, g]) (\<lambda>w2. push_blocks d w2 fs)"
    using foldE_append [of "RxDecoder_Push d" w "[e, g]" fs] by (simp add: push_blocks_def)
  ultimately show ?thesis using w2 by simp
qed

text \<open>Of package 200 with four bytes only the empty last slice comes; nine bytes follow under the number 200.\<close>

theorem stale_end_cuts_next_package_witness:
  "bindE (push_blocks (fst example_decoder) (snd example_decoder)
      (slice_frame 4 2 200 1 [1, 2, 3, 4] 1 # slice_frame 4 2 3 1 [7, 7, 7, 7, 7] 0 #
       [slice_frame 4 2 200 2 [11, 12, 13, 14, 15, 16, 17, 18, 19] 0])) (\<lambda>w. Inr (observed w)) =
    Inr [[11, 12, 13, 14]]"
proof -
  note new = example_decoder_new and mp = example_decoder_payload [symmetric]
  have wire: "wire_ok 4 2" and old: "package_ok 4 1 (length [1, 2, 3, 4 :: u8])"
    and low: "package_ok 4 1 (length [7, 7, 7, 7, 7 :: u8])"
    and next_ok: "package_ok 4 2 (length [11, 12, 13, 14, 15, 16, 17, 18, 19 :: u8])"
    by (simp_all add: package_ok_def wire_ok_def)
  have e: "carries_slice 4 2 200 1 [1, 2, 3, 4] 1 (slice_frame 4 2 200 1 [1, 2, 3, 4] 1)"
    by (rule slice_frame_carries(1) [OF old order_refl wire])
  have g: "carries_slice 4 2 3 1 [7, 7, 7, 7, 7] 0 (slice_frame 4 2 3 1 [7, 7, 7, 7, 7] 0)"
    by (rule slice_frame_carries(1) [OF low _ wire]) simp
  have fs: "list_all2 (carries_slice 4 2 200 2 [11, 12, 13, 14, 15, 16, 17, 18, 19]) ([] @ [0])
      [slice_frame 4 2 200 2 [11, 12, 13, 14, 15, 16, 17, 18, 19] 0]"
    using slice_frame_carries(1) [OF next_ok _ wire, of 0 200] by simp
  have ids: "set [] \<union> {0} = {..<1 :: nat}" "set [] \<noteq> {..<1 :: nat}" by auto
  have nums: "length [1, 2, 3, 4 :: u8] = 1 * unat (4 :: u16)" "(0 :: nat) \<le> 1" "(0 :: nat) < 1"
      "unat (3 :: u8) + 127 < unat (200 :: u8)"
      "length [1, 2, 3, 4 :: u8] < length [11, 12, 13, 14, 15, 16, 17, 18, 19 :: u8]"
    by simp_all
  show ?thesis
    using stale_end_cuts_next_package [OF new _ mp wire old nums(1) e low g nums(2-4) next_ok nums(5) fs ids]
    by (simp add: deliver_message_def) (simp add: example_decoder_def new_RxDecoder_def)
qed

end
