(* ===== verification/Embedded_Encode.thy ===== *)
theory Embedded_Encode
  imports Stream_Tx
begin

text \<open>
  \<^bold>\<open>src/embedded/customdata-embedded-encode.h\<close> and \<^bold>\<open>.c\<close>: nanopb writes a message
  into the sending stream, whose downstream copies payload and header into the user's block
  through \<open>data_put_cb\<close> and has it sent by \<open>send_signal_cb\<close>. The user's callbacks work on a
  state \<open>'u\<close>. nanopb is a parameter: \<open>pb_encode\<close> gives, for the fields and the message, the
  pieces it hands to the stream's callback, in order, and its result.
\<close>

section \<open>The instance\<close>

text \<open>
  The constant part of \<open>mp_pb_encoder_inst_t\<close>, and the part the pipeline changes. The stream
  \<open>mp_stream\<close> inside the instance is passed on its own, because its callback works on the rest.
\<close>

record 'u mp_pb_encoder_inst =
  enc_config :: mp_config
  enc_sender_id :: u8
  data_put_cb :: "'u \<Rightarrow> u16 \<Rightarrow> u8 list \<Rightarrow> u16 \<Rightarrow> 'u res"
  send_signal_cb :: "'u \<Rightarrow> 'u res"

record 'u enc_state =
  enc_user :: 'u
  accumulated :: u16

section \<open>The pipelines\<close>

definition mp_tx_push_pipeline :: "'u mp_pb_encoder_inst \<Rightarrow> 'u enc_state mp_tx_push_cb" where
  "mp_tx_push_pipeline inst st act nullable_header nullable_data sz =
     bindE
       (case nullable_data of
          Some data \<Rightarrow>
            if sz \<noteq> 0 then
              bindE (data_put_cb inst (enc_user st) (accumulated st + of_nat MP_HEADER_SIZE) data sz)
                (\<lambda>u. Inr (st\<lparr> enc_user := u, accumulated := accumulated st + sz \<rparr>))
            else Inr st
        | None \<Rightarrow> Inr st)
       (\<lambda>st1.
        case nullable_header of
          None \<Rightarrow> Inr st1
        | Some header \<Rightarrow>
            bindE (data_put_cb inst (enc_user st1) 0
                (MP_PACKED_HEADER_TO_ARRAY (mp_header_pack header)) (of_nat MP_HEADER_SIZE)) (\<lambda>u.
            bindE (send_signal_cb inst u) (\<lambda>u'.
              Inr (st1\<lparr> enc_user := u', accumulated := 0 \<rparr>))))"

text \<open>The callback of the nanopb stream; \<open>count\<close> is cut to 16 bits. It always returns true.\<close>

definition pb_ostream_pipeline ::
    "'u enc_state mp_tx_stream \<Rightarrow> 'u enc_state \<Rightarrow> u8 list \<Rightarrow>
      ('u enc_state mp_tx_stream \<times> 'u enc_state) res" where
  "pb_ostream_pipeline mp_stream st buf = mp_tx_stream_feed mp_stream st buf (of_nat (length buf))"

section \<open>Encoding a message\<close>

type_synonym ('f, 'm) pb_encode = "'f \<Rightarrow> 'm \<Rightarrow> u8 list list \<times> bool"

definition mp_pb_encode ::
    "('f, 'm) pb_encode \<Rightarrow> 'u mp_pb_encoder_inst \<Rightarrow> 'u \<Rightarrow> 'f \<Rightarrow> 'm \<Rightarrow> u8 \<Rightarrow> (bool \<times> 'u) res" where
  "mp_pb_encode pb_encode inst user msg_fields message serial =
     (let mp_stream = \<lparr> tx_config = enc_config inst,
            tx_cursor = \<lparr> coord_sender_id = enc_sender_id inst,
              coord_package_id = serial, coord_offset = 0 \<rparr>,
            tx_fill = 0, tx_push = mp_tx_push_pipeline inst \<rparr>;
          st = \<lparr> enc_user = user, accumulated = 0 \<rparr>
      in case pb_encode msg_fields message of (pieces, ok) \<Rightarrow>
        bindE (foldE (\<lambda>(s, w) buf. pb_ostream_pipeline s w buf) (mp_stream, st) pieces)
          (\<lambda>(mp_stream', st').
           let empty = (sum_list (map length pieces) = 0)
           in if ok \<and> \<not> empty then
                bindE (mp_tx_stream_finalize mp_stream' st') (\<lambda>(s, st''). Inr (ok, enc_user st''))
              else Inr (ok, enc_user st')))"

section \<open>The pipeline keeps the contract of a downstream\<close>

text \<open>
  What the two user callbacks have to do, as the header of the instance documents it: put the
  bytes at their offset into the block of one transmission unit, and send the block. \<open>block u\<close>
  is the block, \<open>frames u\<close> what has been sent, \<open>ok u\<close> an invariant of the user's state.
\<close>

definition block_device ::
    "'u mp_pb_encoder_inst \<Rightarrow> u16 \<Rightarrow> ('u \<Rightarrow> bool) \<Rightarrow> ('u \<Rightarrow> u8 list) \<Rightarrow> ('u \<Rightarrow> u8 list list) \<Rightarrow> bool" where
  "block_device inst mp ok block frames \<longleftrightarrow>
     (\<forall>u. ok u \<longrightarrow> length (block u) = unat mp + 4) \<and>
     (\<forall>u off d n. ok u \<longrightarrow> unat n \<le> length d \<longrightarrow> unat off + unat n \<le> unat mp + 4 \<longrightarrow>
        (\<exists>u'. data_put_cb inst u off d n = Inr u' \<and> ok u' \<and> frames u' = frames u \<and>
          block u' = take (unat off) (block u) @ take (unat n) d @
            drop (unat off + unat n) (block u))) \<and>
     (\<forall>u. ok u \<longrightarrow> (\<exists>u'. send_signal_cb inst u = Inr u' \<and> ok u' \<and>
        frames u' = frames u @ [block u]))"

lemma block_deviceD:
  assumes "block_device inst mp ok block frames" and "ok u"
  shows "length (block u) = unat mp + 4"
    and "unat n \<le> length d \<Longrightarrow> unat off + unat n \<le> unat mp + 4 \<Longrightarrow>
      \<exists>u'. data_put_cb inst u off d n = Inr u' \<and> ok u' \<and> frames u' = frames u \<and>
        block u' = take (unat off) (block u) @ take (unat n) d @
          drop (unat off + unat n) (block u)"
    and "\<exists>u'. send_signal_cb inst u = Inr u' \<and> ok u' \<and> frames u' = frames u @ [block u]"
  using assms unfolding block_device_def by blast+

text \<open>The invariant of the pipeline, with the demand on the callbacks as a part of it.\<close>

definition enc_ok ::
    "'u mp_pb_encoder_inst \<Rightarrow> u16 \<Rightarrow> ('u \<Rightarrow> bool) \<Rightarrow> ('u \<Rightarrow> u8 list) \<Rightarrow> ('u \<Rightarrow> u8 list list) \<Rightarrow>
      'u enc_state \<Rightarrow> bool" where
  "enc_ok inst mp ok block frames st \<longleftrightarrow>
     block_device inst mp ok block frames \<and> unat mp + 4 < 65536 \<and> ok (enc_user st) \<and>
     unat (accumulated st) \<le> unat mp"

definition enc_pend :: "('u \<Rightarrow> u8 list) \<Rightarrow> 'u enc_state \<Rightarrow> u8 list" where
  "enc_pend block st = take (unat (accumulated st)) (drop 4 (block (enc_user st)))"

lemma enc_push_data:
  assumes ok: "enc_ok inst mp ok block frames st" and n: "unat n \<le> length d"
    and room: "length (enc_pend block st) + unat n \<le> unat mp"
  shows "\<exists>st'. mp_tx_push_pipeline inst st MP_TX_ACT_DATA None (Some d) n = Inr st' \<and>
    enc_ok inst mp ok block frames st' \<and>
    enc_pend block st' = enc_pend block st @ take (unat n) d \<and>
    frames (enc_user st') = frames (enc_user st)"
proof (cases "n = 0")
  case True
  then show ?thesis using ok by (simp add: mp_tx_push_pipeline_def)
next
  case False
  let ?f = "unat (accumulated st)" and ?d = "take (unat n) d" and ?b = "block (enc_user st)"
  note okD = ok [unfolded enc_ok_def]
  note dev = block_deviceD [of inst mp ok block frames]
  have len: "length ?b = unat mp + 4" using okD dev(1) by blast
  have "length (enc_pend block st) = ?f" using okD len by (simp add: enc_pend_def)
  then have fill: "?f + unat n \<le> unat mp" using room by simp
  have acc: "unat (accumulated st + n) = ?f + unat n"
    and off: "unat (accumulated st + of_nat MP_HEADER_SIZE) = 4 + ?f"
    using okD fill by (simp_all add: unat_u16_add MP_HEADER_SIZE_def)
  obtain u where u: "data_put_cb inst (enc_user st) (accumulated st + of_nat MP_HEADER_SIZE) d n = Inr u"
      "ok u" "frames u = frames (enc_user st)"
      "block u = take (4 + ?f) ?b @ ?d @ drop (4 + ?f + unat n) ?b"
    using dev(2) [of "enc_user st" n d "accumulated st + of_nat MP_HEADER_SIZE"] okD n fill off
    by auto
  have "take (?f + unat n) (drop 4 (block u)) = take ?f (drop 4 ?b) @ ?d"
    using take_written [of 4 ?f ?b ?d] len okD n by (simp add: u(4))
  then show ?thesis
    using False okD u(1-3) acc fill by (simp add: mp_tx_push_pipeline_def enc_ok_def enc_pend_def)
qed

lemma enc_push_header:
  assumes ok: "enc_ok inst mp ok block frames st"
  shows "\<exists>st' f. mp_tx_push_pipeline inst st act (Some h) None 0 = Inr st' \<and>
    enc_ok inst mp ok block frames st' \<and> enc_pend block st' = [] \<and>
    frames (enc_user st') = frames (enc_user st) @ [f] \<and>
    frame_carries mp h (enc_pend block st) f"
proof -
  note okD = ok [unfolded enc_ok_def]
  let ?hd = "MP_PACKED_HEADER_TO_ARRAY (mp_header_pack h)" and ?b = "block (enc_user st)"
  note dev = block_deviceD [of inst mp ok block frames]
  have len: "length ?b = unat mp + 4" using okD dev(1) by blast
  have four: "unat (of_nat MP_HEADER_SIZE :: u16) = 4" by (simp add: MP_HEADER_SIZE_def)
  obtain u where u: "data_put_cb inst (enc_user st) 0 ?hd (of_nat MP_HEADER_SIZE) = Inr u"
      "ok u" "frames u = frames (enc_user st)" "block u = ?hd @ drop 4 ?b"
    using dev(2) [of "enc_user st" "of_nat MP_HEADER_SIZE" ?hd 0] okD four by auto
  obtain u' where u': "send_signal_cb inst u = Inr u'" "ok u'" "frames u' = frames u @ [block u]"
    using dev(3) [of u] okD u(2) by blast
  have "frame_carries mp h (enc_pend block st) (block u)"
    using len okD by (simp add: frame_carries_def MP_HEADER_SIZE_def enc_pend_def u(4))
  then show ?thesis
    using okD u u' by (simp add: mp_tx_push_pipeline_def enc_ok_def enc_pend_def)
qed

interpretation enc: tx_sink "mp_tx_push_pipeline inst" "enc_ok inst mp ok block frames"
    "enc_pend block" "\<lambda>st. frames (enc_user st)" mp
  for inst mp ok block frames
  by unfold_locales (rule enc_push_data enc_push_header; assumption)+

section \<open>What encoding sends\<close>

lemma pieces_feed_chunks:
  "foldE (\<lambda>(s, w) buf. pb_ostream_pipeline s w buf) (s, w) pieces = feed_chunks s w pieces"
  by (simp add: feed_chunks_def pb_ostream_pipeline_def case_prod_unfold)

text \<open>The stream as \<open>mp_pb_encode\<close> starts it.\<close>

definition enc_stream :: "'u mp_pb_encoder_inst \<Rightarrow> u8 \<Rightarrow> 'u enc_state mp_tx_stream" where
  "enc_stream inst package = \<lparr> tx_config = enc_config inst,
     tx_cursor = slice_coord (enc_sender_id inst) package (mp_max_payload (enc_config inst)) 0,
     tx_fill = 0, tx_push = mp_tx_push_pipeline inst \<rparr>"

lemma mp_pb_encode_eq:
  "mp_pb_encode pb_encode inst user msg_fields message package =
     (case pb_encode msg_fields message of (pieces, ok) \<Rightarrow>
        bindE (feed_chunks (enc_stream inst package) \<lparr> enc_user = user, accumulated = 0 \<rparr> pieces)
          (\<lambda>(s, st). if ok \<and> concat pieces \<noteq> []
            then bindE (mp_tx_stream_finalize s st) (\<lambda>(s', st'). Inr (ok, enc_user st'))
            else Inr (ok, enc_user st)))"
proof -
  have "sum_list (map length pieces) = 0 \<longleftrightarrow> concat pieces = []" for pieces :: "u8 list list"
    by (simp flip: length_concat)
  then show ?thesis
    by (simp add: mp_pb_encode_def pieces_feed_chunks enc_stream_def slice_coord_def Let_def)
qed

lemma enc_start:
  assumes "block_device inst (mp_max_payload (enc_config inst)) ok block frames" and "ok u"
    and "4 < unat (transmission_unit (enc_config inst))"
  shows "enc.stream_at inst (mp_max_payload (enc_config inst)) ok block frames
      (enc_sender_id inst) package 0 (enc_stream inst package) \<lparr> enc_user = u, accumulated = 0 \<rparr>"
    and "enc_pend block \<lparr> enc_user = u, accumulated = 0 \<rparr> = []"
  using assms unat_u16_less [of "transmission_unit (enc_config inst)"]
  by (simp_all add: enc.stream_at_def enc_stream_def enc_ok_def enc_pend_def unat_max_payload
      del: unat_u16_less)

text \<open>Callbacks that meet the demand: a block in memory and the list of the blocks sent.\<close>

definition memory_device :: "u16 \<Rightarrow> u8 \<Rightarrow> (u8 list \<times> u8 list list) mp_pb_encoder_inst" where
  "memory_device tu sender = \<lparr> enc_config = \<lparr> transmission_unit = tu \<rparr>, enc_sender_id = sender,
     data_put_cb = (\<lambda>(b, fs) off d n.
       bindE (mem_read d 0 (unat n)) (\<lambda>x. bindE (mem_write b (unat off) x) (\<lambda>b'. Inr (b', fs)))),
     send_signal_cb = (\<lambda>(b, fs). Inr (b, fs @ [b])) \<rparr>"

lemma memory_device_ok:
  "block_device (memory_device tu sender) mp (\<lambda>u. length (fst u) = unat mp + 4) fst snd"
  by (simp add: block_device_def memory_device_def case_prod_unfold)

text \<open>A message that nanopb encodes to at least one byte is sent as one package: with
  callbacks that keep the block and send it, however nanopb cuts the encoding into pieces, the frames
  sent are the full slices of the encoding and the rest with the end mark, under the given serial and
  the sender of the instance.\<close>

lemma encode_package:
  assumes "block_device inst (mp_max_payload (enc_config inst)) ok block frames" and "ok u"
    and "4 < unat (transmission_unit (enc_config inst))"
    and "pb_encode msg_fields message = (pieces, True)" and "concat pieces \<noteq> []"
    and "list_all (\<lambda>d. length d < 65536) pieces"
  shows "\<exists>u' fs. mp_pb_encode pb_encode inst u msg_fields message package = Inr (True, u') \<and> ok u' \<and>
    frames u' = frames u @ fs \<and>
    package_frames (mp_max_payload (enc_config inst)) (enc_sender_id inst) package (concat pieces) fs"
proof -
  note start = enc_start(1) [OF assms(1-3), of package] enc_start(2) [OF assms(1-3)]
  obtain s' st' fs where
      "bindE (feed_chunks (enc_stream inst package) \<lparr> enc_user = u, accumulated = 0 \<rparr> pieces)
        (\<lambda>(s1, w1). mp_tx_stream_finalize s1 w1) = Inr (s', st')"
      "enc_ok inst (mp_max_payload (enc_config inst)) ok block frames st'"
      "frames (enc_user st') = frames u @ fs"
      "package_frames (mp_max_payload (enc_config inst)) (enc_sender_id inst) package (concat pieces) fs"
    using enc.package_sends [OF start assms(6)] by auto
  then show ?thesis
    using assms(4,5) by (auto simp: mp_pb_encode_eq bindE_eq_Inr enc_ok_def case_prod_unfold)
qed

section \<open>Examples and failures\<close>

lemma encode_package_witness:
  "\<exists>u' fs. mp_pb_encode (\<lambda>(f :: unit) m. (m, True)) (memory_device 8 1) (replicate 8 0, []) ()
      [[1, 2, 3], [], [4, 5]] 9 = Inr (True, u') \<and>
    length (fst u') = unat (mp_max_payload (enc_config (memory_device 8 1))) + 4 \<and>
    snd u' = snd (replicate 8 (0 :: u8), []) @ fs \<and>
    package_frames (mp_max_payload (enc_config (memory_device 8 1))) (enc_sender_id (memory_device 8 1))
      9 (concat [[1, 2, 3], [], [4, 5]]) fs"
proof (rule encode_package [where block = fst])
  show "block_device (memory_device 8 1) (mp_max_payload (enc_config (memory_device 8 1)))
      (\<lambda>u. length (fst u) = unat (mp_max_payload (enc_config (memory_device 8 1))) + 4) fst snd"
    by (rule memory_device_ok)
qed (simp_all add: memory_device_def mp_max_payload_def MP_HEADER_SIZE_def)

text \<open>When nanopb fails, \<open>mp_pb_encode\<close> returns false and no slice with an end mark has
  been sent: what is on the wire are at most the full slices of the bytes written before the failure,
  and a receiver never takes them for a package.\<close>

lemma failed_encode_sends_no_end:
  assumes "block_device inst (mp_max_payload (enc_config inst)) ok block frames" and "ok u"
    and "4 < unat (transmission_unit (enc_config inst))"
    and "pb_encode msg_fields message = (pieces, False)"
    and "list_all (\<lambda>d. length d < 65536) pieces"
  shows "\<exists>u' fs. mp_pb_encode pb_encode inst u msg_fields message package = Inr (False, u') \<and> ok u' \<and>
    frames u' = frames u @ fs \<and>
    full_frames (mp_max_payload (enc_config inst)) (enc_sender_id inst) package 0
      (full_slices (unat (mp_max_payload (enc_config inst))) (concat pieces)) fs"
proof -
  note start = enc_start(1) [OF assms(1-3), of package] enc_start(2) [OF assms(1-3)]
  obtain s' st' fs where
      "feed_chunks (enc_stream inst package) \<lparr> enc_user = u, accumulated = 0 \<rparr> pieces = Inr (s', st')"
      "enc_ok inst (mp_max_payload (enc_config inst)) ok block frames st'"
      "frames (enc_user st') = frames u @ fs"
      "full_frames (mp_max_payload (enc_config inst)) (enc_sender_id inst) package 0
        (full_slices (unat (mp_max_payload (enc_config inst))) (concat pieces)) fs"
    using enc.feed_chunks_sends [OF start(1) assms(5)] unfolding start(2) enc.stream_at_def by auto
  then show ?thesis using assms(4) by (auto simp: mp_pb_encode_eq enc_ok_def)
qed

lemma failed_encode_sends_no_end_witness:
  "\<exists>u' fs. mp_pb_encode (\<lambda>(f :: unit) m. (m, False)) (memory_device 8 1) (replicate 8 0, []) ()
      [[1, 2, 3], [4, 5]] 9 = Inr (False, u') \<and>
    length (fst u') = unat (mp_max_payload (enc_config (memory_device 8 1))) + 4 \<and>
    snd u' = snd (replicate 8 (0 :: u8), []) @ fs \<and>
    full_frames (mp_max_payload (enc_config (memory_device 8 1))) (enc_sender_id (memory_device 8 1))
      9 0 (full_slices (unat (mp_max_payload (enc_config (memory_device 8 1))))
        (concat [[1, 2, 3], [4, 5]])) fs"
proof (rule failed_encode_sends_no_end [where block = fst])
  show "block_device (memory_device 8 1) (mp_max_payload (enc_config (memory_device 8 1)))
      (\<lambda>u. length (fst u) = unat (mp_max_payload (enc_config (memory_device 8 1))) + 4) fst snd"
    by (rule memory_device_ok)
qed (simp_all add: memory_device_def mp_max_payload_def MP_HEADER_SIZE_def)

text \<open>A message that encodes to no bytes at all sends nothing: no frame goes out and the user's
  state is untouched, whatever the callbacks do.\<close>

lemma empty_message_sends_nothing:
  fixes u :: 'u
  assumes "pb_encode msg_fields message = (pieces, ok)" and "concat pieces = []"
  shows "mp_pb_encode pb_encode inst u msg_fields message package = Inr (ok, u)"
proof -
  have "feed_chunks s w pieces = Inr (s, w)" for s :: "'u enc_state mp_tx_stream" and w
    using assms(2)
    by (induction pieces) (simp_all add: mp_tx_stream_feed_def mp_tx_feed_loop.simps)
  then show ?thesis using assms by (simp add: mp_pb_encode_eq)
qed

lemma empty_message_sends_nothing_witness:
  "mp_pb_encode (\<lambda>(f :: unit) m. (m, True)) (memory_device 8 1) (replicate 8 0, []) () [[], []] 9 =
     Inr (True, (replicate 8 0, []))"
  by (rule empty_message_sends_nothing [where pieces = "[[], []]"]) simp_all

end
