(* ===== verification/Cs_Tx.thy ===== *)
theory Cs_Tx
  imports Wire
begin

text \<open>
  \<^bold>\<open>src/csharp/TxEncoder.cs\<close>: the encoder of the C# binding. A \<open>TxWriter\<close> is an
  \<open>IBufferWriter<byte>\<close> for one message: its client asks for a span with \<open>GetSpan\<close>, writes into
  it, says with \<open>Advance\<close> how much it has written, and ends the message with \<open>Dispose\<close>.
\<close>

section \<open>The writer\<close>

text \<open>
  The buffer is the array rented from the pool, at least as long as the unit, with whatever it held
  before. The callback and the caller's state are one function on \<open>'w\<close>.
\<close>

record 'w TxWriter =
  writer_buffer :: "u8 list"
  writer_config :: mp_config
  writer_next :: "u8 list \<Rightarrow> 'w \<Rightarrow> 'w res"
  writer_cursor :: mp_coordinate
  writer_fill :: u16

definition new_TxWriter ::
    "mp_config \<Rightarrow> mp_coordinate \<Rightarrow> (u8 list \<Rightarrow> 'w \<Rightarrow> 'w res) \<Rightarrow> u8 list \<Rightarrow> 'w TxWriter" where
  "new_TxWriter config cursor callback rented =
     \<lparr> writer_buffer = rented, writer_config = config, writer_next = callback,
       writer_cursor = cursor, writer_fill = 0 \<rparr>"

text \<open>\<open>WriteUInt32LittleEndian\<close> throws for a span of fewer than four bytes.\<close>

definition PackedHeaderToSpan :: "u32 \<Rightarrow> u8 list \<Rightarrow> u8 list res" where
  "PackedHeaderToSpan packed destination = mem_write destination 0 (MP_PACKED_HEADER_TO_ARRAY packed)"

definition EmitSlice :: "'w TxWriter \<Rightarrow> 'w \<Rightarrow> bool \<Rightarrow> ('w TxWriter \<times> 'w) res" where
  "EmitSlice s w is_eop =
     (if writer_fill s = 0 \<and> (\<not> is_eop \<or> coord_offset (writer_cursor s) = 0) then Inr (s, w)
      else
        bindE (mp_tx_prepare (writer_config s) (writer_cursor s) (writer_fill s) is_eop) (\<lambda>slice.
        bindE (PackedHeaderToSpan (mp_header_pack (slice_header slice)) (writer_buffer s)) (\<lambda>buffer.
        bindE (mem_read buffer 0 (unat (transmission_unit (writer_config s)))) (\<lambda>frame.
        bindE (writer_next s frame w) (\<lambda>w'.
          Inr (s\<lparr> writer_buffer := buffer, writer_cursor := slice_next slice, writer_fill := 0 \<rparr>, w'))))))"

definition CheckSizeAndTryEmitSlice :: "'w TxWriter \<Rightarrow> 'w \<Rightarrow> int \<Rightarrow> ('w TxWriter \<times> 'w) res" where
  "CheckSizeAndTryEmitSlice s w sz =
     (if int (unat (mp_max_payload (writer_config s))) - int (unat (writer_fill s)) < sz
      then EmitSlice s w False else Inr (s, w))"

text \<open>The array goes back to the pool; what is left of the writer is not used again.\<close>

definition Dispose :: "'w TxWriter \<Rightarrow> 'w \<Rightarrow> ('w TxWriter \<times> 'w) res" where
  "Dispose s w = EmitSlice s w True"

definition Advance :: "'w TxWriter \<Rightarrow> 'w \<Rightarrow> int \<Rightarrow> ('w TxWriter \<times> 'w) res" where
  "Advance s w count =
     (let s' = s\<lparr> writer_fill := writer_fill s + of_int count \<rparr>
      in if writer_fill s' = mp_max_payload (writer_config s') then EmitSlice s' w False
         else Inr (s', w))"

text \<open>
  The span is its start in the buffer and its length. \<open>AsSpan\<close> throws for a negative length and
  beyond the array. \<open>GetMemory\<close> has the same body.
\<close>

definition writer_span :: "'w TxWriter \<Rightarrow> (nat \<times> nat) res" where
  "writer_span s =
     (let start = MP_HEADER_SIZE + unat (writer_fill s); max_payload = unat (mp_max_payload (writer_config s))
      in if unat (writer_fill s) \<le> max_payload \<and>
           start + (max_payload - unat (writer_fill s)) \<le> length (writer_buffer s)
         then Inr (start, max_payload - unat (writer_fill s)) else Inl Out_Of_Bounds)"

definition GetSpan :: "'w TxWriter \<Rightarrow> 'w \<Rightarrow> int \<Rightarrow> ((nat \<times> nat) \<times> 'w TxWriter \<times> 'w) res" where
  "GetSpan s w sizeHint =
     bindE (CheckSizeAndTryEmitSlice s w sizeHint) (\<lambda>(s', w').
     bindE (writer_span s') (\<lambda>span. Inr (span, s', w')))"

definition GetMemory :: "'w TxWriter \<Rightarrow> 'w \<Rightarrow> int \<Rightarrow> ((nat \<times> nat) \<times> 'w TxWriter \<times> 'w) res" where
  "GetMemory s w sizeHint = GetSpan s w sizeHint"

section \<open>The encoder\<close>

record TxEncoder =
  enc_transmissionUnit :: u16
  enc_senderId :: u8
  enc_currentPackageId :: u32

definition new_Cs_TxEncoder :: "u16 \<Rightarrow> u8 \<Rightarrow> TxEncoder" where
  "new_Cs_TxEncoder transmissionUnit senderId =
     \<lparr> enc_transmissionUnit = transmissionUnit, enc_senderId = senderId, enc_currentPackageId = 0 \<rparr>"

text \<open>\<open>Interlocked.Increment\<close> gives the number after the increment; its low byte is taken.\<close>

definition CreateWriter ::
    "TxEncoder \<Rightarrow> (u8 list \<Rightarrow> 'w \<Rightarrow> 'w res) \<Rightarrow> u8 list \<Rightarrow> 'w TxWriter \<times> TxEncoder" where
  "CreateWriter enc callback rented =
     (let n = enc_currentPackageId enc + 1;
          cursor = \<lparr> coord_sender_id = enc_senderId enc, coord_package_id = ucast n, coord_offset = 0 \<rparr>;
          config = \<lparr> transmission_unit = enc_transmissionUnit enc \<rparr>
      in (new_TxWriter config cursor callback rented, enc\<lparr> enc_currentPackageId := n \<rparr>))"

section \<open>A client of the writer\<close>

text \<open>
  The client is a parameter: the list of its calls. A call of \<open>GetSpan\<close> comes with the size it asks
  for and the bytes that are then written from the start of the span, no more than it holds.
\<close>

datatype writer_call = Call_GetSpan int "u8 list" | Call_Advance int

fun writer_step :: "'w TxWriter \<times> 'w \<Rightarrow> writer_call \<Rightarrow> ('w TxWriter \<times> 'w) res" where
  "writer_step (s, w) (Call_GetSpan sizeHint bytes) =
     bindE (GetSpan s w sizeHint) (\<lambda>((start, len), s', w').
       if len < length bytes then Inl Out_Of_Bounds
       else bindE (mem_write (writer_buffer s') start bytes) (\<lambda>buffer.
         Inr (s'\<lparr> writer_buffer := buffer \<rparr>, w')))"
| "writer_step (s, w) (Call_Advance count) = Advance s w count"

definition write_message ::
    "'w TxWriter \<Rightarrow> 'w \<Rightarrow> writer_call list \<Rightarrow> ('w TxWriter \<times> 'w) res" where
  "write_message s w calls = bindE (foldE writer_step (s, w) calls) (\<lambda>(s', w'). Dispose s' w')"

text \<open>
  A message written piece by piece, each with the size that was asked for; the pieces fit when
  each lies within the room that is left in the slice, and no more than that was asked for.
\<close>

definition piece_calls :: "(int \<times> u8 list) list \<Rightarrow> writer_call list" where
  "piece_calls ps = concat (map (\<lambda>(h, p). [Call_GetSpan h p, Call_Advance (int (length p))]) ps)"

fun pieces_fit :: "nat \<Rightarrow> nat \<Rightarrow> (int \<times> u8 list) list \<Rightarrow> bool" where
  "pieces_fit n fill [] = True"
| "pieces_fit n fill ((h, p) # ps) =
     (h \<le> int (n - fill) \<and> fill + length p \<le> n \<and>
      pieces_fit n (if fill + length p = n then 0 else fill + length p) ps)"

lemma piece_calls_simps [simp]:
  "piece_calls [] = []"
  "piece_calls ((h, p) # ps) = Call_GetSpan h p # Call_Advance (int (length p)) # piece_calls ps"
  by (simp_all add: piece_calls_def)

text \<open>The writer in the middle of slice \<open>i\<close>, with the bytes \<open>pend\<close> in its buffer.\<close>

definition writer_at :: "u16 \<Rightarrow> u8 \<Rightarrow> u8 \<Rightarrow> nat \<Rightarrow> u8 list \<Rightarrow> 'w TxWriter \<Rightarrow> bool" where
  "writer_at mp sender package i pend s \<longleftrightarrow>
     mp_max_payload (writer_config s) = mp \<and> mp \<noteq> 0 \<and>
     unat (transmission_unit (writer_config s)) = unat mp + MP_HEADER_SIZE \<and>
     writer_cursor s = slice_coord sender package mp i \<and>
     unat (writer_fill s) = length pend \<and> length pend \<le> unat mp \<and>
     unat mp + MP_HEADER_SIZE \<le> length (writer_buffer s) \<and>
     take (length pend) (drop MP_HEADER_SIZE (writer_buffer s)) = pend"

text \<open>The frame of a slice, the buffer with its header, and what sending it computes.\<close>

lemma emit_facts:
  assumes at: "writer_at mp sender package i pend s"
    and sends: "pend \<noteq> [] \<or> e \<and> coord_offset (writer_cursor s) \<noteq> 0"
  shows "\<exists>f b h. frame_carries mp (header_at mp sender package i (of_nat (length pend)) e) pend f \<and>
    writer_at mp sender package i pend (s\<lparr> writer_buffer := b \<rparr>) \<and>
    writer_at mp sender package (Suc i) [] (s\<lparr> writer_buffer := b,
      writer_cursor := slice_coord sender package mp (Suc i), writer_fill := 0 \<rparr>) \<and>
    \<not> (writer_fill s = 0 \<and> (\<not> e \<or> coord_offset (writer_cursor s) = 0)) \<and>
    mp_tx_prepare (writer_config s) (writer_cursor s) (writer_fill s) e =
      Inr \<lparr> slice_header = h, slice_next = slice_coord sender package mp (Suc i) \<rparr> \<and>
    mem_write (writer_buffer s) 0 (MP_PACKED_HEADER_TO_ARRAY (mp_header_pack h)) = Inr b \<and>
    mem_read b 0 (unat (transmission_unit (writer_config s))) = Inr f"
proof -
  note at' = at [unfolded writer_at_def]
  have fill: "writer_fill s = of_nat (length pend)"
    using at' by (simp add: word_unat_eq_iff unat_u16_of_nat) (metis mod_less unat_u16_less)
  let ?h = "header_at mp sender package i (of_nat (length pend)) e"
  let ?b = "MP_PACKED_HEADER_TO_ARRAY (mp_header_pack ?h) @ drop MP_HEADER_SIZE (writer_buffer s)"
  let ?f = "take (unat mp + MP_HEADER_SIZE) ?b"
  have store: "mem_write (writer_buffer s) 0 (MP_PACKED_HEADER_TO_ARRAY (mp_header_pack ?h)) = Inr ?b"
    using at' by (simp add: MP_HEADER_SIZE_def)
  have len: "unat mp + MP_HEADER_SIZE \<le> length ?b" using at' by (simp add: MP_HEADER_SIZE_def)
  then have load: "mem_read ?b 0 (unat (transmission_unit (writer_config s))) = Inr ?f"
    using at' by simp
  have prep: "mp_tx_prepare (writer_config s) (writer_cursor s) (writer_fill s) e =
      Inr \<lparr> slice_header = ?h, slice_next = slice_coord sender package mp (Suc i) \<rparr>"
    using prepare_header_at [of "writer_config s" sender package i] at' unfolding fill by simp
  have go: "\<not> (writer_fill s = 0 \<and> (\<not> e \<or> coord_offset (writer_cursor s) = 0))"
    using sends at' by (auto simp: unat_eq_0)
  have "frame_carries mp ?h pend ?f"
    using at' by (simp add: frame_carries_def MP_HEADER_SIZE_def drop_take min_def) linarith
  moreover have "writer_at mp sender package i pend (s\<lparr> writer_buffer := ?b \<rparr>)"
    using at' len by (simp add: writer_at_def) (simp add: MP_HEADER_SIZE_def)
  moreover have "writer_at mp sender package (Suc i) [] (s\<lparr> writer_buffer := ?b,
      writer_cursor := slice_coord sender package mp (Suc i), writer_fill := 0 \<rparr>)"
    using at' len by (simp add: writer_at_def)
  ultimately show ?thesis using go prep store load by blast
qed

lemma emit_sends:
  assumes at: "writer_at mp sender package i pend s"
    and sends: "pend \<noteq> [] \<or> e \<and> coord_offset (writer_cursor s) \<noteq> 0"
  shows "\<exists>f b. frame_carries mp (header_at mp sender package i (of_nat (length pend)) e) pend f \<and>
    writer_at mp sender package (Suc i) [] (s\<lparr> writer_buffer := b,
      writer_cursor := slice_coord sender package mp (Suc i), writer_fill := 0 \<rparr>) \<and>
    (\<forall>w. EmitSlice s w e = bindE (writer_next s f w) (\<lambda>w'.
      Inr (s\<lparr> writer_buffer := b, writer_cursor := slice_coord sender package mp (Suc i),
             writer_fill := 0 \<rparr>, w')))"
proof -
  obtain f b h where facts: "frame_carries mp (header_at mp sender package i (of_nat (length pend)) e) pend f"
      "writer_at mp sender package (Suc i) [] (s\<lparr> writer_buffer := b,
        writer_cursor := slice_coord sender package mp (Suc i), writer_fill := 0 \<rparr>)"
      "\<not> (writer_fill s = 0 \<and> (\<not> e \<or> coord_offset (writer_cursor s) = 0))"
      "mp_tx_prepare (writer_config s) (writer_cursor s) (writer_fill s) e =
        Inr \<lparr> slice_header = h, slice_next = slice_coord sender package mp (Suc i) \<rparr>"
      "mem_write (writer_buffer s) 0 (MP_PACKED_HEADER_TO_ARRAY (mp_header_pack h)) = Inr b"
      "mem_read b 0 (unat (transmission_unit (writer_config s))) = Inr f"
    using emit_facts [OF assms] by blast
  have "EmitSlice s w e = bindE (writer_next s f w) (\<lambda>w'. Inr (s\<lparr> writer_buffer := b,
      writer_cursor := slice_coord sender package mp (Suc i), writer_fill := 0 \<rparr>, w'))" for w
    using facts(3) by (simp only: EmitSlice_def PackedHeaderToSpan_def if_False facts(4-6) bindE_Inr mp_tx_slice.simps)
  then show ?thesis using facts(1,2) by blast
qed

text \<open>One piece, and all of them.\<close>

lemma piece_written:
  assumes at: "writer_at mp sender package i pend s" and room: "length pend < unat mp"
    and fits: "h \<le> int (unat mp - length pend)" "length pend + length p \<le> unat mp"
  shows "\<exists>b. \<not> int (unat (mp_max_payload (writer_config s))) - int (unat (writer_fill s)) < h \<and>
    writer_span s = Inr (MP_HEADER_SIZE + length pend, unat mp - length pend) \<and>
    mem_write (writer_buffer s) (MP_HEADER_SIZE + length pend) p = Inr b \<and>
    (writer_fill s + of_nat (length p) = mp \<longleftrightarrow> length pend + length p = unat mp) \<and>
    writer_at mp sender package i (pend @ p)
      (s\<lparr> writer_buffer := b, writer_fill := writer_fill s + of_nat (length p) \<rparr>)"
proof -
  note at' = at [unfolded writer_at_def]
  let ?start = "MP_HEADER_SIZE + length pend"
  define b where "b = take ?start (writer_buffer s) @ p @ drop (?start + length p) (writer_buffer s)"
  have buffer: "mem_write (writer_buffer s) ?start p = Inr b"
    using at' fits(2) by (simp add: b_def)
  have "length pend + length p < 65536" using fits(2) unat_u16_less [of mp] by linarith
  then have fill: "unat (writer_fill s + of_nat (length p)) = length pend + length p"
    using at' fits(2) by (simp add: unat_word_ariths unat_u16_of_nat)
  then have full: "writer_fill s + of_nat (length p) = mp \<longleftrightarrow> length pend + length p = unat mp"
    by (simp only: word_unat_eq_iff)
  have "\<not> int (unat (mp_max_payload (writer_config s))) - int (unat (writer_fill s)) < h"
    "writer_span s = Inr (?start, unat mp - length pend)"
    using at' fits(1) room by (simp_all add: writer_span_def Let_def of_nat_diff)
  moreover have "take (length (pend @ p)) (drop MP_HEADER_SIZE b) = pend @ p"
    using at' by (simp add: b_def drop_take)
  then have "writer_at mp sender package i (pend @ p)
      (s\<lparr> writer_buffer := b, writer_fill := writer_fill s + of_nat (length p) \<rparr>)"
    using at' fits(2) mem_write_length [OF buffer] by (simp add: writer_at_def fill)
  ultimately show ?thesis using buffer full by blast
qed

lemma piece_step:
  assumes at: "writer_at mp sender package i pend s" and room: "length pend < unat mp"
    and fits: "h \<le> int (unat mp - length pend)" "length pend + length p \<le> unat mp"
  shows "\<exists>s1. (\<forall>w. foldE writer_step (s, w) [Call_GetSpan h p, Call_Advance (int (length p))] =
      (if length pend + length p = unat mp then EmitSlice s1 w False else Inr (s1, w))) \<and>
    writer_at mp sender package i (pend @ p) s1 \<and> writer_next s1 = writer_next s"
proof -
  obtain b where b: "\<not> int (unat (mp_max_payload (writer_config s))) - int (unat (writer_fill s)) < h"
      "writer_span s = Inr (MP_HEADER_SIZE + length pend, unat mp - length pend)"
      "mem_write (writer_buffer s) (MP_HEADER_SIZE + length pend) p = Inr b"
      "writer_fill s + of_nat (length p) = mp \<longleftrightarrow> length pend + length p = unat mp"
      "writer_at mp sender package i (pend @ p)
        (s\<lparr> writer_buffer := b, writer_fill := writer_fill s + of_nat (length p) \<rparr>)"
    using piece_written [OF assms] by blast
  have "mp_max_payload (writer_config s) = mp" "\<not> unat mp - length pend < length p"
    using at fits(2) by (simp_all add: writer_at_def)
  then show ?thesis
    using b(1,5) by (intro exI [of _ "s\<lparr> writer_buffer := b, writer_fill := writer_fill s + of_nat (length p) \<rparr>"])
      (simp add: GetSpan_def CheckSizeAndTryEmitSlice_def b(2-4) Advance_def Let_def)
qed

lemma pieces_send:
  assumes "writer_at mp sender package i pend s" and "length pend < unat mp"
    and "pieces_fit (unat mp) (length pend) ps"
  shows "\<exists>fs s'. full_frames mp sender package i (full_slices (unat mp) (pend @ concat (map snd ps))) fs \<and>
    writer_at mp sender package (i + length fs) (slice_rest (unat mp) (pend @ concat (map snd ps))) s' \<and>
    writer_next s' = writer_next s \<and>
    (\<forall>w. foldE writer_step (s, w) (piece_calls ps) =
      bindE (foldE (\<lambda>w f. writer_next s f w) w fs) (\<lambda>w'. Inr (s', w')))"
  using assms
proof (induction ps arbitrary: i pend s)
  case Nil
  then show ?case by (intro exI [of _ "[]"] exI [of _ s]) simp
next
  case (Cons hp ps)
  obtain h p where hp: "hp = (h, p)" by (cases hp)
  let ?n = "unat mp" and ?bs = "concat (map snd ps)"
  obtain s1 where s1: "foldE writer_step (s, w) [Call_GetSpan h p, Call_Advance (int (length p))] =
        (if length pend + length p = ?n then EmitSlice s1 w False else Inr (s1, w))"
      "writer_at mp sender package i (pend @ p) s1" "writer_next s1 = writer_next s" for w
    using piece_step [OF Cons.prems(1,2), of h p] Cons.prems(3) hp by auto
  have calls: "foldE writer_step (s, w) (piece_calls (hp # ps)) =
      bindE (if length pend + length p = ?n then EmitSlice s1 w False else Inr (s1, w))
        (\<lambda>sw. foldE writer_step sw (piece_calls ps))" for w
    unfolding s1(1) [symmetric] by (simp add: hp bindE_assoc)
  show ?case
  proof (cases "length pend + length p = ?n")
    case False
    then have "length (pend @ p) < ?n" "pieces_fit ?n (length (pend @ p)) ps"
      using Cons.prems(3) hp by simp_all
    from Cons.IH [OF s1(2) this] show ?thesis
      using False unfolding calls by (simp add: hp s1(3))
  next
    case True
    then have n: "0 < ?n" "pend @ p \<noteq> []" using Cons.prems(2) by auto
    obtain f b where f: "frame_carries mp (header_at mp sender package i (of_nat (length (pend @ p))) False) (pend @ p) f"
        "writer_at mp sender package (Suc i) [] (s1\<lparr> writer_buffer := b,
          writer_cursor := slice_coord sender package mp (Suc i), writer_fill := 0 \<rparr>)"
        "EmitSlice s1 w False = bindE (writer_next s1 f w) (\<lambda>w'. Inr (s1\<lparr> writer_buffer := b,
          writer_cursor := slice_coord sender package mp (Suc i), writer_fill := 0 \<rparr>, w'))" for w
      using emit_sends [OF s1(2), of False] n(2) by blast
    have "pieces_fit ?n (length []) ps" using Cons.prems(3) hp True by simp
    from Cons.IH [OF f(2) _ this] n(1) obtain fs s' where fs:
        "full_frames mp sender package (Suc i) (full_slices ?n ?bs) fs"
        "writer_at mp sender package (Suc i + length fs) (slice_rest ?n ?bs) s'"
        "writer_next s' = writer_next s1"
        "foldE writer_step (s1\<lparr> writer_buffer := b, writer_cursor := slice_coord sender package mp (Suc i),
            writer_fill := 0 \<rparr>, w) (piece_calls ps) =
          bindE (foldE (\<lambda>w f. writer_next s1 f w) w fs) (\<lambda>w'. Inr (s', w'))" for w
      by auto
    have "length (pend @ p) = ?n" using True by simp
    note first = full_slices_first [OF this n(1), of ?bs]
    have "of_nat (length (pend @ p)) = mp" using True by (simp flip: of_nat_add)
    then have "full_frames mp sender package i (full_slices ?n ((pend @ p) @ ?bs)) (f # fs)"
      unfolding first full_frames_Cons using f(1) fs(1) by simp
    moreover have "writer_at mp sender package (i + length (f # fs)) (slice_rest ?n ((pend @ p) @ ?bs)) s'"
      unfolding first using fs(2) by simp
    ultimately show ?thesis
      using fs(3,4) True
      unfolding calls by (intro exI [of _ "f # fs"] exI [of _ s']) (simp add: f(3) s1(3) bindE_assoc hp)
  qed
qed

section \<open>A whole message\<close>

lemma new_writer_at:
  assumes new: "CreateWriter enc callback rented = (s, enc')"
    and unit: "mp = enc_transmissionUnit enc - 4" "4 < enc_transmissionUnit enc"
      "unat (enc_transmissionUnit enc) \<le> length rented"
  shows "mp \<noteq> 0 \<Longrightarrow> writer_at mp (enc_senderId enc) (ucast (enc_currentPackageId enc + 1)) 0 [] s"
    and "writer_next s = callback"
proof -
  have "unat (enc_transmissionUnit enc) = unat mp + MP_HEADER_SIZE"
    using unit(1,2) by (simp add: MP_HEADER_SIZE_def unat_sub_if' word_le_nat_alt word_less_nat_alt)
  moreover have "s = new_TxWriter \<lparr> transmission_unit = enc_transmissionUnit enc \<rparr>
      \<lparr> coord_sender_id = enc_senderId enc, coord_package_id = ucast (enc_currentPackageId enc + 1),
        coord_offset = 0 \<rparr> callback rented"
    using new by (auto simp: CreateWriter_def Let_def)
  ultimately show "mp \<noteq> 0 \<Longrightarrow> writer_at mp (enc_senderId enc) (ucast (enc_currentPackageId enc + 1)) 0 [] s"
      "writer_next s = callback"
    using unit
    by (simp_all add: writer_at_def new_TxWriter_def mp_max_payload_def MP_HEADER_SIZE_def slice_coord_def)
qed

text \<open>Before the end: the full slices have been sent, and the writer holds the rest.\<close>

lemma message_written:
  assumes new: "CreateWriter enc callback rented = (s, enc')"
    and unit: "mp = enc_transmissionUnit enc - 4" "4 < enc_transmissionUnit enc"
      "unat (enc_transmissionUnit enc) \<le> length rented"
    and ps: "pieces_fit (unat mp) 0 ps" "bytes = concat (map snd ps)"
    and ok: "package_ok mp (length bytes div unat mp) (length bytes)"
  defines "package \<equiv> ucast (enc_currentPackageId enc + 1) :: u8"
  shows "\<exists>fs s'. full_frames mp (enc_senderId enc) package 0 (full_slices (unat mp) bytes) fs \<and>
    writer_at mp (enc_senderId enc) package (length bytes div unat mp) (slice_rest (unat mp) bytes) s' \<and>
    (slice_rest (unat mp) bytes \<noteq> [] \<or> coord_offset (writer_cursor s') \<noteq> 0) \<and> writer_next s' = callback \<and>
    (\<forall>w. foldE writer_step (s, w) (piece_calls ps) =
      bindE (foldE (\<lambda>w f. callback f w) w fs) (\<lambda>w'. Inr (s', w')))"
proof -
  let ?n = "unat mp" and ?sender = "enc_senderId enc" and ?k = "length bytes div unat mp"
  note okD = package_okD [OF ok]
  have "writer_at mp ?sender package 0 [] s" "writer_next s = callback"
    using new_writer_at [OF new unit] okD(1) by (simp_all add: package_def)
  with pieces_send [of mp ?sender package 0 "[]" s ps] ps okD(2) obtain fs s' where fs:
      "full_frames mp ?sender package 0 (full_slices ?n bytes) fs"
      "writer_at mp ?sender package (length fs) (slice_rest ?n bytes) s'" "writer_next s' = callback"
      "foldE writer_step (s, w) (piece_calls ps) =
        bindE (foldE (\<lambda>w f. callback f w) w fs) (\<lambda>w'. Inr (s', w'))" for w
    by auto
  have k: "length fs = ?k"
    using fs(1) length_full_slices [OF okD(2), of bytes] by (simp add: full_frames_def)
  have "coord_offset (writer_cursor s') \<noteq> 0" if "slice_rest ?n bytes = []"
  proof -
    have "length bytes mod ?n = 0" using that length_slice_rest [of ?n bytes] by simp
    then have "?k * ?n = length bytes" using minus_mod_eq_div_mult [of "length bytes" ?n] by simp
    then have "0 < ?k * ?n" "?k * ?n < 65536" using okD(4,11) by simp_all
    then have "unat (of_nat (?k * ?n) :: u16) \<noteq> 0" by (simp add: unat_u16_of_nat del: of_nat_mult)
    then show ?thesis using fs(2) k by (simp add: writer_at_def unat_eq_0 del: of_nat_mult)
  qed
  then show ?thesis using fs(1-4) unfolding k by blast
qed

lemma writer_sends:
  assumes new: "CreateWriter enc callback rented = (s, enc')"
    and unit: "mp = enc_transmissionUnit enc - 4" "4 < enc_transmissionUnit enc"
      "unat (enc_transmissionUnit enc) \<le> length rented"
    and ps: "pieces_fit (unat mp) 0 ps" "bytes = concat (map snd ps)"
    and ok: "package_ok mp (length bytes div unat mp) (length bytes)"
  shows "\<exists>fs. package_frames mp (enc_senderId enc) (ucast (enc_currentPackageId enc + 1)) bytes fs \<and>
    (\<forall>w. bindE (write_message s w (piece_calls ps)) (\<lambda>(s', w'). Inr w') =
      foldE (\<lambda>w f. callback f w) w fs)"
proof -
  let ?n = "unat mp" and ?sender = "enc_senderId enc" and ?k = "length bytes div unat mp"
  let ?package = "ucast (enc_currentPackageId enc + 1) :: u8"
  obtain fs s' where fs: "full_frames mp ?sender ?package 0 (full_slices ?n bytes) fs"
      "writer_at mp ?sender ?package ?k (slice_rest ?n bytes) s'"
      "slice_rest ?n bytes \<noteq> [] \<or> coord_offset (writer_cursor s') \<noteq> 0" "writer_next s' = callback"
      "\<And>w. foldE writer_step (s, w) (piece_calls ps) =
        bindE (foldE (\<lambda>w f. callback f w) w fs) (\<lambda>w'. Inr (s', w'))"
    using message_written [OF assms] by blast
  then obtain f b where f: "frame_carries mp (header_at mp ?sender ?package ?k (of_nat (length (slice_rest ?n bytes))) True)
        (slice_rest ?n bytes) f"
      "EmitSlice s' w True = bindE (callback f w) (\<lambda>w'. Inr (s'\<lparr> writer_buffer := b,
        writer_cursor := slice_coord ?sender ?package mp (Suc ?k), writer_fill := 0 \<rparr>, w'))" for w
    using emit_sends [OF fs(2), of True] by metis
  have "package_frames mp ?sender ?package bytes (fs @ [f])"
    using fs(1) f(1) by (auto simp: package_frames_def length_slice_rest)
  moreover have "bindE (write_message s w (piece_calls ps)) (\<lambda>(s', w'). Inr w') =
      foldE (\<lambda>w f. callback f w) w (fs @ [f])" for w
    by (simp add: write_message_def Dispose_def fs(5) f(2) bindE_assoc foldE_append)
  ultimately show ?thesis by blast
qed

text \<open>A message without bytes sends nothing, although \<open>Dispose\<close> sends the end mark otherwise.\<close>

lemma empty_message_emits_nothing:
  assumes "CreateWriter enc callback rented = (s, enc')"
  shows "write_message s w [] = Inr (s, w)"
  using assms
  by (auto simp: write_message_def Dispose_def EmitSlice_def CreateWriter_def new_TxWriter_def Let_def)

text \<open>An example: five bytes in three pieces, as two frames.\<close>

lemma writer_sends_example:
  "\<exists>fs. package_frames 4 2 1 [1, 2, 3, 4, 5] fs \<and>
    bindE (write_message (fst (CreateWriter (new_Cs_TxEncoder 8 2) (\<lambda>f seen. Inr (seen @ [f])) (replicate 16 9))) []
      (piece_calls [(0, [1, 2, 3]), (1, [4]), (4, [5])])) (\<lambda>(s', w'). Inr w') = Inr fs"
proof -
  let ?enc = "new_Cs_TxEncoder 8 2" and ?next = "\<lambda>f seen. Inr (seen @ [f]) :: u8 list list res"
  have enc: "enc_transmissionUnit ?enc = 8" "enc_senderId ?enc = 2" "enc_currentPackageId ?enc = 0"
    by (simp_all add: new_Cs_TxEncoder_def)
  have collect: "foldE (\<lambda>w f. Inr (w @ [f])) w fs = Inr (w @ fs)" for w and fs :: "u8 list list"
    by (induction fs arbitrary: w) simp_all
  obtain s enc' where s: "CreateWriter ?enc ?next (replicate 16 9) = (s, enc')"
    by (cases "CreateWriter ?enc ?next (replicate 16 9)")
  show ?thesis
    using writer_sends [OF s, where mp = 4 and bytes = "[1, 2, 3, 4, 5]"
        and ps = "[(0, [1, 2, 3]), (1, [4]), (4, [5])]"]
    by (auto simp: enc s package_ok_def collect)
qed

end
