(* ===== verification/Cs_Rx.thy ===== *)
theory Cs_Rx
  imports Cpp_Rx
begin

text \<open>
  \<^bold>\<open>src/csharp/RxCoordinator.cs\<close> and \<^bold>\<open>RxDecoder.cs\<close>: the decoder of the C# binding. It
  calls the exported operators of the core and keeps a table like the C++ decoder's, but gives its
  caller the bytes of a package and not a message. It is shown to simulate the C++ decoder; where
  that one reads past its vector this one has grown its array.
\<close>

section \<open>The table\<close>

record Cs_Slot =
  Cs_State :: mp_rx_slice_state
  Cs_Payload :: "u8 list option" \<comment> \<open>\<open>byte[]?\<close>, \<open>None\<close> for \<open>null\<close>\<close>
  Cs_Gen :: u8

record SenderMeta =
  Meta_Pkg :: u8
  Meta_Gen :: u8

record RxCoordinator =
  Cs_slots :: "Cs_Slot list"
  Cs_senderMetas :: "SenderMeta list"

definition SlotCount :: nat where
  "SlotCount = 2 ^ (MP_SENDER_ID_BITS + MP_PACKAGE_ID_BITS)"

definition new_RxCoordinator :: RxCoordinator where
  "new_RxCoordinator =
     \<lparr> Cs_slots = replicate SlotCount \<lparr> Cs_State = zero_state, Cs_Payload = None, Cs_Gen = 0 \<rparr>,
       Cs_senderMetas = replicate (2 ^ MP_SENDER_ID_BITS) \<lparr> Meta_Pkg = 0, Meta_Gen = 0 \<rparr> \<rparr>"

text \<open>A span over the array; the span over \<open>null\<close> is empty.\<close>

definition payload_span :: "Cs_Slot \<Rightarrow> u8 list" where
  "payload_span slot = (case Cs_Payload slot of None \<Rightarrow> [] | Some v \<Rightarrow> v)"

definition PayloadLength :: "Cs_Slot \<Rightarrow> nat" where
  "PayloadLength slot = (case Cs_Payload slot of None \<Rightarrow> 0 | Some v \<Rightarrow> length v)"

text \<open>\<open>Array.Resize\<close> keeps what fits and fills the rest with zeros.\<close>

definition EnsurePayloadCapacity :: "Cs_Slot \<Rightarrow> nat \<Rightarrow> Cs_Slot" where
  "EnsurePayloadCapacity slot needed =
     (if PayloadLength slot < needed
      then slot\<lparr> Cs_Payload := Some (payload_span slot @ replicate (needed - PayloadLength slot) 0) \<rparr>
      else slot)"

definition SlotIndex :: "u8 \<Rightarrow> u8 \<Rightarrow> nat" where
  "SlotIndex senderId packageId =
     unat (push_bit MP_PACKAGE_ID_BITS (ucast senderId) OR (ucast packageId :: u32))"

definition GcClockHook :: "RxCoordinator \<Rightarrow> Cs_Slot \<Rightarrow> u8 \<Rightarrow> Cs_Slot" where
  "GcClockHook w slot senderId =
     (let meta = Cs_senderMetas w ! unat senderId;
          slot1 = (if received_count (Cs_State slot) > 0 \<and> Cs_Gen slot \<noteq> Meta_Gen meta
                   then slot\<lparr> Cs_State := zero_state \<rparr> else slot)
      in slot1\<lparr> Cs_Gen := Meta_Gen meta \<rparr>)"

definition GcHook :: "RxCoordinator \<Rightarrow> u8 \<Rightarrow> u8 \<Rightarrow> RxCoordinator" where
  "GcHook w senderId packageId =
     (let meta = Cs_senderMetas w ! unat senderId;
          meta1 = (if unat packageId + MP_PACKAGE_ID_MAX div 2 < unat (Meta_Pkg meta)
                   then meta\<lparr> Meta_Gen := Meta_Gen meta + 1 \<rparr> else meta)
      in w\<lparr> Cs_senderMetas :=
        (Cs_senderMetas w)[unat senderId := meta1\<lparr> Meta_Pkg := packageId \<rparr>] \<rparr>)"

text \<open>
  The indexer gives a reference to the slot. The model gives the slot, and what is written through
  the reference is stored with \<open>slot_assign\<close>.
\<close>

definition slot_ref :: "RxCoordinator \<Rightarrow> mp_coordinate \<Rightarrow> Cs_Slot" where
  "slot_ref w coord =
     GcClockHook w (Cs_slots w ! SlotIndex (coord_sender_id coord) (coord_package_id coord))
       (coord_sender_id coord)"

definition slot_assign :: "RxCoordinator \<Rightarrow> mp_coordinate \<Rightarrow> Cs_Slot \<Rightarrow> RxCoordinator" where
  "slot_assign w coord slot =
     w\<lparr> Cs_slots := (Cs_slots w)[SlotIndex (coord_sender_id coord) (coord_package_id coord) := slot] \<rparr>"

section \<open>The end mark\<close>

text \<open>The property \<open>IsEop\<close> of \<^bold>\<open>binding-ext/HeaderMetaExtension.cs\<close>.\<close>

definition IsEop :: "mp_header_meta \<Rightarrow> bool" where
  "IsEop header = (eop header \<noteq> 0)"

definition set_IsEop :: "mp_header_meta \<Rightarrow> bool \<Rightarrow> mp_header_meta" where
  "set_IsEop header v = header\<lparr> eop := (if v then 1 else 0) \<rparr>"

lemma IsEop_on_the_wire: "IsEop (mp_header_unpack (mp_header_pack (set_IsEop header v))) = v"
  by (simp add: IsEop_def set_IsEop_def unpack_pack_fields header_truncate_def field_masks)

section \<open>The decoder\<close>

text \<open>\<open>ReadUInt32LittleEndian\<close> throws when there are fewer than four bytes.\<close>

definition PackedHeaderFromSpan :: "u8 list \<Rightarrow> u32 res" where
  "PackedHeaderFromSpan span =
     (if length span < 4 then Inl Out_Of_Bounds else Inr (MP_ARRAY_TO_PACKED_HEADER span))"

text \<open>\<open>CopyTo\<close> into the span from an offset on, which throws when the bytes do not fit.\<close>

definition copy_payload :: "Cs_Slot \<Rightarrow> nat \<Rightarrow> u8 list \<Rightarrow> Cs_Slot res" where
  "copy_payload slot offset bytes =
     bindE (mem_write (payload_span slot) offset bytes) (\<lambda>v.
       Inr (slot\<lparr> Cs_Payload := map_option (\<lambda>_. v) (Cs_Payload slot) \<rparr>))"

text \<open>
  \<open>Decode\<close> with the callback \<open>next\<close> on the caller's state \<open>'u\<close>. The length of the payload is cut to
  16 bits before the minimum is taken. An exception of the callback is a fault.
\<close>

definition Decode ::
    "mp_config \<Rightarrow> RxCoordinator \<Rightarrow> u8 list \<Rightarrow> 'u \<Rightarrow> (u8 list \<Rightarrow> 'u \<Rightarrow> 'u res) \<Rightarrow>
      (RxCoordinator \<times> 'u) res" where
  "Decode config w frame state callback =
     bindE (PackedHeaderFromSpan frame) (\<lambda>packed.
     let header = mp_header_unpack packed;
         maxPayload = mp_max_payload config;
         payload = drop MP_HEADER_SIZE frame;
         payloadSize = min (slice_payload_size header) (of_nat (length payload));
         coord = mp_rx_header_to_coordinate config header;
         w1 = GcHook w (coord_sender_id coord) (coord_package_id coord);
         slot = slot_ref w1 coord
     in bindE (mp_rx_calc_slice_step (Cs_State slot) (slice_serial header) payloadSize maxPayload
         (eop header \<noteq> 0)) (\<lambda>step.
       if inst_event step = MP_RX_STREAM_DUPLICATE then Inr (slot_assign w1 coord slot, state)
       else
         bindE (copy_payload
             (EnsurePayloadCapacity slot (unat (coord_offset coord) + unat payloadSize))
             (unat (coord_offset coord)) (take (unat payloadSize) payload)) (\<lambda>slot1.
         let slot2 = slot1\<lparr> Cs_State := next_state step \<rparr>
         in if inst_event step = MP_RX_STREAM_COMPLETE
         then
           bindE (mem_read (payload_span slot2) 0 (unat (termination_at (next_state step)))) (\<lambda>span.
           bindE (callback span state) (\<lambda>state'.
             Inr (slot_assign w1 coord (slot2\<lparr> Cs_State := zero_state \<rparr>), state')))
         else Inr (slot_assign w1 coord slot2, state))))"

text \<open>The frames handed to \<open>Decode\<close> one after the other, with the same callback.\<close>

definition cs_decode_frames ::
    "mp_config \<Rightarrow> (u8 list \<Rightarrow> 'u \<Rightarrow> 'u res) \<Rightarrow> RxCoordinator \<times> 'u \<Rightarrow> u8 list list \<Rightarrow>
      (RxCoordinator \<times> 'u) res" where
  "cs_decode_frames config callback = foldE (\<lambda>(w, u) f. Decode config w f u callback)"

section \<open>The two tables side by side\<close>

text \<open>
  The array of a C# slot is the vector of the C++ slot, perhaps with zeros behind it: an empty
  slice grows the array and not the vector.
\<close>

definition slot_sim :: "Cs_Slot \<Rightarrow> Slot \<Rightarrow> bool" where
  "slot_sim cs s \<longleftrightarrow> Cs_State cs = slot_state s \<and> Cs_Gen cs = slot_gen s \<and>
     (\<exists>m. payload_span cs = slot_data s @ replicate m 0)"

definition meta_sim :: "SenderMeta \<Rightarrow> sender_meta \<Rightarrow> bool" where
  "meta_sim a b \<longleftrightarrow> Meta_Pkg a = meta_pkg b \<and> Meta_Gen a = meta_gen b"

definition table_sim :: "RxCoordinator \<Rightarrow> Coordinator \<Rightarrow> bool" where
  "table_sim T w \<longleftrightarrow> list_all2 slot_sim (Cs_slots T) (slots w) \<and>
     list_all2 meta_sim (Cs_senderMetas T) (sender_metas w)"

lemma SlotIndex_eq: "SlotIndex (coord_sender_id c) (coord_package_id c) = slot_index c"
  by (simp add: SlotIndex_def slot_index_def)

lemma PayloadLength_eq: "PayloadLength slot = length (payload_span slot)"
  by (simp add: PayloadLength_def payload_span_def split: option.split)

lemma GcHook_sim:
  assumes "table_sim T w" and "unat s < length (sender_metas w)"
  shows "table_sim (GcHook T s p) (gc_hook w s p)"
proof -
  have metas: "list_all2 meta_sim (Cs_senderMetas T) (sender_metas w)"
    using assms(1) by (simp add: table_sim_def)
  then have "meta_sim (Cs_senderMetas T ! unat s) (sender_metas w ! unat s)"
    using assms(2) by (simp add: list_all2_conv_all_nth)
  then show ?thesis
    using assms(1) list_all2_update_cong [OF metas]
    by (simp add: table_sim_def GcHook_def gc_hook_def meta_sim_def Let_def)
qed

lemma slot_ref_sim:
  assumes "table_sim T w" and "table_wf w" and "coord_sender_id c < 8"
  shows "slot_sim (slot_ref T c) (slot_view w c)"
proof -
  have "slot_index c < length (slots w)" "unat (coord_sender_id c) < length (sender_metas w)"
    using slot_index_less [OF assms(3)] assms(2,3) by (simp_all add: table_wf_def word_less_nat_alt)
  then have "slot_sim (Cs_slots T ! slot_index c) (slots w ! slot_index c)"
      "meta_sim (Cs_senderMetas T ! unat (coord_sender_id c)) (sender_metas w ! unat (coord_sender_id c))"
    using assms(1) by (simp_all add: table_sim_def list_all2_conv_all_nth)
  then show ?thesis
    by (simp add: slot_ref_def SlotIndex_eq slot_view_eq GcClockHook_def gc_clock_hook_def Let_def
        slot_sim_def meta_sim_def payload_span_def)
qed

lemma slot_assign_sim:
  "table_sim T w \<Longrightarrow> slot_sim cs s \<Longrightarrow> table_sim (slot_assign T c cs) (slot_put w c s)"
  by (simp add: table_sim_def slot_assign_def slot_put_def SlotIndex_eq list_all2_update_cong)

lemma ensure_span:
  "payload_span (EnsurePayloadCapacity slot n) = payload_span slot @ replicate (n - length (payload_span slot)) 0"
  by (simp add: EnsurePayloadCapacity_def PayloadLength_eq) (simp add: payload_span_def)

lemma copy_payload_span:
  assumes "mem_write (payload_span slot) off d = Inr v"
  shows "copy_payload slot off d = Inr (slot\<lparr> Cs_Payload := map_option (\<lambda>_. v) (Cs_Payload slot) \<rparr>)"
    and "payload_span (slot\<lparr> Cs_Payload := map_option (\<lambda>_. v) (Cs_Payload slot) \<rparr>) = v"
proof -
  show "copy_payload slot off d = Inr (slot\<lparr> Cs_Payload := map_option (\<lambda>_. v) (Cs_Payload slot) \<rparr>)"
    using assms by (simp add: copy_payload_def)
  show "payload_span (slot\<lparr> Cs_Payload := map_option (\<lambda>_. v) (Cs_Payload slot) \<rparr>) = v"
    using mem_write_length [OF assms] by (cases "Cs_Payload slot") (simp_all add: payload_span_def)
qed

text \<open>Storing a payload: the array has room for it, and holds what the vector holds.\<close>

lemma vector_write_zeros:
  assumes "off + length d \<le> length v + m"
  shows "take off (v @ replicate m 0) @ d @ drop (off + length d) (v @ replicate m 0) =
    vector_write v off d @ replicate (length v + m - length (vector_write v off d)) 0"
proof (cases "d = []")
  case True
  then show ?thesis by (simp add: vector_write_def del: take_append drop_append)
next
  case False
  let ?n = "max (length v) (off + length d)"
  have "take off (v @ replicate m 0) = take off (vector_resize v ?n)"
    using assms by (cases "off - length v \<le> m") (simp_all add: vector_resize_def min_def)
  moreover have "drop (off + length d) (v @ replicate m 0) =
      drop (off + length d) v @ replicate (length v + m - ?n) 0"
    using assms by (simp add: max_def add.commute)
  ultimately show ?thesis
    using False by (simp only: vector_write_length if_False append_assoc) (simp add: vector_write_def)
qed

lemma store_sim:
  assumes sim: "slot_sim cs s"
  obtains cs' where
    "copy_payload (EnsurePayloadCapacity cs (unat off + length d)) (unat off) d = Inr cs'"
    "\<And>st. slot_sim (cs'\<lparr> Cs_State := st \<rparr>) (slot_store off d st s)"
    "length (payload_span cs') = max (length (payload_span cs)) (unat off + length d)"
proof -
  let ?n = "unat off + length d" and ?v = "slot_data s"
  let ?e = "EnsurePayloadCapacity cs ?n"
  obtain m where m: "payload_span cs = ?v @ replicate m 0" using sim by (auto simp: slot_sim_def)
  define k where "k = m + (?n - length (payload_span cs))"
  have span: "payload_span ?e = ?v @ replicate k 0"
    by (simp only: ensure_span m k_def replicate_add append_assoc)
  have room: "?n \<le> length ?v + k" and len: "length ?v + k = max (length (payload_span cs)) ?n"
    using m by (simp_all add: k_def)
  let ?w = "vector_write ?v (unat off) d @
    replicate (length ?v + k - length (vector_write ?v (unat off) d)) 0"
  have written: "mem_write (payload_span ?e) (unat off) d = Inr ?w"
    using room by (simp add: span flip: vector_write_zeros [OF room])
  let ?cs = "?e\<lparr> Cs_Payload := map_option (\<lambda>_. ?w) (Cs_Payload ?e) \<rparr>"
  note copied = copy_payload_span [OF written]
  have fields: "Cs_State ?cs = Cs_State cs" "Cs_Gen ?cs = Cs_Gen cs"
    by (simp_all add: EnsurePayloadCapacity_def)
  show ?thesis
  proof
    show "copy_payload ?e (unat off) d = Inr ?cs" by (rule copied(1))
    show "slot_sim (?cs\<lparr> Cs_State := st \<rparr>) (slot_store off d st s)" for st
      using sim copied(2) fields by (auto simp: slot_sim_def payload_span_def)
    show "length (payload_span ?cs) = max (length (payload_span cs)) ?n"
      using mem_write_length [OF written] by (simp only: copied(2)) (simp add: span len)
  qed
qed

text \<open>What a frame of at least four bytes does.\<close>

lemma frame_payload_size:
  assumes "length frame < 65540"
  shows "min (slice_payload_size (block_header frame)) (of_nat (length (drop MP_HEADER_SIZE frame))) =
    (of_nat (length (block_payload frame)) :: u16)"
  using assms
  by (simp add: block_payload_def MP_HEADER_SIZE_def min_def word_le_nat_alt unat_u16_of_nat)

text \<open>
  The C++ decoder over the bytes of packages, and the relation of the outcomes: results are related,
  and a fault is the same, except that a read past the vector is no fault of the C# decoder.
\<close>

definition bytes_decoder :: "mp_config \<Rightarrow> (u8 list \<Rightarrow> 'u \<Rightarrow> 'u res) \<Rightarrow> (u8 list, 'u) RxDecoder" where
  "bytes_decoder config callback =
     \<lparr> RxDecoder_config = config, RxDecoder_parse = Some, RxDecoder_observer = callback \<rparr>"

definition outcome_sim :: "(RxCoordinator \<times> 'u) res \<Rightarrow> 'u decoder_world res \<Rightarrow> bool" where
  "outcome_sim cs cpp \<longleftrightarrow>
     (case cpp of Inl e \<Rightarrow> e \<noteq> Out_Of_Bounds \<longrightarrow> cs = Inl e
      | Inr w \<Rightarrow> \<exists>T. cs = Inr (T, observed w) \<and> table_sim T (coordinator_table w))"

lemma outcome_sim_simps [simp]:
  "outcome_sim cs (Inl e) \<longleftrightarrow> (e \<noteq> Out_Of_Bounds \<longrightarrow> cs = Inl e)"
  "outcome_sim (Inr (T, u)) (Inr w) \<longleftrightarrow> u = observed w \<and> table_sim T (coordinator_table w)"
  by (auto simp: outcome_sim_def)

lemma outcome_sim_bind:
  assumes "\<And>x. m = Inr x \<Longrightarrow> outcome_sim (f x) (g x)"
  shows "outcome_sim (bindE m f) (bindE m g)"
  using assms by (cases m) simp_all

lemma block_payload_nat:
  "unat (of_nat (length (block_payload frame)) :: u16) = length (block_payload frame)"
  using unat_u16_less [of "slice_payload_size (block_header frame)"]
  by (simp add: unat_u16_of_nat block_payload_def min_def del: unat_u16_less)

lemma Decode_eq:
  fixes config :: mp_config and w :: RxCoordinator
  assumes "4 \<le> length frame" and "length frame < 65540"
  defines "c \<equiv> mp_rx_header_to_coordinate config (block_header frame)"
  defines "w1 \<equiv> GcHook w (coord_sender_id c) (coord_package_id c)"
  defines "slot \<equiv> slot_ref w1 c"
  shows "Decode config w frame state callback =
    bindE (mp_rx_calc_slice_step (Cs_State slot) (slice_serial (block_header frame))
        (of_nat (length (block_payload frame))) (mp_max_payload config) (eop (block_header frame) \<noteq> 0))
      (\<lambda>step.
       if inst_event step = MP_RX_STREAM_DUPLICATE then Inr (slot_assign w1 c slot, state)
       else
         bindE (copy_payload
             (EnsurePayloadCapacity slot (unat (coord_offset c) + length (block_payload frame)))
             (unat (coord_offset c)) (block_payload frame)) (\<lambda>slot1.
         let slot2 = slot1\<lparr> Cs_State := next_state step \<rparr>
         in if inst_event step = MP_RX_STREAM_COMPLETE
         then
           bindE (mem_read (payload_span slot2) 0 (unat (termination_at (next_state step)))) (\<lambda>span.
           bindE (callback span state) (\<lambda>state'.
             Inr (slot_assign w1 c (slot2\<lparr> Cs_State := zero_state \<rparr>), state')))
         else Inr (slot_assign w1 c slot2, state)))"
proof -
  have header: "PackedHeaderFromSpan frame = Inr (MP_ARRAY_TO_PACKED_HEADER frame)"
    using assms(1) by (simp add: PackedHeaderFromSpan_def)
  show ?thesis
    unfolding Decode_def header bindE_Inr Let_def block_header_def [symmetric]
      frame_payload_size [OF assms(2)] block_payload_nat
      block_payload_size(2) [of frame, unfolded block_payload_nat]
      c_def w1_def slot_def ..
qed

text \<open>What the two decoders find and store for a frame.\<close>

lemma decode_facts:
  fixes config :: mp_config and frame :: "u8 list"
  assumes sim: "table_sim T table" and wf: "table_wf table"
  defines "c \<equiv> mp_rx_header_to_coordinate config (block_header frame)" and "d \<equiv> block_payload frame"
  defines "w1 \<equiv> gc_hook table (coord_sender_id c) (coord_package_id c)"
    and "T1 \<equiv> GcHook T (coord_sender_id c) (coord_package_id c)"
  defines "s \<equiv> slot_view w1 c"
  obtains cs' where "table_sim T1 w1" "slot_sim (slot_ref T1 c) s" "Cs_State (slot_ref T1 c) = slot_state s"
    "copy_payload (EnsurePayloadCapacity (slot_ref T1 c) (unat (coord_offset c) + length d))
       (unat (coord_offset c)) d = Inr cs'"
    "\<And>st. slot_sim (cs'\<lparr> Cs_State := st \<rparr>) (slot_store (coord_offset c) d st s)"
    "\<And>st n. n \<le> length (slot_data (slot_store (coord_offset c) d st s)) \<Longrightarrow>
      mem_read (payload_span (cs'\<lparr> Cs_State := st \<rparr>)) 0 n = Inr (take n (slot_data (slot_store (coord_offset c) d st s)))"
proof -
  have s8: "coord_sender_id c < 8"
    using block_sender [of frame] by (simp add: c_def mp_rx_header_to_coordinate_def Let_def)
  then have sim1: "table_sim T1 w1"
    using wf unfolding T1_def w1_def
    by (intro GcHook_sim [OF sim]) (simp add: table_wf_def word_less_nat_alt)
  have slot: "slot_sim (slot_ref T1 c) s"
    unfolding s_def by (rule slot_ref_sim [OF sim1 _ s8]) (simp add: w1_def gc_hook_wf [OF wf])
  obtain cs' where copied:
      "copy_payload (EnsurePayloadCapacity (slot_ref T1 c) (unat (coord_offset c) + length d))
         (unat (coord_offset c)) d = Inr cs'"
      "\<And>st. slot_sim (cs'\<lparr> Cs_State := st \<rparr>) (slot_store (coord_offset c) d st s)"
    using store_sim [OF slot, of "coord_offset c" d] by blast
  have read: "mem_read (payload_span (cs'\<lparr> Cs_State := st \<rparr>)) 0 n =
      Inr (take n (slot_data (slot_store (coord_offset c) d st s)))"
    if long: "n \<le> length (slot_data (slot_store (coord_offset c) d st s))" for st n
  proof -
    obtain m where "payload_span (cs'\<lparr> Cs_State := st \<rparr>) =
        slot_data (slot_store (coord_offset c) d st s) @ replicate m 0"
      using copied(2) [of st] by (auto simp: slot_sim_def)
    then show ?thesis using long by simp
  qed
  have "Cs_State (slot_ref T1 c) = slot_state s" using slot by (simp add: slot_sim_def)
  from that [OF sim1 slot this copied read] show ?thesis .
qed

lemma Decode_sim:
  assumes sim: "table_sim T (coordinator_table w)" and wf: "table_wf (coordinator_table w)"
    and size: "4 \<le> length frame" "length frame < 65540"
  shows "outcome_sim (Decode config T frame (observed w) callback)
    (RxDecoder_Push (bytes_decoder config callback) w frame)"
proof -
  have head: "MP_HEADER_SIZE \<le> length frame" using size(1) by (simp add: MP_HEADER_SIZE_def)
  show ?thesis
  proof (rule decode_facts [OF sim wf, of config frame])
    let ?c = "mp_rx_header_to_coordinate config (block_header frame)" and ?d = "block_payload frame"
    let ?w1 = "gc_hook (coordinator_table w) (coord_sender_id ?c) (coord_package_id ?c)"
      and ?T1 = "GcHook T (coord_sender_id ?c) (coord_package_id ?c)"
    let ?s = "slot_view ?w1 ?c"
    fix cs' assume facts: "table_sim ?T1 ?w1" "slot_sim (slot_ref ?T1 ?c) ?s" "Cs_State (slot_ref ?T1 ?c) = slot_state ?s"
      "copy_payload (EnsurePayloadCapacity (slot_ref ?T1 ?c) (unat (coord_offset ?c) + length ?d))
         (unat (coord_offset ?c)) ?d = Inr cs'"
      "\<And>st. slot_sim (cs'\<lparr> Cs_State := st \<rparr>) (slot_store (coord_offset ?c) ?d st ?s)"
      "\<And>st n. n \<le> length (slot_data (slot_store (coord_offset ?c) ?d st ?s)) \<Longrightarrow>
        mem_read (payload_span (cs'\<lparr> Cs_State := st \<rparr>)) 0 n = Inr (take n (slot_data (slot_store (coord_offset ?c) ?d st ?s)))"
    note assign = slot_assign_sim [OF facts(1)]
    show ?thesis
      unfolding Decode_eq [OF size] push_block [OF wf head] facts(3,4) bindE_Inr
      by (simp only: bytes_decoder_def RxDecoder.simps)
        (intro outcome_sim_bind,
          auto simp: Let_def deliver_message_def assign facts(2,5,6) not_less
            simp del: slot_store_simps(3) intro!: outcome_sim_bind)
  qed
qed

lemma decode_frames_sim:
  assumes "table_sim T (coordinator_table w)" and "table_wf (coordinator_table w)"
    and "\<forall>f\<in>set fs. 4 \<le> length f \<and> length f < 65540"
  shows "outcome_sim (cs_decode_frames config callback (T, observed w) fs)
    (push_blocks (bytes_decoder config callback) w fs)"
  using assms
proof (induction fs arbitrary: T w)
  case Nil
  then show ?case by (simp add: cs_decode_frames_def push_blocks_def)
next
  case (Cons f fs)
  have one: "outcome_sim (Decode config T f (observed w) callback)
      (RxDecoder_Push (bytes_decoder config callback) w f)"
    using Cons.prems by (intro Decode_sim) auto
  show ?case
  proof (cases "RxDecoder_Push (bytes_decoder config callback) w f")
    case (Inl e)
    then show ?thesis using one by (simp add: cs_decode_frames_def push_blocks_def)
  next
    case (Inr w')
    then obtain T' where T': "Decode config T f (observed w) callback = Inr (T', observed w')"
        "table_sim T' (coordinator_table w')"
      using one by (auto simp: outcome_sim_def)
    have "table_wf (coordinator_table w')" using Cons.prems(2) Inr by (rule push_table_wf)
    from Cons.IH [OF T'(2) this] Cons.prems(3) T'(1) Inr show ?thesis
      by (simp add: cs_decode_frames_def push_blocks_def)
  qed
qed

text \<open>A new decoder, and what it gives for a mixture of packages.\<close>

definition zero_metas :: "sender_meta list" where
  "zero_metas = replicate 8 \<lparr> meta_pkg = 0, meta_gen = 0 \<rparr>"

lemma zero_metas_length [simp]: "length zero_metas = 8"
  by (simp add: zero_metas_def)

lemma new_table_sim: "table_sim new_RxCoordinator (new_Coordinator zero_metas)"
  by (simp add: table_sim_def new_RxCoordinator_def new_Coordinator_def zero_metas_def SlotCount_def
      empty_slot_def slot_sim_def meta_sim_def payload_span_def list_all2_conv_all_nth
      MP_SENDER_ID_BITS_def MP_PACKAGE_ID_BITS_def)

lemma new_frames_sim:
  assumes "new_RxDecoder tu callback Some zero_metas u = (d, w)"
    and "\<forall>f\<in>set fs. 4 \<le> length f \<and> length f < 65540"
  shows "outcome_sim (cs_decode_frames (RxDecoder_config d) callback (new_RxCoordinator, u) fs) (push_blocks d w fs)"
proof -
  have d: "d = bytes_decoder (RxDecoder_config d) callback" "coordinator_table w = new_Coordinator zero_metas"
    using assms(1) by (auto simp: new_RxDecoder_def bytes_decoder_def)
  have "table_wf (coordinator_table w)" "observed w = u"
    using new_decoder_slots(1,2) [OF zero_metas_length assms(1)] .
  then show ?thesis
    using decode_frames_sim [of new_RxCoordinator w fs "RxDecoder_config d" callback] assms(2)
      new_table_sim d by simp
qed

lemma arrival_sizes:
  assumes "list_all2 (arrival_frame mp content) es fs"
  shows "\<forall>f\<in>set fs. 4 \<le> length f \<and> length f < 65540"
  using assms
  by (induction rule: list_all2_induct)
    (auto simp: arrival_frame_def carries_slice_def MP_HEADER_SIZE_def split: prod.splits)

lemma deliver_all_total:
  "deliver_all (\<lambda>b u. Inr (g b u)) u bs = Inr (foldl (\<lambda>u b. g b u) u bs)"
  by (induction bs arbitrary: u) simp_all

lemma decode_delivers_mixture:
  fixes g :: "u8 list \<Rightarrow> 'u \<Rightarrow> 'u"
  assumes "mp = mp_max_payload config" and "keys_ok mp keys content"
    and "list_all2 (arrival_frame mp content) es fs" and "fst ` set es \<subseteq> keys"
  shows "\<exists>T. cs_decode_frames config (\<lambda>b u. Inr (g b u)) (new_RxCoordinator, u) fs =
    Inr (T, foldl (\<lambda>u b. g b u) u (arrivals_run content (\<lambda>_. {}) es))"
proof -
  let ?tu = "int (unat (transmission_unit config))" and ?next = "\<lambda>b u. Inr (g b u) :: 'u res"
  obtain d w where new: "new_RxDecoder ?tu ?next Some zero_metas u = (d, w)" by (cases "new_RxDecoder ?tu ?next Some zero_metas u")
  then have d: "RxDecoder_config d = config" "deliver_message d = ?next"
    by (auto simp: new_RxDecoder_def deliver_message_def fun_eq_iff)
  have sim: "outcome_sim (cs_decode_frames config ?next (new_RxCoordinator, u) fs) (push_blocks d w fs)"
    using new_frames_sim [OF new arrival_sizes [OF assms(3)]] d(1) by simp
  have "bindE (push_blocks d w fs) (\<lambda>w'. Inr (observed w')) =
      Inr (foldl (\<lambda>u b. g b u) u (arrivals_run content (\<lambda>_. {}) es))"
    using cpp_rx.feed_arrivals [OF assms(3) [unfolded assms(1) d(1) [symmetric]] assms(4)
        new_decoder_holds [OF zero_metas_length new assms(2) [unfolded assms(1) d(1) [symmetric]]]]
    by (simp add: push_blocks_def new_decoder_slots(2) [OF zero_metas_length new] d(2) deliver_all_total)
  then show ?thesis
    using sim by (auto simp: bindE_eq_Inr outcome_sim_def)
qed

section \<open>Bounds\<close>

text \<open>
  The array of every slot reaches to the known end of its package, so that the span that is handed
  on lies within it. No frame can break this.
\<close>

definition slot_end_held :: "Cs_Slot \<Rightarrow> bool" where
  "slot_end_held slot \<longleftrightarrow> unat (termination_at (Cs_State slot)) \<le> length (payload_span slot)"

definition ends_held :: "RxCoordinator \<Rightarrow> bool" where
  "ends_held w \<longleftrightarrow> length (Cs_slots w) = SlotCount \<and> (\<forall>slot\<in>set (Cs_slots w). slot_end_held slot)"

lemma calc_step_end:
  assumes "mp_rx_calc_slice_step st i n mp e = Inr step"
  shows "next_state step = st \<or> termination_at (next_state step) = termination_at st \<or>
    unat (termination_at (next_state step)) \<le> unat (mp_slice_idx_to_offset i mp) + unat n"
proof -
  have "unat (mp_slice_idx_to_offset i mp + n) \<le> unat (mp_slice_idx_to_offset i mp) + unat n"
    by (simp add: unat_word_ariths)
  then show ?thesis
    using assms by (auto simp: mp_rx_calc_slice_step_def Let_def bindE_eq_Inr mp_rx_calc_termination_def
        split: if_splits)
qed

lemma watermark_loop_faults: "mp_rx_watermark_loop n st mp wm \<noteq> Inl Out_Of_Bounds"
  by (induction n arbitrary: wm)
    (auto simp: mp_rx_watermark_loop.simps Let_def bindE_eq_Inl mp_offset_to_slice_idx_def)

lemma calc_step_faults: "mp_rx_calc_slice_step st i n mp e \<noteq> Inl Out_Of_Bounds"
  using watermark_loop_faults
  by (auto simp: mp_rx_calc_slice_step_def Let_def bindE_eq_Inl mp_rx_advance_watermark_def
      mp_rx_is_complete_def mp_rx_termination_to_slice_count_def)

lemma ends_held_ref:
  assumes "ends_held w" and "coord_sender_id c < 8"
  shows "slot_end_held (slot_ref w c)"
proof -
  have "slot_index c < length (Cs_slots w)"
    using slot_index_less [OF assms(2)] assms(1)
    by (simp add: ends_held_def SlotCount_def MP_SENDER_ID_BITS_def MP_PACKAGE_ID_BITS_def)
  then have "slot_end_held (Cs_slots w ! slot_index c)"
    using assms(1) nth_mem by (auto simp: ends_held_def)
  then show ?thesis
    by (simp add: slot_end_held_def slot_ref_def SlotIndex_eq GcClockHook_def Let_def zero_state_def
        payload_span_def)
qed

lemma ends_held_assign: "ends_held w \<Longrightarrow> slot_end_held slot \<Longrightarrow> ends_held (slot_assign w c slot)"
  by (auto simp: ends_held_def slot_assign_def dest!: set_update_subset_insert [THEN subsetD])

lemma ends_held_GcHook: "ends_held w \<Longrightarrow> ends_held (GcHook w s p)"
  by (simp add: ends_held_def GcHook_def Let_def)

lemma Decode_in_bounds:
  assumes held: "ends_held w" and size: "4 \<le> length frame"
    and callback: "\<And>span u. callback span u \<noteq> Inl Out_Of_Bounds"
  shows "Decode config w frame state callback \<noteq> Inl Out_Of_Bounds"
    and "Decode config w frame state callback = Inr (w', state') \<Longrightarrow> ends_held w'"
proof -
  let ?c = "mp_rx_header_to_coordinate config (block_header frame)"
    and ?p = "drop MP_HEADER_SIZE frame"
  let ?n = "min (slice_payload_size (block_header frame)) (of_nat (length ?p))"
  let ?w1 = "GcHook w (coord_sender_id ?c) (coord_package_id ?c)"
  let ?slot = "slot_ref ?w1 ?c" and ?d = "take (unat ?n) ?p"
  have "coord_sender_id ?c < 8"
    using block_sender [of frame] by (simp add: mp_rx_header_to_coordinate_def Let_def)
  then have slot: "slot_end_held ?slot" by (rule ends_held_ref [OF ends_held_GcHook [OF held]])
  have "unat ?n \<le> unat (of_nat (length ?p) :: u16)" by (simp only: word_le_nat_alt [symmetric]) simp
  also have "\<dots> \<le> length ?p" by (simp only: unat_u16_of_nat mod_less_eq_dividend)
  finally have d: "length ?d = unat ?n" by simp
  have "slot_sim ?slot \<lparr> slot_state = Cs_State ?slot, slot_data = payload_span ?slot, slot_gen = Cs_Gen ?slot \<rparr>"
    by (simp add: slot_sim_def)
  from store_sim [OF this, of "coord_offset ?c" ?d, unfolded d] obtain slot' where copied:
      "copy_payload (EnsurePayloadCapacity ?slot (unat (coord_offset ?c) + unat ?n))
         (unat (coord_offset ?c)) ?d = Inr slot'"
      "length (payload_span slot') = max (length (payload_span ?slot)) (unat (coord_offset ?c) + unat ?n)"
    by blast
  have stored: "unat (termination_at (next_state step)) \<le> length (payload_span slot')"
    if "mp_rx_calc_slice_step (Cs_State ?slot) (slice_serial (block_header frame)) ?n
      (mp_max_payload config) e = Inr step" for step e
    using calc_step_end [OF that] slot copied(2)
    by (auto simp: slot_end_held_def mp_rx_header_to_coordinate_def Let_def)
  have span: "payload_span (slot'\<lparr> Cs_State := st \<rparr>) = payload_span slot'" for st
    by (simp add: payload_span_def)
  have header: "PackedHeaderFromSpan frame = Inr (MP_ARRAY_TO_PACKED_HEADER frame)"
    using size by (simp add: PackedHeaderFromSpan_def)
  note run = Decode_def header bindE_Inr Let_def block_header_def [symmetric] copied(1) span
  show "Decode config w frame state callback \<noteq> Inl Out_Of_Bounds"
    unfolding run using calc_step_faults callback stored
    by (auto simp: bindE_eq_Inl split: if_splits)
  show "ends_held w'" if "Decode config w frame state callback = Inr (w', state')"
    using that stored slot unfolding run
    by (auto simp: bindE_eq_Inr span slot_end_held_def zero_state_def
        intro!: ends_held_assign ends_held_GcHook held split: if_splits)
qed

section \<open>Properties\<close>

text \<open>C10: The C# decoder does what the C++ decoder does. For any blocks of at least four and fewer than
  65540 bytes, damaged ones too, when the sender entries of the C++ table start at zero and both hand the bytes of
  a package on: if the C++ decoder takes them all, the C# decoder takes them and has called its
  callback with the same bytes in the same order; if the C++ decoder stops at a fault other than
  a read past its vector, the C# decoder stops at the same one. (Of a longer block, which is none of
  the protocol, the C# decoder takes the length of the payload modulo 65536, the C++ decoder does not.)\<close>

theorem cs_decoder_matches_cpp:
  assumes "new_RxDecoder tu callback Some zero_metas u = (d, w)"
    and "\<forall>f\<in>set fs. 4 \<le> length f \<and> length f < 65540"
  shows "case push_blocks d w fs of
      Inr w' \<Rightarrow> \<exists>T. cs_decode_frames (RxDecoder_config d) callback (new_RxCoordinator, u) fs = Inr (T, observed w')
    | Inl e \<Rightarrow> e \<noteq> Out_Of_Bounds \<longrightarrow>
        cs_decode_frames (RxDecoder_config d) callback (new_RxCoordinator, u) fs = Inl e"
  using new_frames_sim [OF assms] by (auto simp: outcome_sim_def split: sum.splits)

theorem cs_decoder_matches_cpp_witness:
  "\<exists>T. cs_decode_frames \<lparr> transmission_unit = 8 \<rparr> (\<lambda>b seen. Inr (seen @ [b])) (new_RxCoordinator, [])
    [slice_frame 4 2 9 1 [1, 2, 3, 4, 5] 1, slice_frame 4 2 9 1 [1, 2, 3, 4, 5] 0] = Inr (T, [[1, 2, 3, 4, 5]])"
proof -
  let ?next = "\<lambda>b seen. Inr (seen @ [b]) :: u8 list list res"
    and ?fs = "map (slice_frame 4 2 9 1 [1, 2, 3, 4, 5]) ([1] @ [0])"
  obtain d w where new: "new_RxDecoder 8 ?next Some zero_metas [] = (d, w)"
    by (cases "new_RxDecoder 8 ?next Some zero_metas []")
  then have d: "RxDecoder_config d = \<lparr> transmission_unit = 8 \<rparr>" "deliver_message d = ?next"
    by (auto simp: new_RxDecoder_def deliver_message_def fun_eq_iff)
  have ok: "package_ok 4 1 (length [1, 2, 3, 4, 5 :: u8])" "wire_ok 4 2"
    by (simp_all add: package_ok_def wire_ok_def)
  have carry: "list_all2 (carries_slice 4 2 9 1 [1, 2, 3, 4, 5]) ([1] @ [0]) ?fs"
    using slice_frame_carries(1) [OF ok(1) _ ok(2)] by simp
  have "set [1] \<union> {0} = {..1 :: nat}" "set [1] \<noteq> {..1 :: nat}" by (auto simp: atMost_Suc)
  from decoder_delivers_package [OF zero_metas_length new _ ok carry this]
  have "bindE (push_blocks d w ?fs) (\<lambda>w'. Inr (observed w')) = Inr [[1, 2, 3, 4, 5]]"
    by (simp add: d mp_max_payload_def MP_HEADER_SIZE_def)
  then obtain w' where "push_blocks d w ?fs = Inr w'" "observed w' = [[1, 2, 3, 4, 5]]"
    by (auto simp: bindE_eq_Inr)
  moreover have "\<forall>f\<in>set ?fs. 4 \<le> length f \<and> length f < 65540"
    using carry by (simp add: carries_slice_def MP_HEADER_SIZE_def)
  ultimately show ?thesis using cs_decoder_matches_cpp [OF new, of ?fs] d(1) by simp
qed

text \<open>C12: No frame makes the C# decoder reach outside its arrays. Whatever frames of at least four
  bytes come, in whatever order, the payloads fit behind their offsets in the slots' arrays and
  the span handed on when a package is complete lies within its array; the blocks that make the C++
  decoder read past its vector are harmless here.\<close>

theorem cs_decoder_stays_in_bounds:
  assumes "\<forall>f\<in>set fs. 4 \<le> length f" and "\<forall>span u. callback span u \<noteq> Inl Out_Of_Bounds"
  shows "cs_decode_frames config callback (new_RxCoordinator, u) fs \<noteq> Inl Out_Of_Bounds"
proof -
  have "cs_decode_frames config callback (w, u) fs \<noteq> Inl Out_Of_Bounds" if "ends_held w" for w u
    using assms(1) that
  proof (induction fs arbitrary: w u)
    case (Cons f fs)
    then show ?case
      using Decode_in_bounds [of w f callback config u] assms(2)
      by (auto simp: cs_decode_frames_def bindE_eq_Inl)
  qed (simp add: cs_decode_frames_def)
  moreover have "ends_held new_RxCoordinator"
    by (simp add: ends_held_def new_RxCoordinator_def slot_end_held_def zero_state_def)
  ultimately show ?thesis by blast
qed

theorem cs_decoder_stays_in_bounds_witness:
  "cs_decode_frames \<lparr> transmission_unit = 8 \<rparr> (\<lambda>b seen. Inr (seen @ [b])) (new_RxCoordinator, [])
    [wire_block (plain_header 2 9 1 0) [], wire_block (plain_header 2 9 2 0) [],
     wire_block (plain_header 2 9 0 4) [1, 2, 3, 4]] \<noteq> Inl Out_Of_Bounds"
  by (rule cs_decoder_stays_in_bounds) (simp_all add: wire_block_def)

end
