(* ===== verification/Cs_Link.thy ===== *)
theory Cs_Link
  imports Cs_Tx Cs_Rx Messages
begin

text \<open>
  The C# binding end to end: messages written through the writers of a \<open>TxEncoder\<close>, their frames
  mixed on the way, and a \<open>RxDecoder\<close> at the end; and what a client that asks for more room than
  is left does to its message.
\<close>

section \<open>Sending many messages\<close>

text \<open>
  A message is the list of its pieces, with the array its writer rents. The frames of each message
  are collected in a list of their own.
\<close>

type_synonym written_message = "(int \<times> u8 list) list \<times> u8 list"

definition message_bytes :: "written_message \<Rightarrow> u8 list" where
  "message_bytes m = concat (map snd (fst m))"

definition collect_frame :: "u8 list \<Rightarrow> u8 list list \<Rightarrow> u8 list list res" where
  "collect_frame f fs = Inr (fs @ [f])"

fun write_messages ::
    "TxEncoder \<Rightarrow> written_message list \<Rightarrow> (TxEncoder \<times> u8 list list list) res" where
  "write_messages enc [] = Inr (enc, [])"
| "write_messages enc (m # ms) =
     (case CreateWriter enc collect_frame (snd m) of (s, enc') \<Rightarrow>
     bindE (write_message s [] (piece_calls (fst m))) (\<lambda>(s', fs).
     bindE (write_messages enc' ms) (\<lambda>(enc'', fss). Inr (enc'', fs # fss))))"

definition end_slice :: "u16 \<Rightarrow> u8 list \<Rightarrow> nat" where
  "end_slice mp bytes = length bytes div unat mp"

text \<open>A message a writer of the unit \<open>tu\<close> can take.\<close>

definition message_ok :: "u16 \<Rightarrow> u16 \<Rightarrow> written_message \<Rightarrow> bool" where
  "message_ok tu mp m \<longleftrightarrow> unat tu \<le> length (snd m) \<and> pieces_fit (unat mp) 0 (fst m) \<and>
     package_ok mp (end_slice mp (message_bytes m)) (length (message_bytes m))"

lemma collect_all: "foldE (\<lambda>w f. collect_frame f w) w fs = Inr (w @ fs)"
  by (induction fs arbitrary: w) (simp_all add: collect_frame_def)

lemma write_messages_send:
  assumes "mp = enc_transmissionUnit enc - 4" and "4 < enc_transmissionUnit enc"
    and "wire_ok mp (enc_senderId enc)" and "\<forall>m\<in>set ms. message_ok (enc_transmissionUnit enc) mp m"
  shows "\<exists>enc' fss. write_messages enc ms = Inr (enc', fss) \<and>
    (\<forall>j<length ms. \<forall>i\<le>end_slice mp (message_bytes (ms ! j)).
      carries_slice mp (enc_senderId enc) (ucast (enc_currentPackageId enc + 1) + of_nat j)
        (end_slice mp (message_bytes (ms ! j))) (message_bytes (ms ! j)) i (fss ! j ! i))"
  using assms
proof (induction ms arbitrary: enc)
  case (Cons m ms)
  let ?enc = "enc\<lparr> enc_currentPackageId := enc_currentPackageId enc + 1 \<rparr>"
  let ?package = "ucast (enc_currentPackageId enc + 1) :: u8" and ?b = "message_bytes m"
  obtain s where s: "CreateWriter enc collect_frame (snd m) = (s, ?enc)"
    by (simp add: CreateWriter_def Let_def)
  have m: "unat (enc_transmissionUnit enc) \<le> length (snd m)" "pieces_fit (unat mp) 0 (fst m)"
      "package_ok mp (length ?b div unat mp) (length ?b)"
    using Cons.prems(4) by (simp_all add: message_ok_def end_slice_def)
  obtain fs where fs: "package_frames mp (enc_senderId enc) ?package ?b fs"
      "bindE (write_message s [] (piece_calls (fst m))) (\<lambda>(s', w'). Inr w') = Inr fs"
    using writer_sends [OF s Cons.prems(1,2) m(1,2) message_bytes_def m(3)] by (auto simp: collect_all)
  then obtain s' where s': "write_message s [] (piece_calls (fst m)) = Inr (s', fs)"
    by (auto simp: bindE_eq_Inr)
  note carry = package_frames_carry(1) [OF m(3) Cons.prems(3) fs(1), folded end_slice_def]
  obtain enc' fss where fss: "write_messages ?enc ms = Inr (enc', fss)"
      "\<forall>j<length ms. \<forall>i\<le>end_slice mp (message_bytes (ms ! j)).
        carries_slice mp (enc_senderId enc) (ucast (enc_currentPackageId enc + 1 + 1) + of_nat j)
          (end_slice mp (message_bytes (ms ! j))) (message_bytes (ms ! j)) i (fss ! j ! i)"
    using Cons.IH [of ?enc] Cons.prems by auto
  have next_number: "ucast (enc_currentPackageId enc + 1 + 1) = ?package + 1"
    by (simp add: word_unat_eq_iff unsigned_ucast_eq unat_word_ariths take_bit_eq_mod mod_simps mod_mod_cancel)
  have "carries_slice mp (enc_senderId enc) (?package + of_nat j)
      (end_slice mp (message_bytes ((m # ms) ! j))) (message_bytes ((m # ms) ! j)) i ((fs # fss) ! j ! i)"
    if "j < length (m # ms)" "i \<le> end_slice mp (message_bytes ((m # ms) ! j))" for i j
    using carry fss(2) that unfolding next_number by (cases j) (simp_all add: add.assoc)
  then show ?case using s s' fss(1) by auto
qed simp

section \<open>Asking for more room than is left\<close>

text \<open>\<open>GetSpan\<close> then sends the slice as it is, and goes on with the next one.\<close>

lemma large_hint_emits:
  assumes at: "writer_at mp sender package i pend s" and pend: "pend \<noteq> []"
    and hint: "int (unat mp) - int (length pend) < h"
  shows "\<exists>f s2. frame_carries mp (header_at mp sender package i (of_nat (length pend)) False) pend f \<and>
    writer_at mp sender package (Suc i) [] s2 \<and> writer_next s2 = writer_next s \<and>
    (\<forall>w. writer_step (s, w) (Call_GetSpan h p) =
      bindE (writer_next s f w) (\<lambda>w'. writer_step (s2, w') (Call_GetSpan 0 p)))"
proof -
  obtain f s2 where f: "frame_carries mp (header_at mp sender package i (of_nat (length pend)) False) pend f"
      "writer_at mp sender package (Suc i) [] s2" "writer_next s2 = writer_next s"
      "EmitSlice s w False = bindE (writer_next s f w) (\<lambda>w'. Inr (s2, w'))" for w
    using emit_sends [OF at, of False] pend by fastforce
  have "CheckSizeAndTryEmitSlice s w h = EmitSlice s w False" for w
    using at hint by (simp add: CheckSizeAndTryEmitSlice_def writer_at_def)
  moreover have "CheckSizeAndTryEmitSlice s2 w 0 = Inr (s2, w)" for w
    using f(2) by (simp add: CheckSizeAndTryEmitSlice_def writer_at_def)
  ultimately have "writer_step (s, w) (Call_GetSpan h p) =
      bindE (writer_next s f w) (\<lambda>w'. writer_step (s2, w') (Call_GetSpan 0 p))" for w
    by (simp add: GetSpan_def writer_span_def f(4) bindE_assoc)
  then show ?thesis using f(1-3) by blast
qed

lemma large_hint_frames:
  assumes new: "CreateWriter enc collect_frame rented = (s, enc')"
    and unit: "mp = enc_transmissionUnit enc - 4" "4 < enc_transmissionUnit enc"
      "unat (enc_transmissionUnit enc) \<le> length rented"
    and p1: "p1 \<noteq> []" "length p1 < unat mp" and h: "int (unat mp) - int (length p1) < h"
    and p2: "p2 \<noteq> []" "length p2 < unat mp"
  defines "package \<equiv> ucast (enc_currentPackageId enc + 1) :: u8"
  shows "\<exists>f1 f2 s'. write_message s [] [Call_GetSpan 0 p1, Call_Advance (int (length p1)),
      Call_GetSpan h p2, Call_Advance (int (length p2))] = Inr (s', [f1, f2]) \<and>
    frame_carries mp (header_at mp (enc_senderId enc) package 0 (of_nat (length p1)) False) p1 f1 \<and>
    frame_carries mp (header_at mp (enc_senderId enc) package 1 (of_nat (length p2)) True) p2 f2"
proof -
  let ?sender = "enc_senderId enc"
  have m: "0 < unat mp" using p1(2) by simp
  have "writer_at mp ?sender package 0 [] s \<and> writer_next s = collect_frame"
    using new_writer_at [OF new unit] m by (simp add: package_def unat_gt_0)
  then have s: "writer_at mp ?sender package 0 [] s" "writer_next s = collect_frame" by simp_all
  obtain s1 where s1: "foldE writer_step (s, w) [Call_GetSpan 0 p1, Call_Advance (int (length p1))] = Inr (s1, w)"
      "writer_at mp ?sender package 0 p1 s1" "writer_next s1 = collect_frame" for w
    using piece_step [OF s(1), of 0 p1] m p1(2) s(2) by auto
  obtain f1 s2 where f1: "frame_carries mp (header_at mp ?sender package 0 (of_nat (length p1)) False) p1 f1"
      "writer_at mp ?sender package 1 [] s2" "writer_next s2 = collect_frame"
      "writer_step (s1, w) (Call_GetSpan h p2) = writer_step (s2, w @ [f1]) (Call_GetSpan 0 p2)" for w
    using large_hint_emits [OF s1(2) p1(1) h, of p2] s1(3) by (auto simp: collect_frame_def)
  obtain s3 where s3: "foldE writer_step (s2, w) [Call_GetSpan 0 p2, Call_Advance (int (length p2))] = Inr (s3, w)"
      "writer_at mp ?sender package 1 p2 s3" "writer_next s3 = collect_frame" for w
    using piece_step [OF f1(2), of 0 p2] m p2(2) f1(3) by auto
  obtain f2 b where f2: "frame_carries mp (header_at mp ?sender package 1 (of_nat (length p2)) True) p2 f2"
      "EmitSlice s3 w True = Inr (s3\<lparr> writer_buffer := b, writer_cursor := slice_coord ?sender package mp (Suc 1),
        writer_fill := 0 \<rparr>, w @ [f2])" for w
    using emit_sends [OF s3(2), of True] p2(1) s3(3) by (auto simp: collect_frame_def)
  have "foldE writer_step (s, []) ([Call_GetSpan 0 p1, Call_Advance (int (length p1))] @
      [Call_GetSpan h p2, Call_Advance (int (length p2))]) =
      foldE writer_step (s2, [f1]) [Call_GetSpan 0 p2, Call_Advance (int (length p2))]"
    unfolding foldE_append s1(1) by (simp add: f1(4) del: writer_step.simps)
  then show ?thesis
    using f1(1) f2 s3(1) by (simp add: write_message_def Dispose_def del: foldE.simps writer_step.simps)
qed

text \<open>What the decoder makes of these frames. All its slots are idle before and after the first one.\<close>

definition slots_idle :: "RxCoordinator \<Rightarrow> bool" where
  "slots_idle w \<longleftrightarrow> length (Cs_slots w) = SlotCount \<and> (\<forall>slot\<in>set (Cs_slots w). Cs_State slot = zero_state)"

lemma slots_idle_ref:
  assumes "slots_idle w" and "coord_sender_id c < 8"
  shows "Cs_State (slot_ref (GcHook w s p) c) = zero_state"
proof -
  have "slot_index c < length (Cs_slots w)"
    using slot_index_less [OF assms(2)] assms(1)
    by (simp add: slots_idle_def SlotCount_def MP_SENDER_ID_BITS_def MP_PACKAGE_ID_BITS_def)
  then have "Cs_State (Cs_slots w ! slot_index c) = zero_state"
    using assms(1) by (simp add: slots_idle_def)
  then show ?thesis by (simp add: slot_ref_def SlotIndex_eq GcClockHook_def GcHook_def Let_def)
qed

lemma slots_idle_assign:
  "slots_idle w \<Longrightarrow> Cs_State slot = zero_state \<Longrightarrow> slots_idle (slot_assign (GcHook w s p) c slot)"
  by (auto simp: slots_idle_def slot_assign_def GcHook_def Let_def dest!: set_update_subset_insert [THEN subsetD])

lemma frame_block:
  assumes "frame_carries mp h d f" and "header_wf h" and "slice_payload_size h = of_nat (length d)"
    and "length d \<le> unat mp"
  shows "block_header f = h" and "block_payload f = d" and "4 \<le> length f" and "length f < 65540"
proof -
  have f: "f = wire_block h (drop MP_HEADER_SIZE f)"
    using assms(1) append_take_drop_id [of MP_HEADER_SIZE f] by (simp add: frame_carries_def wire_block_def)
  have "unat mp < 65536" by simp
  then have "length d < 65536" using assms(4) by linarith
  then have n: "unat (slice_payload_size h) = length d"
    using assms(3) by (simp add: unat_u16_of_nat)
  show "block_header f = h" using wire_block_simps(1) [OF assms(2)] f by metis
  have "block_payload f = take (unat (slice_payload_size h)) (drop MP_HEADER_SIZE f)"
    using wire_block_simps(2) [OF assms(2)] f by metis
  then show "block_payload f = d" using assms(1) n by (simp add: frame_carries_def)
  show "4 \<le> length f" "length f < 65540"
    using assms(1) \<open>unat mp < 65536\<close> by (simp_all add: frame_carries_def MP_HEADER_SIZE_def)
qed

lemma store_any:
  fixes off :: u16
  obtains cs' m where
    "copy_payload (EnsurePayloadCapacity cs (unat off + length d)) (unat off) d = Inr cs'"
    "payload_span cs' = vector_write (payload_span cs) (unat off) d @ replicate m 0"
proof -
  have "slot_sim cs \<lparr> slot_state = Cs_State cs, slot_data = payload_span cs, slot_gen = Cs_Gen cs \<rparr>"
    by (simp add: slot_sim_def)
  from store_sim [OF this, of off d] obtain cs' where cs':
      "copy_payload (EnsurePayloadCapacity cs (unat off + length d)) (unat off) d = Inr cs'"
      "slot_sim (cs'\<lparr> Cs_State := zero_state \<rparr>) (slot_store off d zero_state
        \<lparr> slot_state = Cs_State cs, slot_data = payload_span cs, slot_gen = Cs_Gen cs \<rparr>)"
    by blast
  from cs'(2) obtain m where "payload_span cs' = vector_write (payload_span cs) (unat off) d @ replicate m 0"
    by (auto simp: slot_sim_def payload_span_def)
  with cs'(1) show ?thesis by (rule that)
qed

text \<open>A short frame with slice number \<open>i\<close>, and the place it has in the table.\<close>

lemma numbered_frame:
  assumes f: "frame_carries mp (header_at mp s p i (of_nat (length d)) e) d f"
    and wire: "wire_ok mp s" and d: "length d < unat mp" and i: "i < 256" "i * unat mp < 65536"
  shows "block_header f = \<lparr> package_serial = p, slice_serial = of_nat i, hdr_sender_id = s AND 7,
      eop = (if e then 1 else 0), slice_payload_size = of_nat (length d) \<rparr>"
    and "block_payload f = d" and "4 \<le> length f" and "length f < 65540"
    and "coord_sender_id (mp_rx_header_to_coordinate config (block_header f)) < 8"
proof -
  let ?h = "\<lparr> package_serial = p, slice_serial = of_nat i, hdr_sender_id = s AND 7,
    eop = (if e then 1 else 0), slice_payload_size = of_nat (length d) \<rparr>"
  have pos: "mp \<noteq> 0" "unat mp < 4096" using d wire by (auto simp: wire_ok_def word_less_nat_alt)
  have h: "header_at mp s p i (of_nat (length d)) e = ?h"
    by (rule header_at_in_range [OF pos(1) i])
  have sender: "s AND 7 < 8"
    using header_wf_truncate [of "?h\<lparr> hdr_sender_id := s \<rparr>"] by (simp add: header_wf_def header_truncate_def)
  then have "header_wf ?h"
    using d pos(2) by (simp add: header_wf_def word_less_nat_alt unat_u16_of_nat)
  note block = frame_block [OF f [unfolded h] this _ less_imp_le [OF d]]
  show "block_header f = ?h" "block_payload f = d" "4 \<le> length f" "length f < 65540"
    using block by simp_all
  then show "coord_sender_id (mp_rx_header_to_coordinate config (block_header f)) < 8"
    using sender by (simp add: mp_rx_header_to_coordinate_def Let_def)
qed

text \<open>A short first slice without the end mark counts as a whole package.\<close>

lemma short_first_completes:
  assumes "d \<noteq> []" and "length d < unat mp" and "unat mp < 4096"
  shows "\<exists>st. mp_rx_calc_slice_step zero_state 0 (of_nat (length d)) mp False =
      Inr \<lparr> inst_event = MP_RX_STREAM_COMPLETE, next_state = st \<rparr> \<and> unat (termination_at st) = length d"
proof -
  let ?k = "of_nat (length d) :: u16"
  have n: "unat ?k = length d" using assms by (simp add: unat_u16_of_nat)
  then have "unat ?k \<noteq> 0" using assms(1) by simp
  then have small: "?k < mp" "?k \<noteq> 0" using n assms(2) by (auto simp: word_less_nat_alt)
  have ok: "package_ok mp 0 (length d)" using assms by (auto simp: package_ok_def)
  have "mp_rx_calc_slice_step zero_state 0 ?k mp False = step_package mp 0 (length d) zero_state 0"
    using small by (simp add: mp_rx_calc_slice_step_def slice_len_def)
  moreover obtain st where "step_package mp 0 (length d) zero_state 0 =
      Inr \<lparr> inst_event = slice_event 0 {} 0, next_state = st \<rparr>" "package_view mp 0 (length d) {0} st"
    using step_package_refines [OF ok view_zero [OF ok], of 0] by auto
  ultimately show ?thesis by (auto simp: slice_event_def package_view_def)
qed

lemma decode_short_first:
  assumes f: "frame_carries mp (header_at mp s p 0 (of_nat (length d)) False) d f"
    and mp: "mp_max_payload config = mp" and wire: "wire_ok mp s"
    and d: "d \<noteq> []" "length d < unat mp" and idle: "slots_idle T"
  shows "\<exists>T'. slots_idle T' \<and> Decode config T f u callback = bindE (callback d u) (\<lambda>u'. Inr (T', u'))"
proof -
  have "unat mp < 4096" using wire by (simp add: wire_ok_def word_less_nat_alt)
  then obtain st where st: "mp_rx_calc_slice_step zero_state 0 (of_nat (length d)) mp False =
        Inr \<lparr> inst_event = MP_RX_STREAM_COMPLETE, next_state = st \<rparr>"
      "unat (termination_at st) = length d"
    using short_first_completes [OF d] by blast
  note block = numbered_frame(1-4) [OF f wire d(2), simplified]
  let ?c = "mp_rx_header_to_coordinate config (block_header f)"
  let ?w = "GcHook T (coord_sender_id ?c) (coord_package_id ?c)"
  have c: "coord_offset ?c = 0"
    by (simp add: block(1) mp_rx_header_to_coordinate_def mp_slice_idx_to_offset_def Let_def)
  have "coord_sender_id ?c < 8" by (rule numbered_frame(5) [OF f wire d(2)]) simp_all
  then have state: "Cs_State (slot_ref ?w ?c) = zero_state" by (rule slots_idle_ref [OF idle])
  obtain cs m where cs: "copy_payload (EnsurePayloadCapacity (slot_ref ?w ?c) (unat (coord_offset ?c) + length d))
        (unat (coord_offset ?c)) d = Inr cs"
      "payload_span cs = vector_write (payload_span (slot_ref ?w ?c)) (unat (coord_offset ?c)) d @ replicate m 0"
    by (rule store_any [where cs = "slot_ref ?w ?c" and off = "coord_offset ?c" and d = d])
  have span: "payload_span (cs\<lparr> Cs_State := x \<rparr>) = payload_span cs" for x by (simp add: payload_span_def)
  have "mem_read (payload_span cs) 0 (length d) = Inr d"
    using vector_write_same [of d 0] d(1) by (simp add: cs(2) c vector_write_length)
  then have "Decode config T f u callback =
      bindE (callback d u) (\<lambda>u'. Inr (slot_assign ?w ?c (cs\<lparr> Cs_State := zero_state \<rparr>), u'))"
    unfolding Decode_eq [OF block(3,4)] state block(2) mp cs(1)
    using st by (simp add: block(1) span Let_def)
  moreover have "slots_idle (slot_assign ?w ?c (cs\<lparr> Cs_State := zero_state \<rparr>))"
    by (rule slots_idle_assign [OF idle]) simp
  ultimately show ?thesis by blast
qed

lemma decode_later_slice:
  assumes f: "frame_carries mp (header_at mp s p 1 (of_nat (length d)) True) d f"
    and mp: "mp_max_payload config = mp" and wire: "wire_ok mp s"
    and d: "length d < unat mp" and idle: "slots_idle T"
  shows "\<exists>T'. Decode config T f u callback = Inr (T', u)"
proof -
  note block = numbered_frame(1-4) [OF f wire d, simplified]
  let ?c = "mp_rx_header_to_coordinate config (block_header f)"
  let ?w = "GcHook T (coord_sender_id ?c) (coord_package_id ?c)"
  have "coord_sender_id ?c < 8" by (rule numbered_frame(5) [OF f wire d]) simp_all
  then have state: "Cs_State (slot_ref ?w ?c) = zero_state" by (rule slots_idle_ref [OF idle])
  have "unat (ucast mp :: u32) \<noteq> 0" using d by simp
  then have "(0 :: u32) < ucast mp" by (simp add: word_less_nat_alt)
  then obtain st where st: "mp_rx_calc_slice_step zero_state 1 (of_nat (length d)) mp True =
      Inr \<lparr> inst_event = MP_RX_STREAM_NEW_SLICE_OUT_OF_ORDER, next_state = st \<rparr>"
    by (simp add: mp_rx_calc_slice_step_def zero_state_def mp_slice_idx_to_offset_def Let_def)
  obtain cs m where cs: "copy_payload (EnsurePayloadCapacity (slot_ref ?w ?c) (unat (coord_offset ?c) + length d))
        (unat (coord_offset ?c)) d = Inr cs"
      "payload_span cs = vector_write (payload_span (slot_ref ?w ?c)) (unat (coord_offset ?c)) d @ replicate m 0"
    by (rule store_any [where cs = "slot_ref ?w ?c" and off = "coord_offset ?c" and d = d])
  show ?thesis
    unfolding Decode_eq [OF block(3,4)] state block(2) mp cs(1)
    using st by (simp add: block(1) Let_def)
qed

section \<open>Properties\<close>

text \<open>C5: The C# binding carries messages. Up to 128 messages are written, each in pieces of any sizes
  that fit, without the package number starting over, and their frames reach a new decoder of the
  same unit mixed in any way, repeated or lost: the callback is given exactly the messages all of whose
  slices have come, byte for byte, in the order in which their last missing slices came.\<close>

theorem cs_messages_roundtrip:
  fixes g :: "u8 list \<Rightarrow> 'u \<Rightarrow> 'u"
  assumes enc: "mp = enc_transmissionUnit enc - 4" "4 < enc_transmissionUnit enc"
      "wire_ok mp (enc_senderId enc)"
    and ms: "\<forall>m\<in>set ms. message_ok (enc_transmissionUnit enc) mp m"
    and number: "unat (ucast (enc_currentPackageId enc + 1) :: u8) + length ms \<le> 256" "length ms \<le> 128"
    and js: "\<forall>(j, i)\<in>set js. j < length ms \<and> i \<le> end_slice mp (message_bytes (ms ! j))"
  shows "\<exists>enc' fss T. write_messages enc ms = Inr (enc', fss) \<and>
    cs_decode_frames \<lparr> transmission_unit = enc_transmissionUnit enc \<rparr> (\<lambda>b u. Inr (g b u))
        (new_RxCoordinator, u) (map (\<lambda>(j, i). fss ! j ! i) js) =
      Inr (T, foldl (\<lambda>u j. g (message_bytes (ms ! j)) u) u
        (completed (\<lambda>j. end_slice mp (message_bytes (ms ! j))) (\<lambda>_. {}) js))"
proof -
  let ?s = "enc_senderId enc" and ?first = "ucast (enc_currentPackageId enc + 1) :: u8"
  let ?bs = "map message_bytes ms" and ?k = "\<lambda>j. end_slice mp (message_bytes (ms ! j))"
  let ?config = "\<lparr> transmission_unit = enc_transmissionUnit enc \<rparr>"
  obtain enc' fss where fss: "write_messages enc ms = Inr (enc', fss)"
      "\<forall>j<length ms. \<forall>i\<le>?k j. carries_slice mp ?s (?first + of_nat j) (?k j) (message_bytes (ms ! j)) i (fss ! j ! i)"
    using write_messages_send [OF enc ms] by blast
  have mp: "mp = mp_max_payload ?config"
    using enc(1) by (simp add: mp_max_payload_def MP_HEADER_SIZE_def)
  have ok: "\<forall>b\<in>set ?bs. package_ok mp (end_slice mp b) (length b)" using ms by (auto simp: message_ok_def)
  have js': "\<forall>(j, i)\<in>set js. j < length ?bs \<and> i \<le> end_slice mp (?bs ! j)" using js by auto
  have number': "unat ?first + length ?bs \<le> 256" "length ?bs \<le> 128" using number by simp_all
  have fss': "\<forall>j<length ?bs. \<forall>i\<le>end_slice mp (?bs ! j). carries_slice mp ?s (?first + of_nat j)
      (end_slice mp (?bs ! j)) (?bs ! j) i (fss ! j ! i)"
    using fss(2) by simp
  note sent = message_arrivals [OF number' enc(3) ok picked_frames [OF fss' js']]
  have same: "completed (\<lambda>j. end_slice mp (?bs ! j)) (\<lambda>_. {}) js = completed ?k (\<lambda>_. {}) js"
    using js by (intro completed_cong) auto
  have "foldl (\<lambda>u b. g b u) u (map (\<lambda>j. ?bs ! j) (completed ?k (\<lambda>_. {}) js)) =
      foldl (\<lambda>u j. g (message_bytes (ms ! j)) u) u (completed ?k (\<lambda>_. {}) js)"
  proof -
    have "\<forall>j\<in>set (completed ?k (\<lambda>_. {}) js). j < length ms"
      using completed_subset [of ?k "\<lambda>_. {}" js] js by (auto dest!: subsetD)
    then show ?thesis by (simp add: foldl_map cong: foldl_cong)
  qed
  then show ?thesis
    using decode_delivers_mixture [OF mp sent(1-3), of g u] fss(1) unfolding sent(4) same by fastforce
qed

theorem cs_messages_roundtrip_witness:
  "\<exists>enc' fss T. write_messages (new_Cs_TxEncoder 8 2)
      [([(0, [1, 2, 3]), (1, [4]), (4, [5])], replicate 16 9), ([(0, [7])], replicate 8 0)] = Inr (enc', fss) \<and>
    cs_decode_frames \<lparr> transmission_unit = 8 \<rparr> (\<lambda>b u. Inr (u @ [b])) (new_RxCoordinator, [])
      (map (\<lambda>(j, i). fss ! j ! i) [(0, 1), (1, 0), (0, 1), (0, 0)]) = Inr (T, [[7], [1, 2, 3, 4, 5]])"
proof -
  let ?ms = "[([(0, [1, 2, 3]), (1, [4]), (4, [5])], replicate 16 9), ([(0, [7])], replicate 8 0)] :: written_message list"
    and ?js = "[(0, 1), (1, 0), (0, 1), (0, 0)] :: (nat \<times> nat) list"
  have enc: "enc_transmissionUnit (new_Cs_TxEncoder 8 2) = 8" "enc_senderId (new_Cs_TxEncoder 8 2) = 2"
      "enc_currentPackageId (new_Cs_TxEncoder 8 2) = 0"
    by (simp_all add: new_Cs_TxEncoder_def)
  have "{1} \<noteq> {..1 :: nat}" "{0, 1} = {..1 :: nat}" by (auto simp: atMost_Suc)
  then have "completed (\<lambda>j. end_slice 4 (message_bytes (?ms ! j))) (\<lambda>_. {}) ?js = [1, 0]"
    by (simp add: message_bytes_def end_slice_def insert_commute)
  moreover have "\<forall>m\<in>set ?ms. message_ok 8 4 m"
    by (simp add: message_ok_def message_bytes_def end_slice_def package_ok_def)
  ultimately show ?thesis
    using cs_messages_roundtrip [of 4 "new_Cs_TxEncoder 8 2" ?ms ?js "\<lambda>b u. u @ [b]" "[]"]
    by (simp add: enc wire_ok_def message_bytes_def end_slice_def)
qed

text \<open>C39: A client of the C# writer that asks for more room than the slice has left truncates its own
  message. \<open>GetSpan\<close> then sends the slice as it is, short and without the end mark, and a decoder
  takes it for a whole package: it hands the first part on as if it were the message, and what
  follows is never delivered.\<close>

theorem cs_large_hint_truncates:
  assumes "CreateWriter enc collect_frame rented = (s, enc')"
    and "mp = enc_transmissionUnit enc - 4" and "4 < enc_transmissionUnit enc"
    and "unat (enc_transmissionUnit enc) \<le> length rented" and "wire_ok mp (enc_senderId enc)"
    and "p1 \<noteq> []" and "length p1 < unat mp" and "int (unat mp) - int (length p1) < h"
    and "p2 \<noteq> []" and "length p2 < unat mp"
  shows "\<exists>s' frames T. write_message s [] [Call_GetSpan 0 p1, Call_Advance (int (length p1)),
      Call_GetSpan h p2, Call_Advance (int (length p2))] = Inr (s', frames) \<and>
    cs_decode_frames \<lparr> transmission_unit = enc_transmissionUnit enc \<rparr> (\<lambda>b seen. Inr (seen @ [b]))
      (new_RxCoordinator, []) frames = Inr (T, [p1])"
proof -
  let ?config = "\<lparr> transmission_unit = enc_transmissionUnit enc \<rparr>"
  obtain f1 f2 s' where sent: "write_message s [] [Call_GetSpan 0 p1, Call_Advance (int (length p1)),
        Call_GetSpan h p2, Call_Advance (int (length p2))] = Inr (s', [f1, f2])"
      "frame_carries mp (header_at mp (enc_senderId enc) (ucast (enc_currentPackageId enc + 1)) 0
        (of_nat (length p1)) False) p1 f1"
      "frame_carries mp (header_at mp (enc_senderId enc) (ucast (enc_currentPackageId enc + 1)) 1
        (of_nat (length p2)) True) p2 f2"
    using large_hint_frames [OF assms(1-4,6-10)] by blast
  have mp: "mp_max_payload ?config = mp" using assms(2) by (simp add: mp_max_payload_def MP_HEADER_SIZE_def)
  have "slots_idle new_RxCoordinator" by (simp add: slots_idle_def new_RxCoordinator_def)
  then obtain T where T: "slots_idle T"
      "Decode ?config new_RxCoordinator f1 [] (\<lambda>b seen. Inr (seen @ [b])) = Inr (T, [p1])"
    using decode_short_first [OF sent(2) mp assms(5-7), of new_RxCoordinator "[]" "\<lambda>b seen. Inr (seen @ [b])"]
    by auto
  obtain T' where T': "Decode ?config T f2 [p1] (\<lambda>b seen. Inr (seen @ [b])) = Inr (T', [p1])"
    using decode_later_slice [OF sent(3) mp assms(5,10) T(1), of "[p1]" "\<lambda>b seen. Inr (seen @ [b])"] ..
  have decoded: "cs_decode_frames ?config (\<lambda>b seen. Inr (seen @ [b])) (new_RxCoordinator, []) [f1, f2] = Inr (T', [p1])"
    by (simp only: cs_decode_frames_def foldE.simps prod.case T(2) T' bindE_Inr)
  show ?thesis by (intro exI conjI) (rule sent(1), rule decoded)
qed

theorem cs_large_hint_truncates_witness:
  "\<exists>s' frames T. write_message (fst (CreateWriter (new_Cs_TxEncoder 8 2) collect_frame (replicate 16 9))) []
      [Call_GetSpan 0 [1, 2, 3], Call_Advance 3, Call_GetSpan 2 [4, 5], Call_Advance 2] = Inr (s', frames) \<and>
    cs_decode_frames \<lparr> transmission_unit = 8 \<rparr> (\<lambda>b seen. Inr (seen @ [b])) (new_RxCoordinator, []) frames =
      Inr (T, [[1, 2, 3]])"
proof -
  obtain s enc' where s: "CreateWriter (new_Cs_TxEncoder 8 2) collect_frame (replicate 16 9) = (s, enc')"
    by (cases "CreateWriter (new_Cs_TxEncoder 8 2) collect_frame (replicate 16 9)")
  have enc: "enc_transmissionUnit (new_Cs_TxEncoder 8 2) = 8" "enc_senderId (new_Cs_TxEncoder 8 2) = 2"
    by (simp_all add: new_Cs_TxEncoder_def)
  show ?thesis
    using cs_large_hint_truncates [OF s, where mp = 4 and h = 2 and ?p1.0 = "[1, 2, 3]" and ?p2.0 = "[4, 5]"]
    by (simp add: enc s wire_ok_def)
qed

end
