(* ===== verification/Bindings.thy ===== *)
theory Bindings
  imports Embedded_Encode Cpp_Link Cs_Link
begin

text \<open>
  Senders of different bindings on one link: the embedded C encoder, the C++ encoder and the writer
  of C# each send a package, under sender numbers of their own, and a decoder of the C++ or of the
  C# binding receives the mixture.
\<close>

section \<open>Packages of different senders\<close>

text \<open>The frames \<open>fs\<close> are those of a package \<open>q\<close> with the given bytes.\<close>

definition package_sent :: "u16 \<Rightarrow> package_key \<Rightarrow> nat \<Rightarrow> u8 list \<Rightarrow> u8 list list \<Rightarrow> bool" where
  "package_sent mp q k bytes fs \<longleftrightarrow>
     package_ok mp k (length bytes) \<and> wire_ok mp (fst q) \<and>
     (\<forall>i\<le>k. carries_slice mp (fst q) (snd q) k bytes i (fs ! i))"

text \<open>What each encoder sends.\<close>

lemma embedded_sends:
  assumes "block_device inst mp eok block frames" and "eok eu"
    and "mp = mp_max_payload (enc_config inst)" and "4 < unat (transmission_unit (enc_config inst))"
    and "pb_encode fields1 message = (pieces, True)" and "list_all (\<lambda>d. length d < 65536) pieces"
    and "package_ok mp (end_slice mp (concat pieces)) (length (concat pieces))"
    and "wire_ok mp (enc_sender_id inst)"
  obtains eu' fs where "mp_pb_encode pb_encode inst eu fields1 message package = Inr (True, eu')"
    "frames eu' = frames eu @ fs"
    "package_sent mp (enc_sender_id inst, package) (end_slice mp (concat pieces)) (concat pieces) fs"
proof -
  have nonempty: "concat pieces \<noteq> []" using package_okD(4) [OF assms(7)] by auto
  obtain eu' fs where sent: "mp_pb_encode pb_encode inst eu fields1 message package = Inr (True, eu')"
      "frames eu' = frames eu @ fs" "package_frames mp (enc_sender_id inst) package (concat pieces) fs"
    using encode_package [where pb_encode = pb_encode and package = package,
        OF assms(1) [unfolded assms(3)] assms(2,4,5) nonempty assms(6)]
    by (auto simp: assms(3))
  have "package_sent mp (enc_sender_id inst, package) (end_slice mp (concat pieces)) (concat pieces) fs"
    using package_frames_carry(1) [OF assms(7) [unfolded end_slice_def] assms(8) sent(3)] assms(7,8)
    by (simp add: package_sent_def end_slice_def)
  with sent(1,2) show ?thesis by (rule that)
qed

lemma cpp_sends:
  assumes "core_next core = collect_frames" and "mp = core_tu core - 4" and "4 < core_tu core"
    and "wire_ok mp (core_sender_id core)" and "length buffer = unat (core_tu core)"
    and "serializes mp serialize bytes_of m"
  obtains core' fs where "TxEncoderCore_Push serialize core [] m buffer = Inr (True, core', fs)"
    "package_sent mp (core_sender_id core, current_package_id core) (last_slice mp (bytes_of m)) (bytes_of m) fs"
proof -
  obtain fs where fs: "TxEncoderCore_Push serialize core [] m buffer =
        Inr (True, core\<lparr> current_package_id := current_package_id core + 1 \<rparr>, fs)"
      "\<forall>i\<le>last_slice mp (bytes_of m). carries_slice mp (core_sender_id core) (current_package_id core)
        (last_slice mp (bytes_of m)) (bytes_of m) i (fs ! i)"
    using push_message [OF assms] by blast
  have "package_sent mp (core_sender_id core, current_package_id core) (last_slice mp (bytes_of m)) (bytes_of m) fs"
    using fs(2) assms(4,6) by (simp add: package_sent_def serializes_def)
  with fs(1) show ?thesis by (rule that)
qed

lemma cs_sends:
  assumes "CreateWriter enc collect_frame (snd m) = (s, enc')" and "mp = enc_transmissionUnit enc - 4"
    and "4 < enc_transmissionUnit enc" and "wire_ok mp (enc_senderId enc)"
    and "message_ok (enc_transmissionUnit enc) mp m"
  obtains s' fs where "write_message s [] (piece_calls (fst m)) = Inr (s', fs)"
    "package_sent mp (enc_senderId enc, ucast (enc_currentPackageId enc + 1))
      (end_slice mp (message_bytes m)) (message_bytes m) fs"
proof -
  let ?p = "ucast (enc_currentPackageId enc + 1) :: u8" and ?b = "message_bytes m"
  have m: "unat (enc_transmissionUnit enc) \<le> length (snd m)" "pieces_fit (unat mp) 0 (fst m)"
      "package_ok mp (length ?b div unat mp) (length ?b)"
    using assms(5) by (simp_all add: message_ok_def end_slice_def)
  obtain fs where fs: "package_frames mp (enc_senderId enc) ?p ?b fs"
      "bindE (write_message s [] (piece_calls (fst m))) (\<lambda>(s', w'). Inr w') = Inr fs"
    using writer_sends [OF assms(1-3) m(1,2) message_bytes_def m(3)] by (auto simp: collect_all)
  then obtain s' where "write_message s [] (piece_calls (fst m)) = Inr (s', fs)"
    by (auto simp: bindE_eq_Inr)
  moreover have "package_sent mp (enc_senderId enc, ?p) (end_slice mp ?b) ?b fs"
    using package_frames_carry(1) [OF m(3) assms(4) fs(1)] m(3) assms(4)
    by (simp add: package_sent_def end_slice_def)
  ultimately show ?thesis by (rule that)
qed

section \<open>Receiving the mixture\<close>

lemma mixture_arrives:
  assumes sent: "\<forall>j<n. package_sent mp (key j) (k j) (b j) (fss ! j)"
    and senders: "inj_on (\<lambda>j. fst (key j)) {..<n}"
    and js: "\<forall>(j, i)\<in>set js. j < n \<and> i \<le> k j"
  obtains content where "keys_ok mp (key ` {..<n}) content"
    "list_all2 (arrival_frame mp content) (map (apfst key) js) (map (\<lambda>(j, i). fss ! j ! i) js)"
    "fst ` set (map (apfst key) js) \<subseteq> key ` {..<n}"
    "arrivals_run content (\<lambda>_. {}) (map (apfst key) js) = map b (completed k (\<lambda>_. {}) js)"
proof -
  have inj: "inj_on key {..<n}" using senders by (auto simp: inj_on_def)
  define content where "content q = (let j = the_inv_into {..<n} key q in (k j, b j))" for q
  have at: "\<forall>j<n. content (key j) = (k j, b j)"
    using the_inv_into_f_f [OF inj] by (simp add: content_def Let_def)
  have fs: "list_all2 (\<lambda>(j, i) f. j < n \<and> i \<le> k j \<and>
      carries_slice mp (fst (key j)) (snd (key j)) (k j) (b j) i f) js (map (\<lambda>(j, i). fss ! j ! i) js)"
    using sent js by (auto simp: list_all2_map2 list_all2_same package_sent_def)
  have "keys_ok mp (key ` {..<n}) content"
    unfolding keys_ok_def
  proof (intro conjI ballI impI)
    fix q r assume "q \<in> key ` {..<n}" "r \<in> key ` {..<n}" "fst q = fst r"
    then have "q = r" using inj_onD [OF senders] by blast
    then show "unat (snd r) \<le> unat (snd q) + 127" by simp
  qed (use sent at in \<open>auto simp: package_sent_def\<close>)
  from that [OF this numbered_arrivals(1-3) [OF inj at fs]] show ?thesis .
qed

lemma mixture_to_cpp:
  assumes "new_RxDecoder tu observer parse metas u = (d, w)" and "length metas = 8"
    and "mp = mp_max_payload (RxDecoder_config d)"
    and "\<forall>j<n. package_sent mp (key j) (k j) (b j) (fss ! j)" and "inj_on (\<lambda>j. fst (key j)) {..<n}"
    and "\<forall>(j, i)\<in>set js. j < n \<and> i \<le> k j"
  shows "bindE (push_blocks d w (map (\<lambda>(j, i). fss ! j ! i) js)) (\<lambda>w'. Inr (observed w')) =
    deliver_all (deliver_message d) u (map b (completed k (\<lambda>_. {}) js))"
proof -
  obtain content where *: "keys_ok mp (key ` {..<n}) content"
      "list_all2 (arrival_frame mp content) (map (apfst key) js) (map (\<lambda>(j, i). fss ! j ! i) js)"
      "fst ` set (map (apfst key) js) \<subseteq> key ` {..<n}"
      "arrivals_run content (\<lambda>_. {}) (map (apfst key) js) = map b (completed k (\<lambda>_. {}) js)"
    by (rule mixture_arrives [OF assms(4-6)])
  show ?thesis
    using cpp_rx.feed_arrivals [OF *(2) [unfolded assms(3)] *(3) new_decoder_holds [OF assms(2,1) *(1) [unfolded assms(3)]]]
    by (simp add: push_blocks_def new_decoder_slots(2) [OF assms(2,1)] *(4))
qed

lemma mixture_to_cs:
  fixes g :: "u8 list \<Rightarrow> 'u \<Rightarrow> 'u"
  assumes "mp = mp_max_payload config"
    and "\<forall>j<n. package_sent mp (key j) (k j) (b j) (fss ! j)" and "inj_on (\<lambda>j. fst (key j)) {..<n}"
    and "\<forall>(j, i)\<in>set js. j < n \<and> i \<le> k j"
  shows "\<exists>T. cs_decode_frames config (\<lambda>b u. Inr (g b u)) (new_RxCoordinator, u) (map (\<lambda>(j, i). fss ! j ! i) js) =
    Inr (T, foldl (\<lambda>u b. g b u) u (map b (completed k (\<lambda>_. {}) js)))"
proof -
  obtain content where *: "keys_ok mp (key ` {..<n}) content"
      "list_all2 (arrival_frame mp content) (map (apfst key) js) (map (\<lambda>(j, i). fss ! j ! i) js)"
      "fst ` set (map (apfst key) js) \<subseteq> key ` {..<n}"
      "arrivals_run content (\<lambda>_. {}) (map (apfst key) js) = map b (completed k (\<lambda>_. {}) js)"
    by (rule mixture_arrives [OF assms(2-4)])
  show ?thesis using decode_delivers_mixture [OF assms(1) *(1-3), of g u] by (simp only: *(4))
qed

section \<open>Properties\<close>

text \<open>C6: The bindings of all languages work on one link. The embedded C encoder, the C++ encoder and a C#
  writer of the same unit each send a message, under three sender numbers. Their frames, mixed in any
  way, repeated or lost, give a new C++ decoder and a new C# decoder exactly the messages all of whose
  slices have come, in the order in which the last missing ones came.\<close>

theorem bindings_interoperate:
  fixes g :: "u8 list \<Rightarrow> 'v \<Rightarrow> 'v"
  assumes unit: "mp = tu - 4" "4 < tu"
    and embedded: "block_device einst mp eok block frames" "eok eu" "enc_config einst = \<lparr> transmission_unit = tu \<rparr>"
      "pb_encode fields1 m1 = (pieces, True)" "list_all (\<lambda>d. length d < 65536) pieces"
      "package_ok mp (end_slice mp (concat pieces)) (length (concat pieces))"
    and cpp: "core_next core = collect_frames" "core_tu core = tu" "length buffer = unat tu"
      "serializes mp serialize bytes_of m2"
    and cs: "enc_transmissionUnit enc = tu" "CreateWriter enc collect_frame (snd m3) = (s, enc')" "message_ok tu mp m3"
    and senders: "wire_ok mp (enc_sender_id einst)" "wire_ok mp (core_sender_id core)" "wire_ok mp (enc_senderId enc)"
      "distinct [enc_sender_id einst, core_sender_id core, enc_senderId enc]"
    and decoder: "new_RxDecoder (int (unat tu)) observer parse metas u = (d, w)" "length metas = 8"
    and js: "\<forall>(j, i)\<in>set js. j < 3 \<and> i \<le> k j"
    and k: "k = (!) [end_slice mp (concat pieces), last_slice mp (bytes_of m2), end_slice mp (message_bytes m3)]"
    and b: "b = (!) [concat pieces, bytes_of m2, message_bytes m3]"
  shows "\<exists>eu' fs1 core' fs2 s' fs3 T.
    mp_pb_encode pb_encode einst eu fields1 m1 package = Inr (True, eu') \<and> frames eu' = frames eu @ fs1 \<and>
    TxEncoderCore_Push serialize core [] m2 buffer = Inr (True, core', fs2) \<and>
    write_message s [] (piece_calls (fst m3)) = Inr (s', fs3) \<and>
    bindE (push_blocks d w (map (\<lambda>(j, i). [fs1, fs2, fs3] ! j ! i) js)) (\<lambda>w'. Inr (observed w')) =
      deliver_all (deliver_message d) u (map b (completed k (\<lambda>_. {}) js)) \<and>
    cs_decode_frames \<lparr> transmission_unit = tu \<rparr> (\<lambda>b v. Inr (g b v)) (new_RxCoordinator, v)
        (map (\<lambda>(j, i). [fs1, fs2, fs3] ! j ! i) js) =
      Inr (T, foldl (\<lambda>v b. g b v) v (map b (completed k (\<lambda>_. {}) js)))"
proof -
  have mp: "mp = mp_max_payload \<lparr> transmission_unit = tu \<rparr>" "mp = mp_max_payload (enc_config einst)"
      "mp = mp_max_payload (RxDecoder_config d)"
    using unit(1) embedded(3) decoder(1) by (auto simp: new_RxDecoder_def mp_max_payload_def MP_HEADER_SIZE_def)
  have big: "4 < unat (transmission_unit (enc_config einst))"
    using unit(2) embedded(3) by (simp add: word_less_nat_alt)
  obtain eu' fs1 where one: "mp_pb_encode pb_encode einst eu fields1 m1 package = Inr (True, eu')"
      "frames eu' = frames eu @ fs1"
      "package_sent mp (enc_sender_id einst, package) (end_slice mp (concat pieces)) (concat pieces) fs1"
    by (rule embedded_sends [where package = package and eok = eok and eu = eu and frames = frames and pb_encode = pb_encode and ?fields1.0 = fields1, OF embedded(1,2) mp(2) big embedded(4-6) senders(1)])
  obtain core' fs2 where two: "TxEncoderCore_Push serialize core [] m2 buffer = Inr (True, core', fs2)"
      "package_sent mp (core_sender_id core, current_package_id core) (last_slice mp (bytes_of m2)) (bytes_of m2) fs2"
    using cpp_sends [OF cpp(1) _ _ senders(2) _ cpp(4), of buffer] unit cpp(2,3) by auto
  obtain s' fs3 where three: "write_message s [] (piece_calls (fst m3)) = Inr (s', fs3)"
      "package_sent mp (enc_senderId enc, ucast (enc_currentPackageId enc + 1))
        (end_slice mp (message_bytes m3)) (message_bytes m3) fs3"
    using cs_sends [OF cs(2) _ _ senders(3)] unit cs(1,3) by auto
  let ?key = "(!) [(enc_sender_id einst, package), (core_sender_id core, current_package_id core),
    (enc_senderId enc, ucast (enc_currentPackageId enc + 1))]"
  have sent: "\<forall>j<3. package_sent mp (?key j) (k j) (b j) ([fs1, fs2, fs3] ! j)"
    using one(3) two(2) three(2) by (simp add: k b numeral_3_eq_3 less_Suc_eq)
  have inj: "inj_on (\<lambda>j. fst (?key j)) {..<3}"
    using senders(4) by (auto simp: inj_on_def numeral_3_eq_3 less_Suc_eq)
  show ?thesis
    using one(1,2) two(1) three(1) mixture_to_cpp [OF decoder mp(3) sent inj js]
      mixture_to_cs [OF mp(1) sent inj js, of g v] by blast
qed

theorem bindings_interoperate_witness:
  "\<exists>eu' fs1 core' fs2 s' fs3 T.
    mp_pb_encode (\<lambda>(f :: unit) m. ([[of_nat (length m)], m], True)) (memory_device 8 3) (replicate 8 0, []) ()
      [1, 2, 3, 4, 5] 9 = Inr (True, eu') \<and> snd eu' = [] @ fs1 \<and>
    TxEncoderCore_Push (\<lambda>m n. (zc_calls n m, True)) (new_TxEncoderCore 8 2 collect_frames) [] [7]
      (replicate 8 9) = Inr (True, core', fs2) \<and>
    write_message (fst (CreateWriter (new_Cs_TxEncoder 8 4) collect_frame (replicate 16 9))) []
      (piece_calls [(0, [6])]) = Inr (s', fs3) \<and>
    bindE (push_blocks (fst example_decoder) (snd example_decoder)
        (map (\<lambda>(j, i). [fs1, fs2, fs3] ! j ! i) [(0, 1), (2, 0), (1, 0), (0, 0)])) (\<lambda>w'. Inr (observed w')) =
      Inr [[6], [7], [5, 1, 2, 3, 4, 5]] \<and>
    cs_decode_frames \<lparr> transmission_unit = 8 \<rparr> (\<lambda>b v. Inr (v @ [b])) (new_RxCoordinator, [])
        (map (\<lambda>(j, i). [fs1, fs2, fs3] ! j ! i) [(0, 1), (2, 0), (1, 0), (0, 0)]) =
      Inr (T, [[6], [7], [5, 1, 2, 3, 4, 5]])"
proof -
  let ?ps = "[[5], [1, 2, 3, 4, 5]] :: u8 list list" and ?enc = "memory_device 8 3"
    and ?core = "new_TxEncoderCore 8 2 collect_frames" and ?cs = "new_Cs_TxEncoder 8 4"
    and ?m3 = "([(0, [6])], replicate 16 9) :: written_message"
    and ?js = "[(0, 1), (2, 0), (1, 0), (0, 0)] :: (nat \<times> nat) list"
  let ?k = "(!) [end_slice 4 (concat ?ps), last_slice 4 (id [7]), end_slice 4 (message_bytes ?m3)]"
    and ?b = "(!) [concat ?ps, id [7], message_bytes ?m3]"
  have dev: "block_device ?enc 4 (\<lambda>u. length (fst u) = 8) fst snd"
    using memory_device_ok [of 8 3 4] by simp
  have enc: "enc_config ?enc = \<lparr> transmission_unit = 8 \<rparr>" "enc_sender_id ?enc = 3"
    by (simp_all add: memory_device_def)
  have core: "core_tu ?core = 8" "core_sender_id ?core = 2" "core_next ?core = collect_frames"
    by (simp_all add: new_TxEncoderCore_def)
  have cs: "enc_transmissionUnit ?cs = 8" "enc_senderId ?cs = 4" by (simp_all add: new_Cs_TxEncoder_def)
  obtain s enc' where s: "CreateWriter ?cs collect_frame (replicate 16 9) = (s, enc')"
    by (cases "CreateWriter ?cs collect_frame (replicate 16 9)")
  have bytes: "message_bytes ?m3 = [6]" by (simp add: message_bytes_def)
  have k: "end_slice 4 [5, 1, 2, 3, 4, 5] = 1" "last_slice 4 [7] = 0" "end_slice 4 [6] = 0"
    by (simp_all add: end_slice_def last_slice_def)
  have "{1} \<noteq> {..1 :: nat}" "{0, 1} = {..1 :: nat}" by (auto simp: atMost_Suc)
  then have run: "completed ?k (\<lambda>_. {}) ?js = [2, 1, 0]" by (simp add: k bytes)
  have js: "\<forall>(j, i)\<in>set ?js. j < 3 \<and> i \<le> ?k j" by (simp add: k bytes)
  have unit: "(4 :: u16) = 8 - 4" "(4 :: u16) < 8" "length (fst (replicate 8 (0 :: u8), [] :: u8 list list)) = 8"
    by simp_all
  have pieces: "((\<lambda>(f :: unit) m. ([[of_nat (length m)], m], True)) () [1, 2, 3, 4, 5] :: u8 list list \<times> bool) = (?ps, True)"
      "list_all (\<lambda>d. length d < 65536) ?ps" "package_ok 4 (end_slice 4 (concat ?ps)) (length (concat ?ps))"
    by (simp_all add: k package_ok_def)
  have ser: "length (replicate 8 (9 :: u8)) = unat (8 :: u16)" "serializes 4 (\<lambda>m n. (zc_calls n m, True)) id [7]"
    by (simp_all add: serializes_def k package_ok_def)
  have cs3: "CreateWriter ?cs collect_frame (snd ?m3) = (s, enc')" "message_ok 8 4 ?m3"
    using s by (simp_all add: message_ok_def bytes k package_ok_def)
  have wire: "wire_ok 4 (enc_sender_id ?enc)" "wire_ok 4 (core_sender_id ?core)" "wire_ok 4 (enc_senderId ?cs)"
      "distinct [enc_sender_id ?enc, core_sender_id ?core, enc_senderId ?cs]"
    by (simp_all add: enc core cs wire_ok_def)
  have new: "new_RxDecoder (int (unat (8 :: u16))) (\<lambda>msg seen. Inr (seen @ [msg])) Some
      (replicate 8 \<lparr> meta_pkg = 200, meta_gen = 3 \<rparr>) [] = (fst example_decoder, snd example_decoder)"
    using example_decoder_new by simp
  have collect: "deliver_message (fst example_decoder) b u = Inr (u @ [b])" for b u
    by (simp add: deliver_message_def) (simp add: example_decoder_def new_RxDecoder_def)
  show ?thesis
    using bindings_interoperate [where package = 9 and g = "\<lambda>b v. v @ [b]" and v = "[]"
        and pb_encode = "\<lambda>(f :: unit) m. ([[of_nat (length m)], m], True)" and ?m1.0 = "[1, 2, 3, 4, 5]"
        and eu = "(replicate 8 0, [])" and eok = "\<lambda>u. length (fst u) = 8" and frames = snd and einst = ?enc
        and ?m2.0 = "[7]" and ?m3.0 = ?m3 and bytes_of = id and serialize = "\<lambda>m n. (zc_calls n m, True)",
        OF unit(1,2) dev unit(3) enc(1) pieces core(3,1) ser cs(1) cs3 wire new _ js refl refl] s
    unfolding run by (simp add: bytes collect)
qed

end
