(* ===== verification/Exceptions.thy ===== *)
theory Exceptions
  imports Cs_Rx
begin

text \<open>
  Exceptions of the client. The observer of \<^bold>\<open>customdata-protobuf-rx.cpp\<close> and the callback of
  \<^bold>\<open>RxDecoder.cs\<close> are called in the middle of a block, and an exception leaves the decoder with what
  it had stored until then: the slot keeps the state of a complete package, which is only emptied
  behind the call. The theories of the decoders treat an exception as a fault that ends the run; here
  the caller catches it and pushes on.
\<close>

section \<open>Ways to end\<close>

text \<open>A call returns or throws, and either way leaves a state behind.\<close>

datatype 'w ending = Returned 'w | Thrown 'w

fun left_behind :: "'w ending \<Rightarrow> 'w" where
  "left_behind (Returned w) = w"
| "left_behind (Thrown w) = w"

text \<open>The ending as a result, with a fault in place of the exception.\<close>

fun ending_res :: "'w ending \<Rightarrow> 'w res" where
  "ending_res (Returned w) = Inr w"
| "ending_res (Thrown w) = Inl Io_Error"

section \<open>The decoders\<close>

definition parse_ending ::
    "('m, 'u) RxDecoder \<Rightarrow> ('m \<Rightarrow> 'u \<Rightarrow> 'u ending) \<Rightarrow> u8 list \<Rightarrow> 'u \<Rightarrow> 'u ending" where
  "parse_ending d observer bytes u =
     (case RxDecoder_parse d bytes of None \<Rightarrow> Returned u | Some msg \<Rightarrow> observer msg u)"

definition RxDecoder_Push_ending ::
    "('m, 'u) RxDecoder \<Rightarrow> ('m \<Rightarrow> 'u \<Rightarrow> 'u ending) \<Rightarrow> 'u decoder_world \<Rightarrow> u8 list \<Rightarrow>
      'u decoder_world ending res" where
  "RxDecoder_Push_ending d observer w block =
     (if length block < MP_HEADER_SIZE then Inr (Returned w)
      else
        let hdr = mp_header_unpack (MP_ARRAY_TO_PACKED_HEADER block);
            max_payload = mp_max_payload (RxDecoder_config d);
            payload_size = (of_nat (min (unat (slice_payload_size hdr))
              (length block - MP_HEADER_SIZE)) :: u16);
            payload = take (unat payload_size) (drop MP_HEADER_SIZE block);
            coord = mp_rx_header_to_coordinate (RxDecoder_config d) hdr;
            table1 = gc_hook (coordinator_table w) (coord_sender_id coord) (coord_package_id coord)
        in case get_state table1 coord of (state, table2) \<Rightarrow>
          bindE (mp_rx_calc_slice_step state (slice_serial hdr) payload_size max_payload
              (eop hdr \<noteq> 0)) (\<lambda>inst.
            if inst_event inst = MP_RX_STREAM_DUPLICATE
            then Inr (Returned (w\<lparr> coordinator_table := table2 \<rparr>))
            else
              let table3 = (if payload_size > 0 then put_payload table2 coord payload else table2);
                  table4 = set_state table3 coord (next_state inst)
              in if inst_event inst = MP_RX_STREAM_COMPLETE
              then
                let normalized_coord = coord\<lparr> coord_offset := 0 \<rparr>;
                    end_at = unat (termination_at (next_state inst))
                in bindE (get_payload table4 normalized_coord) (\<lambda>(payload_view, table5).
                  if length payload_view < end_at then Inl Out_Of_Bounds
                  else
                    case parse_ending d observer (take end_at payload_view) (observed w) of
                      Returned u \<Rightarrow>
                        Inr (Returned (w\<lparr> coordinator_table := set_state table5 normalized_coord zero_state,
                          arena_messages := Suc (arena_messages w), observed := u \<rparr>))
                    | Thrown u \<Rightarrow>
                        Inr (Thrown (w\<lparr> coordinator_table := table5,
                          arena_messages := Suc (arena_messages w), observed := u \<rparr>)))
              else Inr (Returned (w\<lparr> coordinator_table := table4 \<rparr>))))"

definition Decode_ending ::
    "mp_config \<Rightarrow> RxCoordinator \<Rightarrow> u8 list \<Rightarrow> 'u \<Rightarrow> (u8 list \<Rightarrow> 'u \<Rightarrow> 'u ending) \<Rightarrow>
      (RxCoordinator \<times> 'u) ending res" where
  "Decode_ending config w frame state callback =
     bindE (PackedHeaderFromSpan frame) (\<lambda>packed.
     let header = mp_header_unpack packed;
         maxPayload = mp_max_payload config;
         payload = drop MP_HEADER_SIZE frame;
         payloadSize = min (slice_payload_size header) (of_nat (length payload));
         coord = mp_rx_header_to_coordinate config header;
         w1 = GcHook w (coord_sender_id coord) (coord_package_id coord);
         slot = slot_ref w1 coord
     in bindE (mp_rx_calc_slice_step (Cs_State slot) (slice_serial header) payloadSize maxPayload
         (eop header \<noteq> 0)) (\<lambda>step.
       if inst_event step = MP_RX_STREAM_DUPLICATE then Inr (Returned (slot_assign w1 coord slot, state))
       else
         bindE (copy_payload
             (EnsurePayloadCapacity slot (unat (coord_offset coord) + unat payloadSize))
             (unat (coord_offset coord)) (take (unat payloadSize) payload)) (\<lambda>slot1.
         let slot2 = slot1\<lparr> Cs_State := next_state step \<rparr>
         in if inst_event step = MP_RX_STREAM_COMPLETE
         then
           bindE (mem_read (payload_span slot2) 0 (unat (termination_at (next_state step)))) (\<lambda>span.
           case callback span state of
             Returned state' \<Rightarrow> Inr (Returned (slot_assign w1 coord (slot2\<lparr> Cs_State := zero_state \<rparr>), state'))
           | Thrown state' \<Rightarrow> Inr (Thrown (slot_assign w1 coord slot2, state')))
         else Inr (Returned (slot_assign w1 coord slot2, state)))))"

text \<open>The caller catches every exception and goes on with the next block.\<close>

definition push_catching ::
    "('m, 'u) RxDecoder \<Rightarrow> ('m \<Rightarrow> 'u \<Rightarrow> 'u ending) \<Rightarrow> 'u decoder_world \<Rightarrow> u8 list list \<Rightarrow>
      'u decoder_world res" where
  "push_catching d observer =
     foldE (\<lambda>w f. bindE (RxDecoder_Push_ending d observer w f) (\<lambda>e. Inr (left_behind e)))"

definition decode_catching ::
    "mp_config \<Rightarrow> (u8 list \<Rightarrow> 'u \<Rightarrow> 'u ending) \<Rightarrow> RxCoordinator \<times> 'u \<Rightarrow> u8 list list \<Rightarrow>
      (RxCoordinator \<times> 'u) res" where
  "decode_catching config callback =
     foldE (\<lambda>(w, u) f. bindE (Decode_ending config w f u callback) (\<lambda>e. Inr (left_behind e)))"

section \<open>Without the state behind an exception\<close>

lemma bindE_branches:
  "bindE (if c then x else y) f = (if c then bindE x f else bindE y f)"
  "bindE (case e of Returned u \<Rightarrow> F u | Thrown u \<Rightarrow> G u) f =
    (case e of Returned u \<Rightarrow> bindE (F u) f | Thrown u \<Rightarrow> bindE (G u) f)"
  "bindE (ending_res e') g = (case e' of Returned u \<Rightarrow> g u | Thrown u \<Rightarrow> Inl Io_Error)"
  by (simp_all split: ending.split)

text \<open>
  The functions of the other theories are these, with a fault in place of what an exception leaves
  behind.
\<close>

lemma push_ending_res:
  assumes "\<And>m u. RxDecoder_observer d m u = ending_res (observer m u)"
  shows "bindE (RxDecoder_Push_ending d observer w block) ending_res = RxDecoder_Push d w block"
proof -
  have deliver: "deliver_message d b u = ending_res (parse_ending d observer b u)" for b u
    by (simp add: deliver_message_def parse_ending_def assms split: option.split)
  show ?thesis
    unfolding RxDecoder_Push_ending_def RxDecoder_Push_def Let_def case_prod_unfold bindE_assoc bindE_branches
      bindE_Inr bindE_Inl ending_res.simps deliver
    by (intro bindE_cong refl if_cong)
qed

lemma decode_ending_res:
  "bindE (Decode_ending config w frame state callback) ending_res =
    Decode config w frame state (\<lambda>b u. ending_res (callback b u))"
  unfolding Decode_ending_def Decode_def Let_def bindE_assoc bindE_branches bindE_Inr ending_res.simps
  by (intro bindE_cong refl if_cong)

section \<open>The abstract receiver\<close>

text \<open>
  A package whose delivery threw is closed: its slices are known, and those that come again are
  dropped. One whose delivery returned is forgotten.
\<close>

fun catching_run ::
    "contents \<Rightarrow> (u8 list \<Rightarrow> 'u \<Rightarrow> 'u ending) \<Rightarrow> (package_key \<Rightarrow> nat set) \<Rightarrow> 'u \<Rightarrow>
      (package_key \<times> nat) list \<Rightarrow> 'u" where
  "catching_run content deliver S u [] = u"
| "catching_run content deliver S u ((q, i) # es) =
     (if i \<in> S q then catching_run content deliver S u es
      else if insert i (S q) = {..fst (content q)} then
        (case deliver (snd (content q)) u of
           Returned u' \<Rightarrow> catching_run content deliver (S(q := {})) u' es
         | Thrown u' \<Rightarrow> catching_run content deliver (S(q := insert i (S q))) u' es)
      else catching_run content deliver (S(q := insert i (S q))) u es)"

section \<open>The C++ decoder\<close>

lemma push_ending_block:
  fixes d :: "('m, 'u) RxDecoder"
  assumes wf: "table_wf (coordinator_table w)" and size: "MP_HEADER_SIZE \<le> length block"
  defines "c \<equiv> mp_rx_header_to_coordinate (RxDecoder_config d) (block_header block)"
  defines "T1 \<equiv> gc_hook (coordinator_table w) (coord_sender_id c) (coord_package_id c)"
  defines "slot \<equiv> slot_view T1 c"
  shows "RxDecoder_Push_ending d observer w block =
    bindE (mp_rx_calc_slice_step (slot_state slot) (slice_serial (block_header block))
        (of_nat (length (block_payload block))) (mp_max_payload (RxDecoder_config d))
        (eop (block_header block) \<noteq> 0)) (\<lambda>inst.
      let stored = slot_store (coord_offset c) (block_payload block) (next_state inst) slot
      in if inst_event inst = MP_RX_STREAM_DUPLICATE
      then Inr (Returned (w\<lparr> coordinator_table := slot_put T1 c slot \<rparr>))
      else if inst_event inst = MP_RX_STREAM_COMPLETE
      then if length (slot_data stored) < unat (termination_at (next_state inst)) then Inl Out_Of_Bounds
        else (case parse_ending d observer (take (unat (termination_at (next_state inst))) (slot_data stored))
            (observed w) of
          Returned u \<Rightarrow> Inr (Returned (w\<lparr> coordinator_table := slot_put T1 c (stored\<lparr> slot_state := zero_state \<rparr>),
            arena_messages := Suc (arena_messages w), observed := u \<rparr>))
        | Thrown u \<Rightarrow> Inr (Thrown (w\<lparr> coordinator_table := slot_put T1 c stored,
            arena_messages := Suc (arena_messages w), observed := u \<rparr>)))
      else Inr (Returned (w\<lparr> coordinator_table := slot_put T1 c stored \<rparr>)))"
proof -
  note steps = push_steps [OF wf c_def [THEN meta_eq_to_obj_eq], folded T1_def, folded slot_def]
  have short: "\<not> length block < MP_HEADER_SIZE" using size by simp
  show ?thesis
    unfolding RxDecoder_Push_ending_def Let_def block_header_def [symmetric] block_payload_size(1,2)
      c_def [symmetric] T1_def [symmetric] steps(1) prod.case steps(2,3)
    using short by (simp only: if_False bindE_Inr prod.case steps(4) slot_store_simps(4))
qed

lemma push_ending_frame:
  assumes keys: "keys_ok mp keys content" and holds: "table_holds mp keys content (coordinator_table w) S"
    and q: "q \<in> keys" and f: "arrival_frame mp content (q, i) f"
    and mp: "mp_max_payload (RxDecoder_config d) = mp"
  defines "full \<equiv> insert i (S q) = {..fst (content q)}"
  shows "\<exists>T T'. RxDecoder_Push_ending d observer w f =
      (if i \<notin> S q \<and> full then
         (case parse_ending d observer (snd (content q)) (observed w) of
            Returned u \<Rightarrow> Inr (Returned (w\<lparr> coordinator_table := T,
              arena_messages := Suc (arena_messages w), observed := u \<rparr>))
          | Thrown u \<Rightarrow> Inr (Thrown (w\<lparr> coordinator_table := T',
              arena_messages := Suc (arena_messages w), observed := u \<rparr>)))
       else Inr (Returned (w\<lparr> coordinator_table := T' \<rparr>))) \<and>
    (i \<notin> S q \<longrightarrow> full \<longrightarrow> table_holds mp keys content T (S(q := {}))) \<and>
    table_holds mp keys content T' (S(q := insert i (S q)))"
proof -
  have wf: "table_wf (coordinator_table w)" using holds by (simp add: table_holds_def)
  let ?T1 = "gc_hook (coordinator_table w) (fst q) (snd q)"
  let ?slot = "slot_view ?T1 (key_coord q)"
  let ?c = "mp_rx_header_to_coordinate (RxDecoder_config d) (block_header f)" and ?d = "block_payload f"
  obtain st' where facts: "MP_HEADER_SIZE \<le> length f"
      "gc_hook (coordinator_table w) (coord_sender_id ?c) (coord_package_id ?c) = ?T1" "slot_view ?T1 ?c = ?slot"
      "\<And>sl. slot_put ?T1 ?c sl = slot_put ?T1 (key_coord q) sl"
      "mp_rx_calc_slice_step (slot_state ?slot) (slice_serial (block_header f)) (of_nat (length ?d)) mp
        (eop (block_header f) \<noteq> 0) =
      Inr \<lparr> inst_event = (if i \<in> S q then MP_RX_STREAM_DUPLICATE else slice_event (fst (content q)) (S q) i),
        next_state = st' \<rparr>"
      "package_view mp (fst (content q)) (length (snd (content q))) (insert i (S q)) st'"
      "i \<notin> S q \<Longrightarrow> slices_held mp (fst (content q)) (snd (content q)) (insert i (S q))
        (slot_data (slot_store (coord_offset ?c) ?d st' ?slot))"
      "i \<notin> S q \<Longrightarrow> insert i (S q) = {..fst (content q)} \<Longrightarrow>
      \<not> length (slot_data (slot_store (coord_offset ?c) ?d st' ?slot)) < unat (termination_at st') \<and>
      take (unat (termination_at st')) (slot_data (slot_store (coord_offset ?c) ?d st' ?slot)) = snd (content q)"
    by (rule frame_facts [OF keys holds q f mp]) (rule that; assumption)
  let ?stored = "\<lambda>st. slot_store (coord_offset ?c) ?d st ?slot"
  have held: "package_held mp (content q) (S q) ?slot" by (rule held_after_hook [OF keys holds q])
  define sl where "sl = (if i \<in> S q then ?slot else ?stored st')"
  have "package_held mp (content q) (insert i (S q)) sl"
    using held facts(6,7) by (auto simp: sl_def package_held_def insert_absorb)
  moreover have gen: "slot_gen sl = slot_gen ?slot" "slot_gen (?stored zero_state) = slot_gen ?slot"
    by (simp_all add: sl_def)
  moreover have "package_held mp (content q) {} (?stored zero_state)"
    using keys q by (intro package_held_empty) (simp_all add: keys_ok_def)
  moreover have "slot_gen ?slot = meta_gen (sender_metas ?T1 ! unat (fst q))" by simp
  ultimately have "table_holds mp keys content (slot_put ?T1 (key_coord q) sl) (S(q := insert i (S q)))"
      "table_holds mp keys content (slot_put ?T1 (key_coord q) (?stored zero_state)) (S(q := {}))"
    using table_holds_store [OF keys holds q] by metis+
  moreover have "RxDecoder_Push_ending d observer w f =
      (if i \<notin> S q \<and> full then
         (case parse_ending d observer (snd (content q)) (observed w) of
            Returned u \<Rightarrow> Inr (Returned (w\<lparr> coordinator_table := slot_put ?T1 (key_coord q) (?stored zero_state),
              arena_messages := Suc (arena_messages w), observed := u \<rparr>))
          | Thrown u \<Rightarrow> Inr (Thrown (w\<lparr> coordinator_table := slot_put ?T1 (key_coord q) sl,
              arena_messages := Suc (arena_messages w), observed := u \<rparr>)))
       else Inr (Returned (w\<lparr> coordinator_table := slot_put ?T1 (key_coord q) sl \<rparr>)))"
    using facts(8)
    by (simp add: push_ending_block [OF wf facts(1)] facts(2-5) mp Let_def slice_event_def sl_def full_def cong: ending.case_cong
        del: slot_store_simps(3))
  ultimately show ?thesis by blast
qed

lemma push_catching_run:
  assumes mp: "mp_max_payload (RxDecoder_config d) = mp" and keys: "keys_ok mp keys content"
    and "list_all2 (arrival_frame mp content) es fs" and "fst ` set es \<subseteq> keys"
    and "table_holds mp keys content (coordinator_table w) S"
  shows "bindE (push_catching d observer w fs) (\<lambda>w'. Inr (observed w')) =
    Inr (catching_run content (parse_ending d observer) S (observed w) es)"
  using assms(3-)
proof (induction es fs arbitrary: w S rule: list_all2_induct)
  case Nil
  then show ?case by (simp add: push_catching_def)
next
  case (Cons e es f fs)
  obtain q i where e: "e = (q, i)" by (cases e)
  then have q: "q \<in> keys" "arrival_frame mp content (q, i) f" "fst ` set es \<subseteq> keys"
    using Cons.prems(1) Cons.hyps(1) by auto
  obtain T T' where one: "RxDecoder_Push_ending d observer w f =
      (if i \<notin> S q \<and> insert i (S q) = {..fst (content q)} then
         (case parse_ending d observer (snd (content q)) (observed w) of
            Returned u \<Rightarrow> Inr (Returned (w\<lparr> coordinator_table := T,
              arena_messages := Suc (arena_messages w), observed := u \<rparr>))
          | Thrown u \<Rightarrow> Inr (Thrown (w\<lparr> coordinator_table := T',
              arena_messages := Suc (arena_messages w), observed := u \<rparr>)))
       else Inr (Returned (w\<lparr> coordinator_table := T' \<rparr>)))"
      "i \<notin> S q \<Longrightarrow> insert i (S q) = {..fst (content q)} \<Longrightarrow> table_holds mp keys content T (S(q := {}))"
      "table_holds mp keys content T' (S(q := insert i (S q)))"
    using push_ending_frame [OF keys Cons.prems(2) q(1,2) mp] by metis
  have step: "bindE (push_catching d observer w (f # fs)) (\<lambda>w'. Inr (observed w')) =
      bindE (RxDecoder_Push_ending d observer w f) (\<lambda>e. bindE (push_catching d observer (left_behind e) fs)
        (\<lambda>w'. Inr (observed w')))"
    by (simp add: push_catching_def bindE_assoc)
  note IH = Cons.IH [OF q(3)]
  show ?case
  proof (cases "i \<notin> S q \<and> insert i (S q) = {..fst (content q)}")
    case True
    then show ?thesis
      unfolding step using one(1) IH [of "w\<lparr> coordinator_table := T, arena_messages := a, observed := u \<rparr>" for a u] one(2)
        IH [of "w\<lparr> coordinator_table := T', arena_messages := a, observed := u \<rparr>" for a u] one(3) e
      by (simp del: fun_upd_apply split: ending.split)
  next
    case False
    then show ?thesis
      unfolding step using one(1) IH [of "w\<lparr> coordinator_table := T' \<rparr>"] one(3) e
      by (auto simp: insert_absorb fun_upd_idem simp del: fun_upd_apply)
  qed
qed

section \<open>The C# decoder\<close>

fun ending_sim :: "(RxCoordinator \<times> 'u) ending \<Rightarrow> 'u decoder_world ending \<Rightarrow> bool" where
  "ending_sim (Returned (T, u)) (Returned w) \<longleftrightarrow> u = observed w \<and> table_sim T (coordinator_table w)"
| "ending_sim (Thrown (T, u)) (Thrown w) \<longleftrightarrow> u = observed w \<and> table_sim T (coordinator_table w)"
| "ending_sim _ _ \<longleftrightarrow> False"

definition endings_sim :: "(RxCoordinator \<times> 'u) ending res \<Rightarrow> 'u decoder_world ending res \<Rightarrow> bool" where
  "endings_sim cs cpp \<longleftrightarrow>
     (case cpp of Inl e \<Rightarrow> e \<noteq> Out_Of_Bounds \<longrightarrow> cs = Inl e
      | Inr w \<Rightarrow> \<exists>e. cs = Inr e \<and> ending_sim e w)"

lemma endings_sim_simps [simp]:
  "endings_sim cs (Inl e) \<longleftrightarrow> (e \<noteq> Out_Of_Bounds \<longrightarrow> cs = Inl e)"
  "endings_sim (Inr a) (Inr b) \<longleftrightarrow> ending_sim a b"
  by (auto simp: endings_sim_def)

lemma endings_sim_Inr:
  "endings_sim cs (Inr (Returned w)) \<longleftrightarrow>
    (\<exists>T. cs = Inr (Returned (T, observed w)) \<and> table_sim T (coordinator_table w))"
  "endings_sim cs (Inr (Thrown w)) \<longleftrightarrow>
    (\<exists>T. cs = Inr (Thrown (T, observed w)) \<and> table_sim T (coordinator_table w))"
  by (auto simp: endings_sim_def elim: ending_sim.elims)

lemma endings_sim_bind:
  assumes "\<And>x. m = Inr x \<Longrightarrow> endings_sim (f x) (g x)"
  shows "endings_sim (bindE m f) (bindE m g)"
  using assms by (cases m) simp_all

lemma Decode_ending_eq:
  fixes config :: mp_config and w :: RxCoordinator
  assumes "4 \<le> length frame" and "length frame < 65540"
  defines "c \<equiv> mp_rx_header_to_coordinate config (block_header frame)"
  defines "w1 \<equiv> GcHook w (coord_sender_id c) (coord_package_id c)"
  defines "slot \<equiv> slot_ref w1 c"
  shows "Decode_ending config w frame state callback =
    bindE (mp_rx_calc_slice_step (Cs_State slot) (slice_serial (block_header frame))
        (of_nat (length (block_payload frame))) (mp_max_payload config) (eop (block_header frame) \<noteq> 0))
      (\<lambda>step.
       if inst_event step = MP_RX_STREAM_DUPLICATE then Inr (Returned (slot_assign w1 c slot, state))
       else
         bindE (copy_payload
             (EnsurePayloadCapacity slot (unat (coord_offset c) + length (block_payload frame)))
             (unat (coord_offset c)) (block_payload frame)) (\<lambda>slot1.
         let slot2 = slot1\<lparr> Cs_State := next_state step \<rparr>
         in if inst_event step = MP_RX_STREAM_COMPLETE
         then
           bindE (mem_read (payload_span slot2) 0 (unat (termination_at (next_state step)))) (\<lambda>span.
           case callback span state of
             Returned state' \<Rightarrow> Inr (Returned (slot_assign w1 c (slot2\<lparr> Cs_State := zero_state \<rparr>), state'))
           | Thrown state' \<Rightarrow> Inr (Thrown (slot_assign w1 c slot2, state')))
         else Inr (Returned (slot_assign w1 c slot2, state))))"
proof -
  have header: "PackedHeaderFromSpan frame = Inr (MP_ARRAY_TO_PACKED_HEADER frame)"
    using assms(1) by (simp add: PackedHeaderFromSpan_def)
  show ?thesis
    unfolding Decode_ending_def header bindE_Inr Let_def block_header_def [symmetric]
      frame_payload_size [OF assms(2)] block_payload_nat block_payload_size(2) [of frame, unfolded block_payload_nat]
      c_def w1_def slot_def ..
qed

lemma Decode_ending_sim:
  assumes sim: "table_sim T (coordinator_table w)" and wf: "table_wf (coordinator_table w)"
    and size: "4 \<le> length frame" "length frame < 65540"
  shows "endings_sim (Decode_ending config T frame (observed w) callback)
    (RxDecoder_Push_ending (bytes_decoder config ignored) callback w frame)"
proof -
  have head: "MP_HEADER_SIZE \<le> length frame" using size(1) by (simp add: MP_HEADER_SIZE_def)
  show ?thesis
  proof (rule decode_facts [OF sim wf, of config frame])
    let ?c = "mp_rx_header_to_coordinate config (block_header frame)" and ?d = "block_payload frame"
    let ?w1 = "gc_hook (coordinator_table w) (coord_sender_id ?c) (coord_package_id ?c)"
      and ?T1 = "GcHook T (coord_sender_id ?c) (coord_package_id ?c)"
    let ?s = "slot_view ?w1 ?c"
    fix cs' assume facts: "table_sim ?T1 ?w1" "slot_sim (slot_ref ?T1 ?c) ?s" "Cs_State (slot_ref ?T1 ?c) = slot_state ?s"
      "copy_payload (EnsurePayloadCapacity (slot_ref ?T1 ?c) (unat (coord_offset ?c) + length ?d))
         (unat (coord_offset ?c)) ?d = Inr cs'"
      "\<And>st. slot_sim (cs'\<lparr> Cs_State := st \<rparr>) (slot_store (coord_offset ?c) ?d st ?s)"
      "\<And>st n. n \<le> length (slot_data (slot_store (coord_offset ?c) ?d st ?s)) \<Longrightarrow>
        mem_read (payload_span (cs'\<lparr> Cs_State := st \<rparr>)) 0 n = Inr (take n (slot_data (slot_store (coord_offset ?c) ?d st ?s)))"
    note assign = slot_assign_sim [OF facts(1)]
    show ?thesis
      unfolding Decode_ending_eq [OF size] push_ending_block [OF wf head] facts(3,4) bindE_Inr
      by (simp only: bytes_decoder_def RxDecoder.simps)
        (intro endings_sim_bind,
          auto simp: Let_def parse_ending_def assign facts(2,5,6) not_less
            simp del: slot_store_simps(3) split: ending.split)
  qed
qed

lemma decode_catching_run:
  fixes w :: "'u decoder_world"
  assumes mp: "mp_max_payload config = mp" and keys: "keys_ok mp keys content"
    and "list_all2 (arrival_frame mp content) es fs" and "fst ` set es \<subseteq> keys"
    and "table_holds mp keys content (coordinator_table w) S" and "table_sim T (coordinator_table w)"
  shows "\<exists>T'. decode_catching config callback (T, observed w) fs =
    Inr (T', catching_run content callback S (observed w) es)"
  using arrival_sizes [OF assms(3)] assms(3-)
proof (induction es arbitrary: fs w S T)
  case Nil
  then show ?case by (simp add: decode_catching_def)
next
  case (Cons e es)
  obtain q i where e: "e = (q, i)" by (cases e)
  obtain f fs' where fs: "fs = f # fs'" using Cons.prems(2) by (cases fs) simp_all
  have q: "q \<in> keys" "arrival_frame mp content (q, i) f" "fst ` set es \<subseteq> keys" "4 \<le> length f" "length f < 65540"
    and more: "\<forall>f\<in>set fs'. 4 \<le> length f \<and> length f < 65540" "list_all2 (arrival_frame mp content) es fs'"
    using Cons.prems(1-3) e fs by auto
  let ?d = "bytes_decoder config (\<lambda>b u. Inr u)"
  have d: "parse_ending ?d callback = callback" "mp_max_payload (RxDecoder_config ?d) = mp"
    by (simp_all add: parse_ending_def bytes_decoder_def fun_eq_iff mp)
  obtain A B where one: "RxDecoder_Push_ending ?d callback w f =
      (if i \<notin> S q \<and> insert i (S q) = {..fst (content q)} then
         (case callback (snd (content q)) (observed w) of
            Returned u \<Rightarrow> Inr (Returned (w\<lparr> coordinator_table := A,
              arena_messages := Suc (arena_messages w), observed := u \<rparr>))
          | Thrown u \<Rightarrow> Inr (Thrown (w\<lparr> coordinator_table := B,
              arena_messages := Suc (arena_messages w), observed := u \<rparr>)))
       else Inr (Returned (w\<lparr> coordinator_table := B \<rparr>)))"
      "i \<notin> S q \<Longrightarrow> insert i (S q) = {..fst (content q)} \<Longrightarrow> table_holds mp keys content A (S(q := {}))"
      "table_holds mp keys content B (S(q := insert i (S q)))"
    using push_ending_frame [OF keys Cons.prems(4) q(1,2) d(2), of callback, unfolded d(1)] by metis
  have wf: "table_wf (coordinator_table w)" using Cons.prems(4) by (simp add: table_holds_def)
  note sim = Decode_ending_sim [OF Cons.prems(5) wf q(4,5), where callback = callback
      and config = config and ignored = "\<lambda>b u. Inr u", unfolded one(1)]
  note IH = Cons.IH [OF more q(3)]
  have step: "decode_catching config callback (T, observed w) (f # fs') =
      bindE (Decode_ending config T f (observed w) callback) (\<lambda>e. decode_catching config callback (left_behind e) fs')"
    by (simp add: decode_catching_def bindE_assoc)
  show ?case
  proof (cases "i \<notin> S q \<and> insert i (S q) = {..fst (content q)}")
    case True
    show ?thesis
    proof (cases "callback (snd (content q)) (observed w)")
      case (Returned u)
      then obtain T1 where "Decode_ending config T f (observed w) callback = Inr (Returned (T1, u))" "table_sim T1 A"
        using sim [unfolded if_P [OF True] Returned ending.case endings_sim_Inr] by auto
      then show ?thesis
        using step True Returned IH [of "w\<lparr> coordinator_table := A, observed := u \<rparr>" "S(q := {})" T1] one(2) e fs
        by (simp del: fun_upd_apply)
    next
      case (Thrown u)
      then obtain T1 where "Decode_ending config T f (observed w) callback = Inr (Thrown (T1, u))" "table_sim T1 B"
        using sim [unfolded if_P [OF True] Thrown ending.case endings_sim_Inr] by auto
      then show ?thesis
        using step True Thrown IH [of "w\<lparr> coordinator_table := B, observed := u \<rparr>" "S(q := insert i (S q))" T1] one(3) e fs
        by (simp del: fun_upd_apply)
    qed
  next
    case False
    then obtain T1 where "Decode_ending config T f (observed w) callback = Inr (Returned (T1, observed w))" "table_sim T1 B"
      using sim [unfolded if_not_P [OF False] endings_sim_Inr] by auto
    then show ?thesis
      using step False IH [of "w\<lparr> coordinator_table := B \<rparr>" "S(q := insert i (S q))" T1] one(3) e fs
      by (auto simp: insert_absorb fun_upd_idem simp del: fun_upd_apply)
  qed
qed

section \<open>Properties\<close>

text \<open>C11: Both decoders survive exceptions of their client. The observer of the C++ decoder and the callback of
  the C# decoder may throw whenever they are called, and the caller catches the exception and pushes
  on: in any mixture of packages the others are received as if nothing had happened, a package whose
  delivery threw is not delivered again when its slices are repeated, and one whose delivery returned
  is forgotten and may be sent again.\<close>

theorem decoders_survive_exceptions:
  assumes "mp = mp_max_payload \<lparr> transmission_unit = tu \<rparr>" and "keys_ok mp keys content"
    and "list_all2 (arrival_frame mp content) es fs" and "fst ` set es \<subseteq> keys"
    and "new_RxDecoder (int (unat tu)) ignored parse metas u = (d, w)" and "length metas = 8"
  shows "bindE (push_catching d observer w fs) (\<lambda>w'. Inr (observed w')) =
      Inr (catching_run content (parse_ending d observer) (\<lambda>_. {}) u es) \<and>
    (\<exists>T. decode_catching \<lparr> transmission_unit = tu \<rparr> callback (new_RxCoordinator, v) fs =
      Inr (T, catching_run content callback (\<lambda>_. {}) v es))"
proof -
  have d: "mp_max_payload (RxDecoder_config d) = mp" using assms(1,5) by (auto simp: new_RxDecoder_def)
  have "table_holds mp keys content (coordinator_table w) (\<lambda>_. {})"
    using new_decoder_holds [OF assms(6,5)] assms(2) d by (auto simp: cpp_holds_def)
  from push_catching_run [OF d assms(2-4) this] have cpp: "bindE (push_catching d observer w fs) (\<lambda>w'. Inr (observed w')) =
      Inr (catching_run content (parse_ending d observer) (\<lambda>_. {}) u es)"
    by (simp add: new_decoder_slots(2) [OF assms(6,5)])
  let ?w = "\<lparr> coordinator_table = new_Coordinator zero_metas, arena_messages = 0, observed = v \<rparr>"
  have new: "new_RxDecoder (int (unat tu)) (\<lambda>b u. Inr u) Some zero_metas v =
      (bytes_decoder \<lparr> transmission_unit = tu \<rparr> (\<lambda>b u. Inr u), ?w)"
    by (simp add: new_RxDecoder_def bytes_decoder_def)
  have "table_holds mp keys content (coordinator_table ?w) (\<lambda>_. {})"
    using new_decoder_holds [OF zero_metas_length new, of keys content] assms(1,2)
    by (simp add: cpp_holds_def bytes_decoder_def)
  from decode_catching_run [OF assms(1) [symmetric] assms(2-4) this, of new_RxCoordinator callback] cpp
  show ?thesis using new_table_sim by simp
qed

theorem decoders_survive_exceptions_witness:
  "\<exists>T. bindE (push_catching (fst example_decoder) (\<lambda>m u. Thrown (u @ [m])) (snd example_decoder)
      [slice_frame 4 2 9 1 [1, 2, 3, 4, 5] 1, slice_frame 4 2 10 0 [7] 0, slice_frame 4 2 9 1 [1, 2, 3, 4, 5] 0,
       slice_frame 4 2 9 1 [1, 2, 3, 4, 5] 1, slice_frame 4 2 10 0 [7] 0]) (\<lambda>w. Inr (observed w)) =
      Inr [[7], [1, 2, 3, 4, 5]] \<and>
    decode_catching \<lparr> transmission_unit = 8 \<rparr>
      (\<lambda>b u. if b = [7] then Returned (u @ [b]) else Thrown (u @ [b])) (new_RxCoordinator, [])
      [slice_frame 4 2 9 1 [1, 2, 3, 4, 5] 1, slice_frame 4 2 10 0 [7] 0, slice_frame 4 2 9 1 [1, 2, 3, 4, 5] 0,
       slice_frame 4 2 9 1 [1, 2, 3, 4, 5] 1, slice_frame 4 2 10 0 [7] 0] =
      Inr (T, [[7], [1, 2, 3, 4, 5], [7]])"
proof -
  let ?es = "[((2, 9), 1), ((2, 10), 0), ((2, 9), 0), ((2, 9), 1), ((2, 10), 0)] :: (package_key \<times> nat) list"
  let ?fs = "[slice_frame 4 2 9 1 [1, 2, 3, 4, 5] 1, slice_frame 4 2 10 0 [7] 0, slice_frame 4 2 9 1 [1, 2, 3, 4, 5] 0,
       slice_frame 4 2 9 1 [1, 2, 3, 4, 5] 1, slice_frame 4 2 10 0 [7] 0]"
  have a: "carries_slice 4 2 9 1 [1, 2, 3, 4, 5] i (slice_frame 4 2 9 1 [1, 2, 3, 4, 5] i)" if "i \<le> 1" for i
    using that by (intro slice_frame_carries(1)) (simp_all add: package_ok_def wire_ok_def)
  have b: "carries_slice 4 2 10 0 [7] 0 (slice_frame 4 2 10 0 [7] 0)"
    by (intro slice_frame_carries(1)) (simp_all add: package_ok_def wire_ok_def)
  have keys: "keys_ok 4 {(2, 9), (2, 10)} example_contents"
    by (auto simp: keys_ok_def example_contents_def package_ok_def wire_ok_def)
  have fs: "list_all2 (arrival_frame 4 example_contents) ?es ?fs"
    by (auto simp: arrival_frame_def example_contents_def a [of 0, simplified] a [of 1, simplified] b)
  have sets: "{1} \<noteq> {..1 :: nat}" "{0, 1} = {..1 :: nat}" by (auto simp: atMost_Suc)
  have parse: "parse_ending (fst example_decoder) observer = observer" for observer
    by (simp add: parse_ending_def example_decoder_def new_RxDecoder_def fun_eq_iff)
  have mp: "4 = mp_max_payload \<lparr> transmission_unit = 8 \<rparr>" by (simp add: mp_max_payload_def MP_HEADER_SIZE_def)
  have new: "new_RxDecoder (int (unat (8 :: u16))) (\<lambda>msg seen. Inr (seen @ [msg])) Some
      (replicate 8 \<lparr> meta_pkg = 200, meta_gen = 3 \<rparr>) [] = (fst example_decoder, snd example_decoder)"
    using example_decoder_new by simp
  show ?thesis
    using decoders_survive_exceptions [OF mp keys fs _ new, where observer = "\<lambda>m u. Thrown (u @ [m])"
        and callback = "\<lambda>b u. if b = [7] then Returned (u @ [b]) else Thrown (u @ [b])" and v = "[]"] sets
    by (simp add: parse example_contents_def insert_commute)
qed

end
