(* ===== verification/Cs_Abort.thy ===== *)
theory Cs_Abort
  imports Cs_Link Exceptions
begin

text \<open>
  Exceptions while a message is written through the C# writer of \<^bold>\<open>TxEncoder.cs\<close>. A writer is used in a
  \<open>using\<close> block, so \<open>Dispose\<close> is called also when the block is left by an exception, of the client or
  of the callback that sends a frame. \<open>Dispose\<close> cannot tell: it sends what there is, with the end mark.
\<close>

section \<open>The writer with exceptions\<close>

fun and_then :: "'a ending res \<Rightarrow> ('a \<Rightarrow> 'a ending res) \<Rightarrow> 'a ending res" where
  "and_then m f = bindE m (\<lambda>e. case e of Returned x \<Rightarrow> f x | Thrown x \<Rightarrow> Inr (Thrown x))"

text \<open>The header is in the buffer when the callback is called; cursor and fill change behind it.\<close>

definition EmitSlice_ending ::
    "(u8 list \<Rightarrow> 'w \<Rightarrow> 'w ending) \<Rightarrow> 'w TxWriter \<Rightarrow> 'w \<Rightarrow> bool \<Rightarrow> ('w TxWriter \<times> 'w) ending res" where
  "EmitSlice_ending callback s w is_eop =
     (if writer_fill s = 0 \<and> (\<not> is_eop \<or> coord_offset (writer_cursor s) = 0) then Inr (Returned (s, w))
      else
        bindE (mp_tx_prepare (writer_config s) (writer_cursor s) (writer_fill s) is_eop) (\<lambda>slice.
        bindE (PackedHeaderToSpan (mp_header_pack (slice_header slice)) (writer_buffer s)) (\<lambda>buffer.
        bindE (mem_read buffer 0 (unat (transmission_unit (writer_config s)))) (\<lambda>frame.
        Inr (case callback frame w of
          Returned w' \<Rightarrow> Returned (s\<lparr> writer_buffer := buffer, writer_cursor := slice_next slice, writer_fill := 0 \<rparr>, w')
        | Thrown w' \<Rightarrow> Thrown (s\<lparr> writer_buffer := buffer \<rparr>, w'))))))"

definition CheckSizeAndTryEmitSlice_ending ::
    "(u8 list \<Rightarrow> 'w \<Rightarrow> 'w ending) \<Rightarrow> 'w TxWriter \<Rightarrow> 'w \<Rightarrow> int \<Rightarrow> ('w TxWriter \<times> 'w) ending res" where
  "CheckSizeAndTryEmitSlice_ending callback s w sz =
     (if int (unat (mp_max_payload (writer_config s))) - int (unat (writer_fill s)) < sz
      then EmitSlice_ending callback s w False else Inr (Returned (s, w)))"

definition Advance_ending ::
    "(u8 list \<Rightarrow> 'w \<Rightarrow> 'w ending) \<Rightarrow> 'w TxWriter \<Rightarrow> 'w \<Rightarrow> int \<Rightarrow> ('w TxWriter \<times> 'w) ending res" where
  "Advance_ending callback s w count =
     (let s' = s\<lparr> writer_fill := writer_fill s + of_int count \<rparr>
      in if writer_fill s' = mp_max_payload (writer_config s') then EmitSlice_ending callback s' w False
         else Inr (Returned (s', w)))"

text \<open>
  A call of the client, with the bytes it writes into the span. Either the client makes a call of the
  writer or it throws.
\<close>

fun call_ending ::
    "(u8 list \<Rightarrow> 'w \<Rightarrow> 'w ending) \<Rightarrow> 'w TxWriter \<times> 'w \<Rightarrow> writer_call \<Rightarrow> ('w TxWriter \<times> 'w) ending res" where
  "call_ending callback (s, w) (Call_GetSpan sizeHint bytes) =
     and_then (CheckSizeAndTryEmitSlice_ending callback s w sizeHint) (\<lambda>(s', w').
       bindE (writer_span s') (\<lambda>(start, len).
       if len < length bytes then Inl Out_Of_Bounds
       else bindE (mem_write (writer_buffer s') start bytes) (\<lambda>buffer.
         Inr (Returned (s'\<lparr> writer_buffer := buffer \<rparr>, w')))))"
| "call_ending callback (s, w) (Call_Advance count) = Advance_ending callback s w count"

datatype client_act = Writes writer_call | Throws

fun client_ending ::
    "(u8 list \<Rightarrow> 'w \<Rightarrow> 'w ending) \<Rightarrow> 'w TxWriter \<times> 'w \<Rightarrow> client_act list \<Rightarrow> ('w TxWriter \<times> 'w) ending res" where
  "client_ending callback sw [] = Inr (Returned sw)"
| "client_ending callback sw (Writes c # acts) =
     and_then (call_ending callback sw c) (\<lambda>sw'. client_ending callback sw' acts)"
| "client_ending callback sw (Throws # acts) = Inr (Thrown sw)"

text \<open>
  The \<open>using\<close> block: \<open>Dispose\<close> is called however the client ends, and an exception of the client goes on
  behind it.
\<close>

definition Dispose_ending ::
    "(u8 list \<Rightarrow> 'w \<Rightarrow> 'w ending) \<Rightarrow> 'w TxWriter \<times> 'w \<Rightarrow> ('w TxWriter \<times> 'w) ending res" where
  "Dispose_ending callback sw = EmitSlice_ending callback (fst sw) (snd sw) True"

definition using_writer ::
    "(u8 list \<Rightarrow> 'w \<Rightarrow> 'w ending) \<Rightarrow> 'w TxWriter \<Rightarrow> 'w \<Rightarrow> client_act list \<Rightarrow> ('w TxWriter \<times> 'w) ending res" where
  "using_writer callback s w acts =
     bindE (client_ending callback (s, w) acts) (\<lambda>e. case e of
       Returned sw \<Rightarrow> Dispose_ending callback sw
     | Thrown sw \<Rightarrow> bindE (Dispose_ending callback sw) (\<lambda>e'. Inr (Thrown (left_behind e'))))"

section \<open>Without exceptions\<close>

text \<open>With a fault in place of the exception these are the operations of \<open>Cs_Tx\<close>.\<close>

definition faulting :: "(u8 list \<Rightarrow> 'w \<Rightarrow> 'w ending) \<Rightarrow> u8 list \<Rightarrow> 'w \<Rightarrow> 'w res" where
  "faulting callback f w = ending_res (callback f w)"

lemma ending_res_Inr [simp]: "ending_res e = Inr x \<longleftrightarrow> e = Returned x"
  by (cases e) simp_all

lemma emit_ending_res:
  assumes "writer_next s = faulting callback"
  shows "bindE (EmitSlice_ending callback s w e) ending_res = EmitSlice s w e"
proof -
  have "ending_res (case callback f w of Returned w' \<Rightarrow> Returned (A, w') | Thrown w' \<Rightarrow> Thrown (B, w')) =
      bindE (writer_next s f w) (\<lambda>w'. Inr (A, w'))" for f and A B :: "'a TxWriter"
    by (simp add: assms faulting_def split: ending.split)
  then show ?thesis
    unfolding EmitSlice_ending_def EmitSlice_def bindE_assoc bindE_branches(1) bindE_Inr by (simp only: ending_res.simps)
qed

lemma call_lift:
  assumes nxt: "writer_next s = faulting callback" and step: "writer_step (s, w) c = Inr (s', w')"
  shows "call_ending callback (s, w) c = Inr (Returned (s', w')) \<and> writer_next s' = faulting callback"
proof -
  have emit: "EmitSlice_ending callback t v e = Inr (Returned x) \<and> writer_next (fst x) = faulting callback"
    if "writer_next t = faulting callback" "EmitSlice t v e = Inr x" for t v e x
  proof -
    have "EmitSlice_ending callback t v e = Inr (Returned x)"
      using that(2) unfolding emit_ending_res [OF that(1), symmetric] by (auto simp: bindE_eq_Inr)
    moreover have "writer_next (fst x) = writer_next t"
      using that(2) by (auto simp: EmitSlice_def bindE_eq_Inr split: if_splits)
    ultimately show ?thesis using that(1) by simp
  qed
  show ?thesis
  proof (cases c)
    case (Call_Advance n)
    let ?s = "s\<lparr> writer_fill := writer_fill s + of_int n \<rparr>"
    show ?thesis
      using step nxt emit [of ?s w False "(s', w')"]
      by (auto simp: Call_Advance Advance_def Advance_ending_def Let_def split: if_splits)
  next
    case (Call_GetSpan h bytes)
    obtain s1 w1 start len buffer where span: "CheckSizeAndTryEmitSlice s w h = Inr (s1, w1)"
        "writer_span s1 = Inr (start, len)" "\<not> len < length bytes" "mem_write (writer_buffer s1) start bytes = Inr buffer"
        "s' = s1\<lparr> writer_buffer := buffer \<rparr>" "w' = w1"
      using step by (auto simp: Call_GetSpan GetSpan_def bindE_eq_Inr split: if_splits)
    have "CheckSizeAndTryEmitSlice_ending callback s w h = Inr (Returned (s1, w1)) \<and> writer_next s1 = faulting callback"
      using span(1) nxt emit [of s w False "(s1, w1)"]
      by (auto simp: CheckSizeAndTryEmitSlice_def CheckSizeAndTryEmitSlice_ending_def split: if_splits)
    then show ?thesis using span(2-6) by (simp add: Call_GetSpan)
  qed
qed

lemma client_lift:
  assumes "writer_next s = faulting callback" and "foldE writer_step (s, w) cs = Inr (s', w')"
  shows "client_ending callback (s, w) (map Writes cs @ acts) = client_ending callback (s', w') acts \<and>
    writer_next s' = faulting callback"
  using assms
proof (induction cs arbitrary: s w)
  case (Cons c cs)
  obtain s1 w1 where one: "writer_step (s, w) c = Inr (s1, w1)" "foldE writer_step (s1, w1) cs = Inr (s', w')"
    using Cons.prems(2) by (auto simp: bindE_eq_Inr)
  then show ?case using call_lift [OF Cons.prems(1) one(1)] Cons.IH [of s1 w1] by simp
qed simp

section \<open>Sending in the middle of a message\<close>

lemma emit_at:
  assumes "writer_at mp sender package i pend s" and "pend \<noteq> [] \<or> e \<and> coord_offset (writer_cursor s) \<noteq> 0"
  shows "\<exists>f b. frame_carries mp (header_at mp sender package i (of_nat (length pend)) e) pend f \<and>
    writer_at mp sender package i pend (s\<lparr> writer_buffer := b \<rparr>) \<and>
    (\<forall>callback w. EmitSlice_ending callback s w e = Inr (case callback f w of
      Returned w' \<Rightarrow> Returned (s\<lparr> writer_buffer := b, writer_cursor := slice_coord sender package mp (Suc i),
        writer_fill := 0 \<rparr>, w')
    | Thrown w' \<Rightarrow> Thrown (s\<lparr> writer_buffer := b \<rparr>, w')))"
proof -
  obtain f b h where facts: "frame_carries mp (header_at mp sender package i (of_nat (length pend)) e) pend f"
      "writer_at mp sender package i pend (s\<lparr> writer_buffer := b \<rparr>)"
      "\<not> (writer_fill s = 0 \<and> (\<not> e \<or> coord_offset (writer_cursor s) = 0))"
      "mp_tx_prepare (writer_config s) (writer_cursor s) (writer_fill s) e =
        Inr \<lparr> slice_header = h, slice_next = slice_coord sender package mp (Suc i) \<rparr>"
      "mem_write (writer_buffer s) 0 (MP_PACKED_HEADER_TO_ARRAY (mp_header_pack h)) = Inr b"
      "mem_read b 0 (unat (transmission_unit (writer_config s))) = Inr f"
    using emit_facts [OF assms] by blast
  have "EmitSlice_ending callback s w e = Inr (case callback f w of
      Returned w' \<Rightarrow> Returned (s\<lparr> writer_buffer := b, writer_cursor := slice_coord sender package mp (Suc i),
        writer_fill := 0 \<rparr>, w')
    | Thrown w' \<Rightarrow> Thrown (s\<lparr> writer_buffer := b \<rparr>, w'))" for callback w
    unfolding EmitSlice_ending_def PackedHeaderToSpan_def if_not_P [OF facts(3)] facts(4-6) bindE_Inr mp_tx_slice.simps ..
  then show ?thesis using facts(1,2) by blast
qed

text \<open>The piece that fills slice \<open>n\<close>.\<close>

definition splits_at :: "nat \<Rightarrow> nat \<Rightarrow> nat \<Rightarrow> (int \<times> u8 list) list \<Rightarrow> int \<times> u8 list \<Rightarrow> bool" where
  "splits_at m fill n ps hp \<longleftrightarrow>
     (let at = fill + length (concat (map snd ps)) in
        pieces_fit m fill ps \<and> n * m \<le> at \<and> at < Suc n * m \<and> at + length (snd hp) = Suc n * m \<and>
        int at + fst hp \<le> int (Suc n * m))"

lemma split_at_slice:
  assumes "pieces_fit m fill ps" and "fill < m" and "Suc n * m \<le> fill + length (concat (map snd ps))"
  shows "\<exists>ps1 hp ps2. ps = ps1 @ hp # ps2 \<and> splits_at m fill n ps1 hp"
  using assms
proof (induction ps arbitrary: fill n)
  case (Cons hp ps)
  obtain h p where hp: "hp = (h, p)" by (cases hp)
  note fit = Cons.prems(1) [unfolded hp pieces_fit.simps]
  consider "fill + length p < m" | "fill + length p = m" "n = 0" | n' where "fill + length p = m" "n = Suc n'"
    using fit by (cases n) fastforce+
  then show ?case
  proof cases
    case 1
    have "Suc n * m \<le> fill + length p + length (concat (map snd ps))" using Cons.prems(3) hp by simp
    from Cons.IH [OF _ 1 this] fit 1 obtain ps1 hp' ps2 where
        "ps = ps1 @ hp' # ps2" "splits_at m (fill + length p) n ps1 hp'" by auto
    moreover from this(2) have "splits_at m fill n (hp # ps1) hp'"
      using fit 1 by (simp add: splits_at_def hp Let_def add.assoc)
    ultimately show ?thesis by (metis append_Cons)
  next
    case 2
    then have "splits_at m fill n [] hp" using fit Cons.prems(2) by (simp add: splits_at_def hp)
    then show ?thesis by (metis append_Nil)
  next
    case 3
    have "Suc n' * m \<le> 0 + length (concat (map snd ps))" using Cons.prems(3) hp 3 by simp
    from Cons.IH [OF _ _ this] fit 3 Cons.prems(2) obtain ps1 hp' ps2 where
        split: "ps = ps1 @ hp' # ps2" "splits_at m 0 n' ps1 hp'" by auto
    have "fill + (length p + x) = m + x" for x using 3 by simp
    then have "splits_at m fill n (hp # ps1) hp'"
      using split(2) fit 3 by (simp add: splits_at_def hp Let_def)
    then show ?thesis using split(1) by (metis append_Cons)
  qed
qed simp

text \<open>All slices of one package, at a new decoder.\<close>

lemma decode_one_package:
  assumes "mp = mp_max_payload config" and "package_ok mp k (length bytes)" and "wire_ok mp sender"
    and fs: "list_all2 (carries_slice mp sender package k bytes) [0..<Suc k] fs"
  shows "\<exists>T. cs_decode_frames config (\<lambda>b seen. Inr (seen @ [b])) (new_RxCoordinator, []) fs = Inr (T, [bytes])"
proof -
  let ?content = "(\<lambda>_. (k, bytes)) :: contents" and ?es = "map (Pair (sender, package)) ([0..<k] @ [k])"
  have keys: "keys_ok mp {(sender, package)} ?content" using assms(2,3) by (simp add: keys_ok_def)
  have "list_all2 (arrival_frame mp ?content) ?es fs"
    using fs by (intro arrivals_of_package) (auto simp: less_imp_le)
  moreover have "fst ` set ?es \<subseteq> {(sender, package)}" by auto
  ultimately have "\<exists>T. cs_decode_frames config (\<lambda>b seen. Inr (seen @ [b])) (new_RxCoordinator, []) fs =
      Inr (T, foldl (\<lambda>seen b. seen @ [b]) [] (arrivals_run ?content (\<lambda>_. {}) ?es))"
    by (rule decode_delivers_mixture [OF assms(1) keys])
  moreover have "set [0..<k] \<union> {k} = {..k}" "set [0..<k] \<noteq> {..k}" by auto
  then have "arrivals_run ?content (\<lambda>_. {}) ?es = [bytes]"
    using arrivals_run_package [of "[0..<k]" k ?content "(sender, package)" "\<lambda>_. {}" "[]"] by simp
  ultimately show ?thesis by simp
qed

lemma carries_all:
  assumes "\<And>i. i \<le> k \<Longrightarrow> carries_slice mp sender package k bytes i (fs ! i)" and "length fs = Suc k"
  shows "list_all2 (carries_slice mp sender package k bytes) [0..<Suc k] fs"
  using assms by (auto simp: list_all2_conv_all_nth less_Suc_eq_le simp del: upt_Suc)

section \<open>Messages that are broken off\<close>

text \<open>
  A callback that sends every frame, and one that sends all but the frame at position \<open>n\<close>, where it
  throws once.
\<close>

definition collecting :: "u8 list \<Rightarrow> u8 list list \<Rightarrow> u8 list list ending" where
  "collecting f fs = Returned (fs @ [f])"

fun failing_once :: "nat \<Rightarrow> u8 list \<Rightarrow> u8 list list \<times> bool \<Rightarrow> (u8 list list \<times> bool) ending" where
  "failing_once n f (fs, failed) =
     (if \<not> failed \<and> length fs = n then Thrown (fs, True) else Returned (fs @ [f], failed))"

lemma collecting_all: "foldE (\<lambda>w f. faulting collecting f w) w fs = Inr (w @ fs)"
  by (induction fs arbitrary: w) (simp_all add: faulting_def collecting_def)

lemma failing_once_before:
  "length w + length fs \<le> n \<Longrightarrow>
    foldE (\<lambda>w f. faulting (failing_once n) f w) (w, False) fs = Inr (w @ fs, False)"
  by (induction fs arbitrary: w) (simp_all add: faulting_def)

text \<open>The client throws behind the pieces.\<close>

lemma client_breaks_off:
  assumes new: "CreateWriter enc (faulting collecting) rented = (s, enc')"
    and unit: "mp = enc_transmissionUnit enc - 4" "4 < enc_transmissionUnit enc"
      "unat (enc_transmissionUnit enc) \<le> length rented"
    and ps: "pieces_fit (unat mp) 0 ps" "bytes = concat (map snd ps)"
    and ok: "package_ok mp (length bytes div unat mp) (length bytes)"
  shows "\<exists>s' fs. using_writer collecting s [] (map Writes (piece_calls ps) @ Throws # acts) = Inr (Thrown (s', fs)) \<and>
    package_frames mp (enc_senderId enc) (ucast (enc_currentPackageId enc + 1)) bytes fs"
proof -
  let ?n = "unat mp" and ?sender = "enc_senderId enc" and ?k = "length bytes div unat mp"
  let ?package = "ucast (enc_currentPackageId enc + 1) :: u8"
  obtain fs s' where fs: "full_frames mp ?sender ?package 0 (full_slices ?n bytes) fs"
      "writer_at mp ?sender ?package ?k (slice_rest ?n bytes) s'"
      "slice_rest ?n bytes \<noteq> [] \<or> coord_offset (writer_cursor s') \<noteq> 0"
      "foldE writer_step (s, []) (piece_calls ps) = Inr (s', fs)"
    using message_written [OF assms] by (auto simp: collecting_all)
  obtain f b where f: "frame_carries mp (header_at mp ?sender ?package ?k (of_nat (length (slice_rest ?n bytes))) True)
        (slice_rest ?n bytes) f"
      "EmitSlice_ending collecting s' w True = Inr (case collecting f w of
        Returned w' \<Rightarrow> Returned (s'\<lparr> writer_buffer := b, writer_cursor := slice_coord ?sender ?package mp (Suc ?k),
          writer_fill := 0 \<rparr>, w')
      | Thrown w' \<Rightarrow> Thrown (s'\<lparr> writer_buffer := b \<rparr>, w'))" for w
    using emit_at [OF fs(2), of True] fs(3) by metis
  have "writer_next s = faulting collecting" using new by (auto simp: CreateWriter_def new_TxWriter_def Let_def)
  from client_lift [OF this fs(4), of "Throws # acts"]
  have "using_writer collecting s [] (map Writes (piece_calls ps) @ Throws # acts) =
      Inr (Thrown (s'\<lparr> writer_buffer := b, writer_cursor := slice_coord ?sender ?package mp (Suc ?k),
        writer_fill := 0 \<rparr>, fs @ [f]))"
    by (simp add: using_writer_def Dispose_ending_def f(2) collecting_def)
  moreover have "package_frames mp ?sender ?package bytes (fs @ [f])"
    using fs(1) f(1) by (auto simp: package_frames_def length_slice_rest)
  ultimately show ?thesis by blast
qed

text \<open>
  The callback throws on slice \<open>n\<close>, a full one: the slice is still in the buffer, and \<open>Dispose\<close> sends it
  again, now as the last.
\<close>

lemma piece_throws:
  assumes at: "writer_at mp sender package n pend s" and room: "length pend < unat mp"
    and fits: "h \<le> int (unat mp - length pend)" "length pend + length p = unat mp" and w: "length fs = n"
  shows "\<exists>s' s'' f. client_ending (failing_once n) (s, (fs, False)) (Writes (Call_GetSpan h p) #
      Writes (Call_Advance (int (length p))) # acts) = Inr (Thrown (s', (fs, True))) \<and>
    Dispose_ending (failing_once n) (s', (fs, True)) = Inr (Returned (s'', (fs @ [f], True))) \<and>
    frame_carries mp (header_at mp sender package n mp True) (pend @ p) f"
proof -
  have le: "length pend + length p \<le> unat mp" using fits(2) by simp
  obtain b where b: "\<not> int (unat (mp_max_payload (writer_config s))) - int (unat (writer_fill s)) < h"
      "writer_span s = Inr (MP_HEADER_SIZE + length pend, unat mp - length pend)"
      "mem_write (writer_buffer s) (MP_HEADER_SIZE + length pend) p = Inr b"
      "writer_fill s + of_nat (length p) = mp \<longleftrightarrow> length pend + length p = unat mp"
      "writer_at mp sender package n (pend @ p)
        (s\<lparr> writer_buffer := b, writer_fill := writer_fill s + of_nat (length p) \<rparr>)"
    using piece_written [OF at room fits(1) le] by blast
  let ?s = "s\<lparr> writer_buffer := b, writer_fill := writer_fill s + of_nat (length p) \<rparr>"
  have ne: "pend @ p \<noteq> []" using fits(2) room by auto
  have mp: "mp_max_payload (writer_config s) = mp" using at by (simp add: writer_at_def)
  obtain f0 b0 where one: "writer_at mp sender package n (pend @ p) (?s\<lparr> writer_buffer := b0 \<rparr>)"
      "\<And>callback w. EmitSlice_ending callback ?s w False = Inr (case callback f0 w of
        Returned w' \<Rightarrow> Returned (?s\<lparr> writer_buffer := b0, writer_cursor := slice_coord sender package mp (Suc n),
          writer_fill := 0 \<rparr>, w')
      | Thrown w' \<Rightarrow> Thrown (?s\<lparr> writer_buffer := b0 \<rparr>, w'))"
    using emit_at [OF b(5), of False] ne by blast
  let ?s' = "?s\<lparr> writer_buffer := b0 \<rparr>"
  obtain f b1 where two: "frame_carries mp (header_at mp sender package n (of_nat (length (pend @ p))) True) (pend @ p) f"
      "\<And>callback w. EmitSlice_ending callback ?s' w True = Inr (case callback f w of
        Returned w' \<Rightarrow> Returned (?s'\<lparr> writer_buffer := b1, writer_cursor := slice_coord sender package mp (Suc n),
          writer_fill := 0 \<rparr>, w')
      | Thrown w' \<Rightarrow> Thrown (?s'\<lparr> writer_buffer := b1 \<rparr>, w'))"
    using emit_at [OF one(1), of True] ne by blast
  have "call_ending (failing_once n) (s, (fs, False)) (Call_GetSpan h p) = Inr (Returned (s\<lparr> writer_buffer := b \<rparr>, (fs, False)))"
    using b(1) fits(2) by (simp add: CheckSizeAndTryEmitSlice_ending_def b(2,3))
  moreover have "Advance_ending (failing_once n) (s\<lparr> writer_buffer := b \<rparr>) (fs, False) (int (length p)) =
      Inr (Thrown (?s', (fs, True)))"
    using b(4) fits(2) w one(2) by (simp add: Advance_ending_def Let_def mp)
  moreover have "of_nat (length (pend @ p)) = mp" using fits(2) by (simp flip: of_nat_add)
  ultimately show ?thesis
    using two by (intro exI [of _ ?s'] exI conjI) (auto simp: Dispose_ending_def)
qed

lemma callback_breaks_off:
  assumes new: "CreateWriter enc (faulting (failing_once n)) rented = (s, enc')"
    and unit: "mp = enc_transmissionUnit enc - 4" "4 < enc_transmissionUnit enc"
      "unat (enc_transmissionUnit enc) \<le> length rented"
    and ps: "pieces_fit (unat mp) 0 ps" "bytes = concat (map snd ps)"
    and ok: "package_ok mp (length bytes div unat mp) (length bytes)" and wire: "wire_ok mp (enc_senderId enc)"
    and n: "n < length bytes div unat mp"
  defines "package \<equiv> ucast (enc_currentPackageId enc + 1) :: u8"
  shows "package_ok mp n (length (take (Suc n * unat mp) bytes))"
    and "\<exists>s' fs. using_writer (failing_once n) s ([], False) (map Writes (piece_calls ps)) = Inr (Thrown (s', (fs, True))) \<and>
    length fs = Suc n \<and>
    (\<forall>i\<le>n. carries_slice mp (enc_senderId enc) package n (take (Suc n * unat mp) bytes) i (fs ! i))"
proof -
  let ?m = "unat mp" and ?sender = "enc_senderId enc" and ?callback = "failing_once n"
  note okD = package_okD [OF ok]
  have le: "Suc n * ?m \<le> length bytes"
    using mult_le_mono1 [of "Suc n" "length bytes div ?m" ?m] n div_times_less_eq_dividend [of "length bytes" ?m] by linarith
  then have len: "length (take (Suc n * ?m) bytes) = Suc n * ?m" by simp
  have "Suc n * ?m < 65536" using le okD(11) by linarith
  then show cut: "package_ok mp n (length (take (Suc n * ?m) bytes))"
    unfolding len using okD(1-3) n by (simp add: package_ok_def)
  obtain ps1 h p ps2 where split: "ps = ps1 @ (h, p) # ps2" "splits_at ?m 0 n ps1 (h, p)"
    using split_at_slice [OF ps(1) okD(2), of n] le ps(2) by auto
  define b1 where "b1 = concat (map snd ps1)"
  have b1: "pieces_fit ?m 0 ps1" "n * ?m \<le> length b1" "length b1 < Suc n * ?m"
      "length b1 + length p = Suc n * ?m" "int (length b1) + h \<le> int (Suc n * ?m)"
    using split(2) by (simp_all add: splits_at_def b1_def Let_def)
  have bytes: "take (Suc n * ?m) bytes = b1 @ p" using b1(4) by (simp add: ps(2) split(1) b1_def)
  have div: "length b1 div ?m = n" using b1(2,3) okD(2) by (intro div_nat_eqI) (simp_all add: mult.commute)
  have rest: "slice_rest ?m b1 = drop (n * ?m) b1" by (simp add: slice_rest_def div)
  have nxt: "writer_next s = faulting ?callback" and start: "writer_at mp ?sender package 0 [] s"
    using new_writer_at [OF new unit] okD(1) by (simp_all add: package_def)
  obtain fs s1 where fs: "full_frames mp ?sender package 0 (full_slices ?m b1) fs"
      "writer_at mp ?sender package (length fs) (slice_rest ?m b1) s1"
      "\<And>w. foldE writer_step (s, w) (piece_calls ps1) = bindE (foldE (\<lambda>w f. faulting ?callback f w) w fs) (\<lambda>w'. Inr (s1, w'))"
    using pieces_send [OF start, of ps1] b1(1) okD(2) unfolding nxt by (simp only: append_Nil list.size b1_def [symmetric] add_0) blast
  have k: "length fs = n"
    using fs(1) length_full_slices [OF okD(2), of b1] by (simp add: full_frames_def div)
  have before: "foldE writer_step (s, ([], False)) (piece_calls ps1) = Inr (s1, (fs, False))"
    using failing_once_before [of "[]" fs n] k by (simp add: fs(3))
  have left: "length (slice_rest ?m b1) + n * ?m = length b1" using b1(2) by (simp add: rest)
  then have room: "length (slice_rest ?m b1) < ?m" "h \<le> int (?m - length (slice_rest ?m b1))"
      "length (slice_rest ?m b1) + length p = ?m"
    using b1(3-5) unfolding mult_Suc by linarith+
  obtain s' s'' f where last: "client_ending ?callback (s1, (fs, False)) (Writes (Call_GetSpan h p) #
        Writes (Call_Advance (int (length p))) # map Writes (piece_calls ps2)) = Inr (Thrown (s', (fs, True)))"
      "Dispose_ending ?callback (s', (fs, True)) = Inr (Returned (s'', (fs @ [f], True)))"
      "frame_carries mp (header_at mp ?sender package n mp True) (slice_rest ?m b1 @ p) f"
    using piece_throws [OF fs(2) [unfolded k] room k] by blast
  have acts: "map Writes (piece_calls ps) = map Writes (piece_calls ps1) @ Writes (Call_GetSpan h p) #
      Writes (Call_Advance (int (length p))) # map Writes (piece_calls ps2)"
    by (simp add: split(1) piece_calls_def)
  have "using_writer ?callback s ([], False) (map Writes (piece_calls ps)) =
      Inr (Thrown (s'', (fs @ [f], True)))"
    unfolding using_writer_def acts client_lift [OF nxt before, THEN conjunct1] last(1)
    by (simp add: last(2))
  moreover have "carries_slice mp ?sender package n (b1 @ p) i ((fs @ [f]) ! i)" if "i \<le> n" for i
  proof (rule frames_carry(1) [OF _ wire k _ _ that])
    show "package_ok mp n (length (b1 @ p))" using cut unfolding bytes .
    show "frame_carries mp (header_at mp ?sender package j mp False) (take ?m (drop (j * ?m) (b1 @ p))) (fs ! j)"
      if "j < n" for j
      using full_frames_nth [OF fs(1) okD(2), of j] that mult_le_mono1 [of "Suc j" n ?m] b1(2) by (simp add: div)
    show "frame_carries mp (header_at mp ?sender package n (of_nat (length (b1 @ p) - n * ?m)) True)
        (drop (n * ?m) (b1 @ p)) f"
      using last(3) b1(2,4) by (simp add: rest)
  qed
  ultimately show "\<exists>s' fs. using_writer ?callback s ([], False) (map Writes (piece_calls ps)) = Inr (Thrown (s', (fs, True))) \<and>
      length fs = Suc n \<and> (\<forall>i\<le>n. carries_slice mp ?sender package n (take (Suc n * ?m) bytes) i (fs ! i))"
    unfolding bytes using k by (intro exI conjI) auto
qed

section \<open>Properties\<close>

text \<open>C38: An exception in the \<open>using\<close> block of a C# writer turns the message into a shorter one. When the
  client throws, whatever it still meant to write, \<open>Dispose\<close> ends the message behind the bytes written so
  far; when the callback throws on a full slice, \<open>Dispose\<close> sends that slice again as the last one. The
  exception goes on to the caller, and a decoder hands its callback the beginning of the message as if
  it were the whole.\<close>

theorem broken_messages_are_delivered:
  assumes unit: "mp = enc_transmissionUnit enc - 4" "4 < enc_transmissionUnit enc"
      "unat (enc_transmissionUnit enc) \<le> length rented"
    and wire: "wire_ok mp (enc_senderId enc)"
    and ps: "pieces_fit (unat mp) 0 ps" "bytes = concat (map snd ps)"
    and ok: "package_ok mp (length bytes div unat mp) (length bytes)" and n: "n < length bytes div unat mp"
    and new: "CreateWriter enc (faulting collecting) rented = (s, enc')"
      "CreateWriter enc (faulting (failing_once n)) rented = (t, enc'')"
  defines "decode \<equiv> cs_decode_frames \<lparr> transmission_unit = enc_transmissionUnit enc \<rparr> (\<lambda>b seen. Inr (seen @ [b]))
    (new_RxCoordinator, [])"
  shows "(\<exists>s' fs T. using_writer collecting s [] (map Writes (piece_calls ps) @ Throws # acts) =
      Inr (Thrown (s', fs)) \<and> decode fs = Inr (T, [bytes])) \<and>
    (\<exists>t' fs T. using_writer (failing_once n) t ([], False) (map Writes (piece_calls ps)) =
      Inr (Thrown (t', (fs, True))) \<and> decode fs = Inr (T, [take (Suc n * unat mp) bytes]))"
proof -
  let ?config = "\<lparr> transmission_unit = enc_transmissionUnit enc \<rparr>"
  have mp: "mp = mp_max_payload ?config" using unit(1) by (simp add: mp_max_payload_def MP_HEADER_SIZE_def)
  obtain s' fs where client: "using_writer collecting s [] (map Writes (piece_calls ps) @ Throws # acts) =
        Inr (Thrown (s', fs))"
      "package_frames mp (enc_senderId enc) (ucast (enc_currentPackageId enc + 1)) bytes fs"
    using client_breaks_off [OF new(1) unit ps ok] by blast
  note carry = package_frames_carry [OF ok wire client(2)]
  obtain T where T: "decode fs = Inr (T, [bytes])"
    using decode_one_package [OF mp ok wire carries_all [OF carry(1,3)]] by (auto simp: decode_def)
  note cut = callback_breaks_off [OF new(2) unit ps ok wire n]
  obtain t' gs where callback: "using_writer (failing_once n) t ([], False) (map Writes (piece_calls ps)) =
        Inr (Thrown (t', (gs, True)))" "length gs = Suc n"
      "\<And>i. i \<le> n \<Longrightarrow> carries_slice mp (enc_senderId enc) (ucast (enc_currentPackageId enc + 1)) n
        (take (Suc n * unat mp) bytes) i (gs ! i)"
    using cut(2) by blast
  obtain T' where "decode gs = Inr (T', [take (Suc n * unat mp) bytes])"
    using decode_one_package [OF mp cut(1) wire carries_all [OF callback(3,2)]] by (auto simp: decode_def)
  then show ?thesis using client(1) T callback(1) by blast
qed

theorem broken_messages_are_delivered_witness:
  "(\<exists>s' fs T. using_writer collecting
      (fst (CreateWriter (new_Cs_TxEncoder 8 2) (faulting collecting) (replicate 16 9))) []
      (map Writes (piece_calls [(0, [1, 2, 3]), (1, [4]), (4, [5])]) @ Throws # [Writes (Call_GetSpan 0 [6])]) =
      Inr (Thrown (s', fs)) \<and>
    cs_decode_frames \<lparr> transmission_unit = 8 \<rparr> (\<lambda>b seen. Inr (seen @ [b])) (new_RxCoordinator, []) fs =
      Inr (T, [[1, 2, 3, 4, 5]])) \<and>
   (\<exists>t' fs T. using_writer (failing_once 0)
      (fst (CreateWriter (new_Cs_TxEncoder 8 2) (faulting (failing_once 0)) (replicate 16 9))) ([], False)
      (map Writes (piece_calls [(0, [1, 2, 3]), (1, [4]), (4, [5])])) = Inr (Thrown (t', (fs, True))) \<and>
    cs_decode_frames \<lparr> transmission_unit = 8 \<rparr> (\<lambda>b seen. Inr (seen @ [b])) (new_RxCoordinator, []) fs =
      Inr (T, [[1, 2, 3, 4]]))"
proof -
  have enc: "enc_transmissionUnit (new_Cs_TxEncoder 8 2) = 8" "enc_senderId (new_Cs_TxEncoder 8 2) = 2"
    by (simp_all add: new_Cs_TxEncoder_def)
  show ?thesis
    using broken_messages_are_delivered [of 4 "new_Cs_TxEncoder 8 2" "replicate 16 9"
        "[(0, [1, 2, 3]), (1, [4]), (4, [5])]" "[1, 2, 3, 4, 5]" 0, OF _ _ _ _ _ _ _ _
        prod.collapse [symmetric] prod.collapse [symmetric], of "[Writes (Call_GetSpan 0 [6])]"]
    by (simp add: enc wire_ok_def package_ok_def)
qed

end
