(* ===== verification/Embedded_Link.thy ===== *)
theory Embedded_Link
  imports Embedded_Encode Embedded_Decode Wire
begin

text \<open>
  Messages one after the other through the embedded layer. The message callback of the decoder keeps
  a log (\<open>seen\<close> reads it from the user's state), so that the properties can say how often it is
  called, with what and in which order.
\<close>

section \<open>User callbacks with a log\<close>

text \<open>The message callback appends the message to the log, and storing payload leaves the log alone.\<close>

definition logging_callbacks ::
    "('f, 'm, 'u) mp_pb_decoder_inst \<Rightarrow> 'u payload_setter \<Rightarrow> 'u payload_getter \<Rightarrow> nat \<Rightarrow>
      ('u \<Rightarrow> bool) \<Rightarrow> ('u \<Rightarrow> 'm list) \<Rightarrow> bool" where
  "logging_callbacks inst put get cap ok seen \<longleftrightarrow>
     (\<forall>L. payload_memory put get cap (\<lambda>u. ok u \<and> seen u = L)) \<and>
     (\<forall>m u. ok u \<longrightarrow> (\<exists>m' u'. on_message inst m u = Inr (m', u') \<and> ok u' \<and> seen u' = seen u @ [m]))"

lemma logging_callbacksD:
  assumes "logging_callbacks inst put get cap ok seen"
  shows "payload_memory put get cap (\<lambda>u. ok u \<and> seen u = L)" and "payload_memory put get cap ok"
    and "message_callback inst ok"
    and "ok u \<Longrightarrow> on_message inst m u = Inr (m', u') \<Longrightarrow> seen u' = seen u @ [m]"
proof -
  note memory = assms [unfolded logging_callbacks_def, THEN conjunct1]
  show "payload_memory put get cap (\<lambda>u. ok u \<and> seen u = L)" using memory by blast
  show "payload_memory put get cap ok"
    unfolding payload_memory_def
  proof (intro allI impI)
    fix u and c :: mp_coordinate and d :: "u8 list" and n :: u16
    assume "ok u" "unat n \<le> length d" "unat (coord_offset c) + unat n \<le> cap"
    then show "\<exists>u'. put u c d n = Inr u' \<and> ok u' \<and> take (unat n) (get u' c) = take (unat n) d \<and>
        (\<forall>c' m. same_package c c' \<and> apart c (unat n) c' m \<longrightarrow> take m (get u' c') = take m (get u c'))"
      using memory [rule_format, of "seen u", unfolded payload_memory_def] by blast
  qed
  show "message_callback inst ok"
    using assms by (fastforce simp: logging_callbacks_def message_callback_def)
  show "seen u' = seen u @ [m]" if "ok u" "on_message inst m u = Inr (m', u')"
    using assms [unfolded logging_callbacks_def, THEN conjunct2, rule_format, OF that(1), of m] that(2) by auto
qed

lemma array_logging: "logging_callbacks (array_decoder tu) array_put array_get cap (\<lambda>u. length (fst u) = cap) snd"
  unfolding logging_callbacks_def payload_memory_def
proof (intro conjI allI impI)
  fix L :: "'a list" and u :: "u8 list \<times> 'a list" and c :: mp_coordinate and d :: "u8 list" and n :: u16
  assume "length (fst u) = cap \<and> snd u = L" "unat n \<le> length d" "unat (coord_offset c) + unat n \<le> cap"
  then show "\<exists>u'. array_put u c d n = Inr u' \<and> (length (fst u') = cap \<and> snd u' = L) \<and>
      take (unat n) (array_get u' c) = take (unat n) d \<and>
      (\<forall>c' m. same_package c c' \<and> apart c (unat n) c' m \<longrightarrow>
        take m (array_get u' c') = take m (array_get u c'))"
    using array_put_stores [of u cap n d c] by blast
qed (auto simp: array_decoder_def case_prod_unfold)

text \<open>
  nanopb's reading of a package: it pulls into buffers, stays within the bytes and ends in \<open>decoded bytes\<close>, whatever the
  message held before (\<open>pb_decode\<close> fills it with defaults first). A message that does not decode may
  hold anything.
\<close>

definition decodes ::
    "('f, 'm) pb_decode \<Rightarrow> 'f \<Rightarrow> (u8 list \<Rightarrow> bool \<times> 'm) \<Rightarrow> u8 list \<Rightarrow> bool" where
  "decodes pb_decode out_fields decoded bytes \<longleftrightarrow>
     (\<forall>msg. pulls_within (pb_decode out_fields (length bytes) msg) bytes \<and>
       (case run_bytes (pb_decode out_fields (length bytes) msg) bytes of (r, m) \<Rightarrow>
          r = fst (decoded bytes) \<and> (r \<longrightarrow> m = snd (decoded bytes))))"

section \<open>A sequence of packages\<close>

text \<open>A package with the slices that arrive, in order, the last of them the one that completes it.\<close>

record delivery =
  from_sender :: u8
  package_number :: u8
  last_index :: nat
  package_bytes :: "u8 list"
  early_slices :: "nat list"
  final_slice :: nat

definition arrives :: "u16 \<Rightarrow> delivery \<Rightarrow> u8 list list \<Rightarrow> bool" where
  "arrives mp p fs \<longleftrightarrow>
     package_ok mp (last_index p) (length (package_bytes p)) \<and> wire_ok mp (from_sender p) \<and>
     set (early_slices p) \<union> {final_slice p} = {..last_index p} \<and> set (early_slices p) \<noteq> {..last_index p} \<and>
     list_all2 (carries_slice mp (from_sender p) (package_number p) (last_index p) (package_bytes p))
       (early_slices p @ [final_slice p]) fs"

text \<open>
  What the calls return: the last of a package the result of its decoding, the others the result of
  the decoding before.
\<close>

fun call_results :: "(u8 list \<Rightarrow> bool \<times> 'm) \<Rightarrow> bool \<Rightarrow> delivery list \<Rightarrow> bool list" where
  "call_results decoded prev [] = []"
| "call_results decoded prev (p # ps) =
     (let r = fst (decoded (package_bytes p))
      in replicate (length (early_slices p)) prev @ r # call_results decoded r ps)"

definition decoded_messages :: "(u8 list \<Rightarrow> bool \<times> 'm) \<Rightarrow> delivery list \<Rightarrow> 'm list" where
  "decoded_messages decoded ps = [snd (decoded (package_bytes p)). p \<leftarrow> ps, fst (decoded (package_bytes p))]"

lemma decoded_messages_simps [simp]:
  "decoded_messages decoded [] = []"
  "decoded_messages decoded (p # ps) =
    (if fst (decoded (package_bytes p)) then [snd (decoded (package_bytes p))] else []) @
      decoded_messages decoded ps"
  by (simp_all add: decoded_messages_def)

lemma decoded_messages_all:
  "\<forall>p\<in>set ps. fst (decoded (package_bytes p)) \<Longrightarrow>
    decoded_messages decoded ps = map (\<lambda>p. snd (decoded (package_bytes p))) ps"
  by (induction ps) simp_all

lemma call_results_all:
  "\<forall>p\<in>set ps. fst (decoded (package_bytes p)) \<Longrightarrow> r \<in> set (call_results decoded True ps) \<Longrightarrow> r"
  by (induction ps) (auto simp: Let_def)

lemma length_decode_frames: "decode_frames s w fs = Inr (oks, w') \<Longrightarrow> length oks = length fs"
  by (induction fs arbitrary: w oks) (auto simp: bindE_eq_Inr case_prod_unfold)

text \<open>One package: the log grows by the message, if there is one.\<close>

lemma decode_delivery:
  assumes log: "logging_callbacks inst put get cap ok seen" and idle: "dec_idle put get cap ok w"
    and p: "arrives (mp_max_payload (dec_config inst)) p fs" "length (package_bytes p) \<le> cap"
      "decodes pb_decode (output_fields inst) decoded (package_bytes p)"
  shows "\<exists>w'. decode_frames (dec_stream pb_decode inst put get) w fs =
      Inr (call_results decoded (last_decode_ok w) [p], w') \<and>
    dec_idle put get cap ok w' \<and> last_decode_ok w' = fst (decoded (package_bytes p)) \<and>
    seen (dec_user w') = seen (dec_user w) @ decoded_messages decoded [p]"
proof -
  let ?ok = "\<lambda>u. ok u \<and> seen u = seen (dec_user w)" and ?b = "package_bytes p"
  note logD = logging_callbacksD [OF log]
  note pD = p(1) [unfolded arrives_def]
  obtain r m where rm: "run_bytes (pb_decode (output_fields inst) (length ?b) (dec_msg w)) ?b = (r, m)"
    by (cases "run_bytes (pb_decode (output_fields inst) (length ?b) (dec_msg w)) ?b")
  have nano: "pulls_within (pb_decode (output_fields inst) (length ?b) (dec_msg w)) ?b"
      "r = fst (decoded ?b)" "r \<Longrightarrow> m = snd (decoded ?b)"
    using p(3) [unfolded decodes_def, rule_format, of "dec_msg w"] rm by simp_all
  have "dec_idle put get cap ?ok w" using idle logD(1) by (simp add: dec_idle_def dec_ok_def)
  moreover have "\<forall>u. ?ok u \<longrightarrow> ok u" by simp
  ultimately obtain w' where w': "decode_frames (dec_stream pb_decode inst put get) w fs =
        Inr (replicate (length (early_slices p)) (last_decode_ok w) @ [last_decode_ok w'], w')"
      "dec_done pb_decode inst put get cap ?ok ok ?b (dec_msg w) w'"
    using decode_package_to [OF _ logD(3,2)] p(2) pD nano(1) by blast
  have after: "dec_idle put get cap ok w'" "last_decode_ok w' = r"
      "if r then \<exists>u. ?ok u \<and> on_message inst m u = Inr (dec_msg w', dec_user w')
       else dec_msg w' = m \<and> ?ok (dec_user w')"
    using w'(2) [unfolded dec_done_def rm prod.case] by blast+
  have "seen (dec_user w') = seen (dec_user w) @ (if r then [m] else [])"
    using after(3) logD(4) by (cases r) fastforce+
  then show ?thesis using w'(1) after(1,2) nano(2,3) by auto
qed

text \<open>Packages one after the other.\<close>

lemma decode_deliveries:
  assumes log: "logging_callbacks inst put get cap ok seen"
    and "list_all2 (arrives (mp_max_payload (dec_config inst))) ps fss"
    and "\<forall>p\<in>set ps. length (package_bytes p) \<le> cap \<and>
      decodes pb_decode (output_fields inst) decoded (package_bytes p)"
    and "dec_idle put get cap ok w"
  shows "\<exists>w'. decode_frames (dec_stream pb_decode inst put get) w (concat fss) =
      Inr (call_results decoded (last_decode_ok w) ps, w') \<and> dec_idle put get cap ok w' \<and>
    seen (dec_user w') = seen (dec_user w) @ decoded_messages decoded ps"
  using assms(2-)
proof (induction ps fss arbitrary: w rule: list_all2_induct)
  case (Cons p ps fs fss)
  obtain w1 where w1: "decode_frames (dec_stream pb_decode inst put get) w fs =
        Inr (call_results decoded (last_decode_ok w) [p], w1)"
      "dec_idle put get cap ok w1" "last_decode_ok w1 = fst (decoded (package_bytes p))"
      "seen (dec_user w1) = seen (dec_user w) @ decoded_messages decoded [p]"
    using decode_delivery [OF log Cons.prems(2) Cons.hyps(1), of pb_decode decoded] Cons.prems(1) by auto
  then show ?case
    using Cons.IH [OF _ w1(2)] Cons.prems(1) by (auto simp: decode_frames_append Let_def)
qed simp

text \<open>From the start.\<close>

lemma decode_packages_init:
  assumes "logging_callbacks inst put get cap ok seen" and "ok (dec_user w0)"
    and "mp_pb_decode_init pb_decode inst put get w0 = (s, w)"
    and "list_all2 (arrives (mp_max_payload (dec_config inst))) ps fss"
    and "\<forall>p\<in>set ps. length (package_bytes p) \<le> cap \<and>
      decodes pb_decode (output_fields inst) decoded (package_bytes p)"
  shows "\<exists>w'. decode_frames s w (concat fss) = Inr (call_results decoded True ps, w') \<and>
    seen (dec_user w') = seen (dec_user w0) @ decoded_messages decoded ps"
proof -
  have w: "s = dec_stream pb_decode inst put get" "last_decode_ok w" "dec_user w = dec_user w0"
      "dec_idle put get cap ok w"
    using assms(2,3) logging_callbacksD(2) [OF assms(1)]
    by (auto simp: decode_init_stream dec_idle_def dec_ok_def bitmap_wf_def zero_state_def)
  from decode_deliveries [OF assms(1,4,5) w(4)] show ?thesis by (auto simp: w)
qed

section \<open>The encoder's side\<close>

text \<open>Messages handed to the encoder one after the other, each with the package number the caller gives it.\<close>

fun encode_messages ::
    "('f, 'm) pb_encode \<Rightarrow> 'u mp_pb_encoder_inst \<Rightarrow> 'u \<Rightarrow> 'f \<Rightarrow> ('m \<times> u8) list \<Rightarrow> (bool list \<times> 'u) res" where
  "encode_messages pb_encode inst u msg_fields [] = Inr ([], u)"
| "encode_messages pb_encode inst u msg_fields ((m, package) # ms) =
     bindE (mp_pb_encode pb_encode inst u msg_fields m package) (\<lambda>(ok, u1).
       bindE (encode_messages pb_encode inst u1 msg_fields ms) (\<lambda>(oks, u'). Inr (ok # oks, u')))"

text \<open>nanopb writes \<open>bytes_of m\<close> for \<open>m\<close>, in pieces of less than 65536 bytes.\<close>

definition encodes :: "('f, 'm) pb_encode \<Rightarrow> 'f \<Rightarrow> ('m \<Rightarrow> u8 list) \<Rightarrow> 'm \<Rightarrow> bool" where
  "encodes pb_encode msg_fields bytes_of m \<longleftrightarrow>
     (case pb_encode msg_fields m of (pieces, ok) \<Rightarrow>
        ok \<and> concat pieces = bytes_of m \<and> list_all (\<lambda>d. length d < 65536) pieces)"

lemma encode_messages_send:
  assumes dev: "block_device inst mp ok block frames" and mp: "mp = mp_max_payload (enc_config inst)"
    and tu: "4 < unat (transmission_unit (enc_config inst))"
    and ms: "\<forall>(m, package)\<in>set ms. encodes pb_encode msg_fields bytes_of m \<and> bytes_of m \<noteq> []"
    and u: "ok u"
  shows "\<exists>u' fss. encode_messages pb_encode inst u msg_fields ms = Inr (replicate (length ms) True, u') \<and>
    frames u' = frames u @ concat fss \<and>
    list_all2 (\<lambda>(m, package) fs. package_frames mp (enc_sender_id inst) package (bytes_of m) fs) ms fss"
  using ms u
proof (induction ms arbitrary: u)
  case Nil
  then show ?case by simp
next
  case (Cons x ms)
  obtain m package where x: "x = (m, package)" by (cases x)
  obtain pieces where pieces: "pb_encode msg_fields m = (pieces, True)" "concat pieces = bytes_of m"
      "list_all (\<lambda>d. length d < 65536) pieces" "concat pieces \<noteq> []"
    using Cons.prems(1) x by (auto simp: encodes_def)
  obtain u1 fs where one: "mp_pb_encode pb_encode inst u msg_fields m package = Inr (True, u1)" "ok u1"
      "frames u1 = frames u @ fs" "package_frames mp (enc_sender_id inst) package (bytes_of m) fs"
    using encode_package [where pb_encode = pb_encode and package = package, OF dev [unfolded mp] Cons.prems(2) tu
        pieces(1,4,3)] by (auto simp: mp pieces(2))
  obtain u' fss where "encode_messages pb_encode inst u1 msg_fields ms = Inr (replicate (length ms) True, u')"
      "frames u' = frames u1 @ concat fss"
      "list_all2 (\<lambda>(m, package) fs. package_frames mp (enc_sender_id inst) package (bytes_of m) fs) ms fss"
    using Cons.IH [OF _ one(2)] Cons.prems(1) by auto
  then show ?case using one x by (intro exI [of _ u'] exI [of _ "fs # fss"]) simp
qed

text \<open>The slices that arrive of each message, picked out of its frames.\<close>

definition delivery_of :: "u16 \<Rightarrow> u8 \<Rightarrow> ('m \<Rightarrow> u8 list) \<Rightarrow> 'm \<times> u8 \<Rightarrow> nat list \<times> nat \<Rightarrow> delivery" where
  "delivery_of mp sender bytes_of x order =
     \<lparr> from_sender = sender, package_number = snd x,
       last_index = length (bytes_of (fst x)) div unat mp, package_bytes = bytes_of (fst x),
       early_slices = fst order, final_slice = snd order \<rparr>"

definition pick_frames :: "u8 list list \<Rightarrow> nat list \<times> nat \<Rightarrow> u8 list list" where
  "pick_frames fs order = map (nth fs) (fst order @ [snd order])"

definition complete_order :: "nat \<Rightarrow> nat list \<times> nat \<Rightarrow> bool" where
  "complete_order k order \<longleftrightarrow> set (fst order) \<union> {snd order} = {..k} \<and> set (fst order) \<noteq> {..k}"

lemma picked_arrive:
  assumes "package_ok mp (length (bytes_of m) div unat mp) (length (bytes_of m))" and "wire_ok mp sender"
    and "package_frames mp sender package (bytes_of m) fs"
    and "complete_order (length (bytes_of m) div unat mp) order"
  shows "arrives mp (delivery_of mp sender bytes_of (m, package) order) (pick_frames fs order)"
proof -
  have "\<forall>j\<in>set (fst order @ [snd order]). j \<le> length (bytes_of m) div unat mp"
    using assms(4) by (auto simp: complete_order_def)
  from package_frames_arrive [OF assms(1-3) this] assms show ?thesis
    by (simp add: arrives_def delivery_of_def pick_frames_def complete_order_def)
qed

section \<open>Properties\<close>

text \<open>C19: The embedded decoder receives packages one after the other, those too that nanopb cannot decode. The
  slices of each arrive in any order with repetitions up to the last missing one: the message callback
  is called once for every package that decodes, with its message and in the order of the packages,
  and never otherwise; the last call for a package returns the result of its decoding, and every call
  before it the result of the package before, so that behind a package that failed the calls return
  false until the next one is complete. The packages fit the decoder's memory, and nanopb pulls into
  buffers no more bytes than are left.\<close>

theorem decoder_delivers_packages:
  assumes "logging_callbacks inst put get cap ok seen" and "ok (dec_user w0)"
    and "mp_pb_decode_init pb_decode inst put get w0 = (s, w)"
    and "list_all2 (arrives (mp_max_payload (dec_config inst))) ps fss"
    and "\<forall>p\<in>set ps. length (package_bytes p) \<le> cap \<and>
      decodes pb_decode (output_fields inst) decoded (package_bytes p)"
  shows "\<exists>w'. decode_frames s w (concat fss) = Inr (call_results decoded True ps, w') \<and>
    seen (dec_user w') = seen (dec_user w0) @ decoded_messages decoded ps"
  using assms by (rule decode_packages_init)

text \<open>A message that fails between two that decode, and the result of the first call for the third package.\<close>

theorem decoder_delivers_packages_witness:
  "\<exists>w'. decode_frames (fst (mp_pb_decode_init sized_decode (array_decoder 8) array_put array_get
        \<lparr> dec_state = zero_state, last_decode_ok = False, dec_msg = [], dec_user = (replicate 16 0, []) \<rparr>))
      (snd (mp_pb_decode_init sized_decode (array_decoder 8) array_put array_get
        \<lparr> dec_state = zero_state, last_decode_ok = False, dec_msg = [], dec_user = (replicate 16 0, []) \<rparr>))
      [slice_frame 4 3 9 0 [2, 7, 8] 0, slice_frame 4 3 10 0 [9, 1] 0,
       slice_frame 4 3 11 1 [5, 1, 2, 3, 4, 5] 1, slice_frame 4 3 11 1 [5, 1, 2, 3, 4, 5] 1,
       slice_frame 4 3 11 1 [5, 1, 2, 3, 4, 5] 0] = Inr ([True, False, False, False, True], w') \<and>
    snd (dec_user w') = [[7, 8], [1, 2, 3, 4, 5]]"
proof -
  let ?w = "\<lparr> dec_state = zero_state, last_decode_ok = False, dec_msg = [],
    dec_user = (replicate 16 0, []) \<rparr> :: (u8 list, u8 list \<times> u8 list list) dec_world"
  let ?decoded = "\<lambda>b :: u8 list. (length b = Suc (unat (hd b)), tl b)"
  let ?ps = "[\<lparr> from_sender = 3, package_number = 9, last_index = 0, package_bytes = [2, 7, 8],
      early_slices = [], final_slice = 0 \<rparr>,
    \<lparr> from_sender = 3, package_number = 10, last_index = 0, package_bytes = [9, 1],
      early_slices = [], final_slice = 0 \<rparr>,
    \<lparr> from_sender = 3, package_number = 11, last_index = 1, package_bytes = [5, 1, 2, 3, 4, 5],
      early_slices = [1, 1], final_slice = 0 \<rparr>]"
  let ?fss = "[[slice_frame 4 3 9 0 [2, 7, 8] 0], [slice_frame 4 3 10 0 [9, 1] 0],
    [slice_frame 4 3 11 1 [5, 1, 2, 3, 4, 5] 1, slice_frame 4 3 11 1 [5, 1, 2, 3, 4, 5] 1,
     slice_frame 4 3 11 1 [5, 1, 2, 3, 4, 5] 0]]"
  have mp: "mp_max_payload (dec_config (array_decoder 8)) = 4"
    by (simp add: array_decoder_def mp_max_payload_def MP_HEADER_SIZE_def)
  have carries: "carries_slice 4 3 9 0 [2, 7, 8] 0 (slice_frame 4 3 9 0 [2, 7, 8] 0)"
      "carries_slice 4 3 10 0 [9, 1] 0 (slice_frame 4 3 10 0 [9, 1] 0)"
      "\<And>i. i \<le> 1 \<Longrightarrow> carries_slice 4 3 11 1 [5, 1, 2, 3, 4, 5] i (slice_frame 4 3 11 1 [5, 1, 2, 3, 4, 5] i)"
    by (rule slice_frame_carries(1); simp add: package_ok_def wire_ok_def)+
  have sets: "{1} \<noteq> {..1 :: nat}" "{0, 1} = {..1 :: nat}" by (auto simp: atMost_Suc)
  have "list_all2 (arrives 4) ?ps ?fss"
    using sets carries(1,2) carries(3) [of 0, simplified] carries(3) [of 1, simplified]
    by (simp add: arrives_def insert_commute package_ok_def wire_ok_def)
  moreover have "\<forall>p\<in>set ?ps. length (package_bytes p) \<le> 16 \<and>
      decodes sized_decode (output_fields (array_decoder 8)) ?decoded (package_bytes p)"
    by (simp add: decodes_def sized_decode_def)
  ultimately show ?thesis
    using decoder_delivers_packages [OF array_logging [of 8 16], where pb_decode = sized_decode and ?w0.0 = ?w
        and ps = ?ps and fss = ?fss and decoded = ?decoded, unfolded mp]
    by (simp add: decode_init_stream Let_def)
qed

text \<open>C3: Messages go through the embedded layer one after the other. Whatever package numbers the
  caller gives them, each message is encoded as one package; if the frames of each reach the decoder in
  any order, any of them any number of times, up to the last missing one, every call on both sides
  succeeds, and the message callback is called exactly once for every message, in the order they were
  sent, with what nanopb decodes from its encoding. The messages are not empty, within the 16-bit
  offsets of a package and the decoder's memory, and nanopb pulls into buffers no more bytes than are
  left.\<close>

theorem embedded_messages_roundtrip:
  assumes device: "block_device einst mp eok block frames" "eok eu" "mp = mp_max_payload (enc_config einst)"
      "4 < unat (transmission_unit (enc_config einst))" "wire_ok mp (enc_sender_id einst)"
    and ms: "\<forall>(m, package)\<in>set ms. encodes pb_encode msg_fields bytes_of m \<and>
      package_ok mp (length (bytes_of m) div unat mp) (length (bytes_of m)) \<and> length (bytes_of m) \<le> cap \<and>
      decodes pb_decode (output_fields dinst) (\<lambda>b. (True, parse b)) (bytes_of m)"
    and decoder: "dec_config dinst = enc_config einst" "logging_callbacks dinst put get cap dok seen"
      "dok (dec_user w0)" "mp_pb_decode_init pb_decode dinst put get w0 = (s, w)"
    and order: "list_all2 (\<lambda>(m, package). complete_order (length (bytes_of m) div unat mp)) ms orders"
  shows "\<exists>eu' fss arrived w'.
    encode_messages pb_encode einst eu msg_fields ms = Inr (replicate (length ms) True, eu') \<and>
    frames eu' = frames eu @ concat fss \<and> arrived = concat (map2 pick_frames fss orders) \<and>
    decode_frames s w arrived = Inr (replicate (length arrived) True, w') \<and>
    seen (dec_user w') = seen (dec_user w0) @ map (\<lambda>(m, package). parse (bytes_of m)) ms"
proof -
  let ?decoded = "\<lambda>b. (True, parse b)" and ?sender = "enc_sender_id einst"
  let ?ps = "map2 (delivery_of mp ?sender bytes_of) ms orders"
  have mp: "mp_max_payload (dec_config dinst) = mp" by (simp add: device(3) decoder(1))
  have len: "length orders = length ms" using order by (simp add: list_all2_lengthD)
  have "\<forall>(m, package)\<in>set ms. encodes pb_encode msg_fields bytes_of m \<and> bytes_of m \<noteq> []"
    using ms package_okD(4) by fastforce
  from encode_messages_send [OF device(1,3,4) this device(2)] obtain eu' fss where
      sent: "encode_messages pb_encode einst eu msg_fields ms = Inr (replicate (length ms) True, eu')"
        "frames eu' = frames eu @ concat fss"
        "list_all2 (\<lambda>(m, package) fs. package_frames mp ?sender package (bytes_of m) fs) ms fss"
    by blast
  have "list_all2 (arrives mp) ?ps (map2 pick_frames fss orders)"
  proof (rule list_all2_all_nthI)
    show "length ?ps = length (map2 pick_frames fss orders)"
      using len list_all2_lengthD [OF sent(3)] by simp
    fix j assume "j < length ?ps"
    then have j: "j < length ms" "j < length orders" "j < length fss"
      using len list_all2_lengthD [OF sent(3)] by simp_all
    obtain m package where m: "ms ! j = (m, package)" by (cases "ms ! j")
    have "package_ok mp (length (bytes_of m) div unat mp) (length (bytes_of m))"
      using ms nth_mem [OF j(1)] m by auto
    then show "arrives mp (?ps ! j) (map2 pick_frames fss orders ! j)"
      using picked_arrive [OF _ device(5)] list_all2_nthD [OF sent(3) j(1)] list_all2_nthD [OF order j(1)] m j
      by simp
  qed
  moreover have "\<forall>p\<in>set ?ps. length (package_bytes p) \<le> cap \<and>
      decodes pb_decode (output_fields dinst) ?decoded (package_bytes p)"
    using ms by (auto simp: delivery_of_def dest!: set_zip_leftD)
  ultimately obtain w' where got: "decode_frames s w (concat (map2 pick_frames fss orders)) =
        Inr (call_results ?decoded True ?ps, w')"
      "seen (dec_user w') = seen (dec_user w0) @ decoded_messages ?decoded ?ps"
    using decode_packages_init [OF decoder(2-4), where ps = ?ps and decoded = ?decoded, unfolded mp] by blast
  have "call_results ?decoded True ?ps = replicate (length (concat (map2 pick_frames fss orders))) True"
    using length_decode_frames [OF got(1)] call_results_all [of ?ps ?decoded] by (auto intro!: replicate_eqI)
  moreover have "decoded_messages ?decoded ?ps = map (\<lambda>(m, package). parse (bytes_of m)) ms"
    using len by (auto simp: decoded_messages_all delivery_of_def case_prod_unfold intro!: nth_equalityI)
  ultimately show ?thesis using sent(1,2) got by auto
qed

theorem embedded_messages_roundtrip_witness:
  "\<exists>eu' fss arrived w'.
    encode_messages (\<lambda>(f :: unit) m. ([[of_nat (length m)], m], True)) (memory_device 8 3)
      (replicate 8 0, []) () [([7, 8], 9), ([1, 2, 3, 4, 5], 4)] = Inr ([True, True], eu') \<and>
    snd eu' = concat fss \<and> arrived = concat (map2 pick_frames fss [([], 0), ([1, 1], 0)]) \<and>
    decode_frames (fst (mp_pb_decode_init sized_decode (array_decoder 8) array_put array_get
        \<lparr> dec_state = zero_state, last_decode_ok = False, dec_msg = [], dec_user = (replicate 16 0, []) \<rparr>))
      (snd (mp_pb_decode_init sized_decode (array_decoder 8) array_put array_get
        \<lparr> dec_state = zero_state, last_decode_ok = False, dec_msg = [], dec_user = (replicate 16 0, []) \<rparr>))
      arrived = Inr (replicate (length arrived) True, w') \<and>
    snd (dec_user w') = [[7, 8], [1, 2, 3, 4, 5]]"
proof -
  let ?w = "\<lparr> dec_state = zero_state, last_decode_ok = False, dec_msg = [],
    dec_user = (replicate 16 0, []) \<rparr> :: (u8 list, u8 list \<times> u8 list list) dec_world"
  let ?enc = "memory_device 8 3" and ?ms = "[([7, 8], 9), ([1, 2, 3, 4, 5], 4)] :: (u8 list \<times> u8) list"
    and ?bytes_of = "\<lambda>m :: u8 list. of_nat (length m) # m" and ?orders = "[([], 0), ([1, 1], 0)] :: (nat list \<times> nat) list"
    and ?pb_encode = "\<lambda>(f :: unit) m :: u8 list. ([[of_nat (length m)], m], True)"
  have mp: "4 = mp_max_payload (enc_config ?enc)" and tu: "4 < unat (transmission_unit (enc_config ?enc))"
    and wire: "wire_ok 4 (enc_sender_id ?enc)" and cfg: "dec_config (array_decoder 8) = enc_config ?enc"
    by (simp_all add: array_decoder_def memory_device_def mp_max_payload_def MP_HEADER_SIZE_def wire_ok_def)
  have dev: "block_device ?enc 4 (\<lambda>u. length (fst u) = 8) fst snd"
    using memory_device_ok [of 8 3 4] by simp
  have ms: "\<forall>(m, package)\<in>set ?ms. encodes ?pb_encode () ?bytes_of m \<and>
      package_ok 4 (length (?bytes_of m) div unat (4 :: u16)) (length (?bytes_of m)) \<and> length (?bytes_of m) \<le> 16 \<and>
      decodes sized_decode (output_fields (array_decoder 8)) (\<lambda>b. (True, tl b)) (?bytes_of m)"
    by (simp add: encodes_def package_ok_def decodes_def sized_decode_def)
  have sets: "{1} \<noteq> {..1 :: nat}" "{0, 1} = {..1 :: nat}" by (auto simp: atMost_Suc)
  then have order: "list_all2 (\<lambda>(m, package). complete_order (length (?bytes_of m) div unat (4 :: u16))) ?ms ?orders"
    by (simp add: complete_order_def insert_commute)
  show ?thesis
    using embedded_messages_roundtrip [OF dev _ mp tu wire ms cfg array_logging _ prod.collapse [symmetric] order,
        of "(replicate 8 0, [])" ?w] by simp
qed

end
