(* ===== verification/Spec2Isabelle.thy ===== *)
theory Spec2Isabelle
  imports Tools_Main Embedded_Decode Link Cpp_Threads Cpp_Generations Bindings Exceptions Cs_Abort Embedded_Link
begin

text \<open>
  \<^bold>\<open>A verification development for MasterPilot-CustomData.\<close>

  The program carries packages of bytes over a link whose blocks have one fixed size, the
  transmission unit. A sender cuts a package into slices of at most the maximum payload (the
  unit less the four bytes of the header), numbers them, marks the last one and sends each as
  one block. A receiver takes the blocks in any order and with repetitions, reports for each
  slice whether it is new, in order, or completes the package, and hands the bytes on. The C
  core is a set of pure operators with two thin streams around them; command line tools and an
  embedded layer for nanopb are built on the streams, and every effect reaches the core
  through callbacks. The C++ binding for protobuf uses the pure operators directly: its encoder
  is a \<open>ZeroCopyOutputStream\<close>, and its decoder keeps a table with a slot for every sender and
  package number, where the tools and the embedded decoder receive one package at a time. The C#
  binding calls the exported operators: its encoder is an \<open>IBufferWriter\<close>, its decoder keeps the
  same table.

  \<^bold>\<open>Theories and the files they model.\<close>

  \<^item> \<open>Prelude\<close>: widths of the C integers, faults and their sequencing (\<open>bindE\<close>), byte buffers
    with checked reads and writes, little-endian integers, cutting a list into slices.
  \<^item> \<open>Common\<close>: \<open>src/core/customdata-common.h\<close>, the structs, the header codec, slice numbers
    and offsets. Lemmas: the codec bit by bit, both round trips, the range of the arithmetic.
  \<^item> \<open>Tx\<close>: \<open>src/core/customdata-tx.h\<close>, header and next coordinate of a slice.
  \<^item> \<open>Rx\<close>: \<open>src/core/customdata-rx.h\<close>, the slice state, its transition and the watermark scan.
    Lemmas: the bitmap as a set of slices, the scan as a least stopping point.
  \<^item> \<open>Package\<close>: the abstract state of a package, the set of slices that have arrived, how the C
    struct represents it (\<open>package_view\<close>), the refinement of one transition
    (\<open>step_package_refines\<close>) and of arrival sequences (\<open>run_package\<close>).
  \<^item> \<open>Stream_Tx\<close>: \<open>src/core/customdata-stream-tx.h\<close> and \<open>.c\<close>. The locale \<open>tx_sink\<close> is what a
    downstream promises; inside it feeding and finalizing send the frames of the package.
  \<^item> \<open>Stream_Rx\<close>: \<open>src/core/customdata-stream-rx.h\<close> and \<open>.c\<close>. The locales \<open>rx_state_store\<close> and,
    extending it, \<open>rx_payload_store\<close> are what a coordinator promises; inside them a frame of a
    package is received as its slice, and payloads stay where they were put. The locale
    \<open>rx_client\<close> is what a downstream keeps for each new slice; inside it the frames of a whole
    package lead, in any order, from its first state to its last.
  \<^item> \<open>Wire\<close>: the frames of a package as they lie on the wire, the same for all senders
    (\<open>frame_carries\<close>, \<open>carries_slice\<close>), and what a receiver reads in them.
  \<^item> \<open>Interleaving\<close>: the abstract receiver of many packages, a map from packages to the sets of
    slices seen, and its completed packages in order (\<open>arrivals_run\<close>). The locale \<open>package_table\<close>
    is what a receiver with a table of packages promises for one frame; inside it whole mixtures
    of frames are received as the abstract receiver prescribes.
  \<^item> \<open>Os\<close>: \<open>read\<close> and \<open>write\<close> with the answers of the coming calls, and the loops around them.
  \<^item> \<open>Session\<close>: \<open>src/tools/session.h\<close> and \<open>session.c\<close>, the session files.
  \<^item> \<open>Tools_Args\<close>: \<open>src/tools/main.c\<close> without \<open>main\<close>, options and the \<open>config\<close> command.
  \<^item> \<open>Tools_Tx\<close>: \<open>src/tools/tx.c\<close>; interprets \<open>tx_sink\<close> on \<open>push_cb\<close>.
  \<^item> \<open>Tools_Rx\<close>: \<open>src/tools/rx.c\<close>; interprets \<open>rx_payload_store\<close> on the session's coordinator and
    \<open>rx_client\<close> on the command's event callback.
  \<^item> \<open>Tools_Main\<close>: the function \<open>main\<close> of \<open>src/tools/main.c\<close>.
  \<^item> \<open>Embedded_Encode\<close>: \<open>src/embedded/customdata-embedded-encode.h\<close> and \<open>.c\<close>; interprets \<open>tx_sink\<close>
    on \<open>mp_tx_push_pipeline\<close>. \<open>block_device\<close> is what the two user callbacks have to do.
  \<^item> \<open>Embedded_Decode\<close>: \<open>src/embedded/customdata-embedded-decode.h\<close> and \<open>.c\<close>; the pull stream is
    shown equal to a plain buffer for every \<open>rx_payload_store\<close>, and \<open>rx_payload_store\<close> and
    \<open>rx_client\<close> are interpreted on the decoder. \<open>payload_memory\<close> and \<open>message_callback\<close> are what the
    user callbacks have to do.
  \<^item> \<open>Embedded_Link\<close>: messages one after the other from the embedded encoder to the embedded decoder,
    with callbacks that keep a log (\<open>logging_callbacks\<close>), packages that fail to decode among them.
  \<^item> \<open>Link\<close>: a link that reorders, repeats and loses frames in front of \<open>src/tools/rx.c\<close>, as a
    step relation that records what has arrived, the invariant of its reachable states, in which the
    output is a function of the arrivals (\<open>copies_and_rest\<close>), and runs over schedules that let every
    slice through again and again (\<open>link_fair\<close>), on which delivery never stops.
  \<^item> \<open>Coordinator\<close>: the class \<open>Coordinator\<close> of \<open>src/cpp/customdata-protobuf-rx.cpp\<close>, slots and
    generations. Lemmas: slots of different packages do not touch each other, a slot of the
    current generation keeps what was put there, and which numbers start a generation.
  \<^item> \<open>Cpp_Rx\<close>: the rest of that file and \<open>customdata-protobuf-rx.hpp\<close>, the decoder; interprets
    \<open>package_table\<close> on the decoder's table.
  \<^item> \<open>Cpp_Generations\<close>: what a new generation does not empty, an end that came without its package.
  \<^item> \<open>Cpp_Tx\<close>: \<open>src/cpp/customdata-protobuf-tx.cpp\<close> and \<open>.hpp\<close>, the stream and the encoder.
    Lemmas: the frames it hands to its observer, for any observer.
  \<^item> \<open>Messages\<close>: the messages of one sender as packages with consecutive numbers.
  \<^item> \<open>Cpp_Link\<close>: messages from the C++ encoder to the C++ decoder.
  \<^item> \<open>Cpp_Threads\<close>: calls of \<open>TxEncoderCore::Push\<close> on several threads that take turns. A call is a job
    (\<open>job_step\<close> is one turn of it), a schedule any list of jobs; taken alone a job is the function
    \<open>TxEncoderCore_Push\<close> (\<open>job_alone\<close>). The invariant \<open>jobs_inv\<close> says which slices of which job are on
    the wire, and which its stream has still to send.
  \<^item> \<open>Cs_Rx\<close>: \<open>src/csharp/RxCoordinator.cs\<close>, \<open>RxDecoder.cs\<close> and the property of
    \<open>HeaderMetaExtension.cs\<close>. Lemmas: the C# table simulates
    the C++ table step by step (\<open>table_sim\<close>), so that what holds of the one decoder carries over,
    and the invariant that every array reaches to the known end of its package (\<open>ends_held\<close>).
  \<^item> \<open>Cs_Tx\<close>: \<open>src/csharp/TxEncoder.cs\<close>, the writer and the encoder. Lemmas: the frames it sends
    for a message written in any pieces that fit (\<open>pieces_fit\<close>).
  \<^item> \<open>Cs_Link\<close>: messages from the C# encoder to the C# decoder.
  \<^item> \<open>Exceptions\<close>: the same two decoders with an observer or callback that may throw and a caller that
    catches the exception. A call ends with \<open>Returned\<close> or \<open>Thrown\<close> and leaves a state either way;
    with a fault in place of \<open>Thrown\<close> it is the function of \<open>Cpp_Rx\<close> or \<open>Cs_Rx\<close>
    (\<open>push_ending_res\<close>, \<open>decode_ending_res\<close>). The abstract receiver is \<open>catching_run\<close>.
  \<^item> \<open>Cs_Abort\<close>: the C# writer in a \<open>using\<close> block that is left by an exception, of its client or of its
    callback (\<open>using_writer\<close>). Lemmas: without exceptions these are the operations of \<open>Cs_Tx\<close>
    (\<open>client_lift\<close>), and what \<open>Dispose\<close> sends of a message that was broken off.
  \<^item> \<open>Bindings\<close>: packages of the embedded, the C++ and the C# encoder mixed on one link, at the C++
    and at the C# decoder.
  \<^item> This theory: the properties that span sender and receiver.

  \<^bold>\<open>How state and effects are modelled.\<close> A struct is a record, an enum a datatype, a C integer
  a word of its width. A function that can divide by zero, reach outside a buffer, fail to end
  or exit the process returns \<open>fault + 'a\<close>. A callback with its \<open>void *\<close> is a function on a
  state \<open>'w\<close>, the memory behind that pointer; a data pointer is the list of the bytes that may
  be read from it. Loops are recursive functions with a measure. The one loop of the code that
  may not end, the watermark scan, runs on fuel 65536: the watermark has 16 bits, so a scan that
  is still running then has come back to where it was (\<open>watermark_loop_fuel_exact\<close>) and the
  result is \<open>Diverges\<close>. The flush and the block loop of \<open>rx\<close> cannot progress for a maximum payload
  or a unit of 0, which is \<open>Diverges\<close> too.

  \<^bold>\<open>What the properties assume.\<close> \<open>package_ok mp k L\<close> describes a package of \<open>L > 0\<close> bytes in
  slices 0 to \<open>k\<close> whose offsets, and the end of whose last data slice, fit in 16 bits;
  \<open>wire_ok\<close> says that sender and payload size fit their bits in the header. \<open>keys_ok\<close> says that the
  packages of one sender that the C++ decoder receives mixed have numbers within 127 of each
  other, the window in which no generation ends. The development also proves what happens
  outside: packages near 65536 bytes, empty packages, a wrap of the package number.

  \<^bold>\<open>What is not modelled.\<close> Messages on stderr, failures of \<open>fstat\<close>, \<open>pread\<close>, \<open>mmap\<close> and
  \<open>malloc\<close>, the contents of the session files when a process is ended by \<open>exit(1)\<close>, concurrent
  use of a session. \<open>getopt_long\<close> is a parameter of \<open>main\<close>. The header of a received frame is read
  little-endian, as on every target of the library. nanopb is a parameter of the embedded layer:
  \<open>pb_encode\<close> is the list of the pieces it writes and its result, \<open>pb_decode\<close> the program of the
  pulls it makes; the properties ask of it only that every pull is into a buffer and of no more bytes
  than are left (\<open>pulls_within\<close>) and, for the round trip, name what it decodes. The pull callback is
  modelled for a NULL buffer too, with the pointer the code advances (\<open>pull_buf\<close>): such a pull must not
  go on behind the end of a slice (C20). User callbacks act on a state of
  their own and do not change the instance they serve. protobuf is a parameter of the C++ binding:
  \<open>SerializeToZeroCopyStream\<close> is the calls it makes of the stream, with the bytes it writes, and its
  result (\<open>serializer\<close>; \<open>zc_calls\<close> are the calls of a serializer that fills every buffer), and
  \<open>New\<close> with \<open>ParseFromArray\<close> is a function from bytes to a message or none. Of the arena only the
  number of its messages is kept. Threads take turns at the calls of the stream; the memory order of
  the package counter, calls of the observer that overlap, and calls of \<open>Push\<close> from the observer
  are left out; a failing \<open>assert\<close> is the fault of the read it guards; \<open>int\<close> and
  \<open>int64_t\<close> sizes are integers. The export unit \<open>src/core/customdata-ffi.c\<close> has no code of its own.
  An exception is a fault that ends the run, except in \<open>Exceptions\<close> and \<open>Cs_Abort\<close>, where those of the
  client and of its callbacks are caught; exceptions of spans and arrays remain faults there too. In the C# binding the client of a writer is the list of its calls
  (\<open>writer_call\<close>), the array from the pool holds anything, and the generated bindings are taken to
  call the operators of the core theories.
\<close>

section \<open>From the sender to the receiver\<close>

lemma package_travels:
  assumes "tx_parse_args topts = Some (tpath, chunk, sender)"
    and "mp_session_tx_load (tfs tpath) = Some \<lparr> tx_magic = MP_SESSION_SEND_MAGIC,
      tx_transmission_unit = tu, session_coord = \<lparr> coord_sender_id = old_sender,
        coord_package_id = package, coord_offset = 0 \<rparr> \<rparr>"
    and "require_session_file ropts = Some rpath"
    and "mp_session_rx_load (rfs rpath) = Some (\<lparr> rx_magic = MP_SESSION_RECV_MAGIC,
      rx_transmission_unit = tu, session_state = zero_state \<rparr>, buf)"
    and "4 < unat tu" and "unat tu \<le> 4096"
    and "reads_progress inp" and "out_writes out = []"
    and "package_ok (tu - 4) k (length (in_bytes inp))" and "k = length (in_bytes inp) div unat (tu - 4)"
    and "length (in_bytes inp) \<le> length buf"
    and "set ids \<union> {i} = {..k}" and "set ids \<noteq> {..k}"
  shows "\<exists>frames tfs' inp' out'. cmd_tx topts tfs inp out = Inr (0, tfs', inp', out') \<and>
    out_bytes out' = out_bytes out @ concat frames \<and> length frames = Suc k \<and>
    (\<forall>rinp rout. in_bytes rinp = concat (map (nth frames) (ids @ [i])) \<longrightarrow> reads_progress rinp \<longrightarrow>
      out_writes rout = [] \<longrightarrow>
      (\<exists>rfs' rinp' rout'. cmd_rx ropts rfs rinp rout = Inr (0, rfs', rinp', rout') \<and>
        out_bytes rout' = out_bytes rout @ in_bytes inp))"
proof -
  let ?mp = "tu - 4" and ?sender = "ucast sender :: u8" and ?bytes = "in_bytes inp"
  have "unat sender < 8"
    using tx_parse_args_range [OF assms(1)] by (simp add: word_less_nat_alt)
  moreover have "unat ?mp = unat tu - 4" using assms(5) by (simp add: unat_sub_if' word_le_nat_alt)
  ultimately have wire: "wire_ok ?mp ?sender"
    using assms(6) by (simp add: wire_ok_def word_less_nat_alt unat_u16_to_u8)
  have unit: "unat ?mp + 4 = unat tu" using \<open>unat ?mp = unat tu - 4\<close> assms(5) by simp
  obtain frames tfs' inp' out' where sent: "cmd_tx topts tfs inp out = Inr (0, tfs', inp', out')"
      "out_bytes out' = out_bytes out @ concat frames"
      "package_frames ?mp ?sender package ?bytes frames"
    using cmd_tx_sends [where fs = tfs and path = tpath, OF assms(1,2), of old_sender package inp out] assms(5-8) by auto
  note ok = assms(9) [unfolded assms(10)]
  have frame: "carries_slice ?mp ?sender package k ?bytes j (frames ! j)"
      "length (frames ! j) = unat tu" if "j \<le> k" for j
    using package_frames_carry [OF ok wire sent(3), of j] that unit by (simp_all add: assms(10))
  have ids: "\<forall>j\<in>set (ids @ [i]). j \<le> k" using assms(12) by auto
  have carry: "list_all2 (carries_slice ?mp ?sender package k ?bytes) (ids @ [i]) (map (nth frames) (ids @ [i]))"
    using package_frames_arrive [OF ok wire sent(3), of "ids @ [i]"] ids by (simp only: assms(10))
  have len: "list_all (\<lambda>f. length f = unat tu) (map (nth frames) (ids @ [i]))"
    using ids frame(2) by (simp add: list_all_iff del: map_append)
  have "\<exists>rfs' rinp' rout'. cmd_rx ropts rfs rinp rout = Inr (0, rfs', rinp', rout') \<and>
      out_bytes rout' = out_bytes rout @ ?bytes"
    if "in_bytes rinp = concat (map (nth frames) (ids @ [i]))" "reads_progress rinp"
      "out_writes rout = []" for rinp rout
    using cmd_rx_receives [where fs = rfs and path = rpath, OF assms(3,4,9,11,5) wire carry len assms(12,13) that] by blast
  moreover have "length frames = Suc k"
    using package_frames_carry(3) [OF ok wire sent(3), of 0] by (simp add: assms(10))
  ultimately show ?thesis using sent(1,2) by blast
qed

text \<open>The two session files of the pipeline.\<close>

lemma config_both:
  assumes "7 \<le> atoi mtu" and "atoi mtu \<le> 4096" and "tu = of_int (atoi mtu)"
  shows "\<exists>tout rout.
    cmd_config (config_args mtu ''tx'') \<lparr> out_bytes = [], out_writes = [] \<rparr> = (0, tout) \<and>
    cmd_config (config_args mtu ''rx'') \<lparr> out_bytes = [], out_writes = [] \<rparr> = (0, rout) \<and>
    mp_session_tx_load (Some (out_bytes tout)) = Some \<lparr> tx_magic = MP_SESSION_SEND_MAGIC,
      tx_transmission_unit = tu,
      session_coord = \<lparr> coord_sender_id = 0, coord_package_id = 0, coord_offset = 0 \<rparr> \<rparr> \<and>
    mp_session_rx_load (Some (out_bytes rout)) = Some (\<lparr> rx_magic = MP_SESSION_RECV_MAGIC,
      rx_transmission_unit = tu, session_state = zero_state \<rparr>, replicate (256 * unat (tu - 6)) 0)"
  using config_tx [of mtu "\<lparr> out_bytes = [], out_writes = [] \<rparr>"]
    config_rx [of mtu "\<lparr> out_bytes = [], out_writes = [] \<rparr>"] assms by auto

section \<open>Properties\<close>

text \<open>C2: What goes into \<open>tx\<close> comes out of \<open>rx\<close>. \<open>tx\<close> turns its input into the frames
  of one package, and if the frames reach \<open>rx\<close> in any order, any of them any number of times, up
  to the last missing one, \<open>rx\<close> appends exactly the input of \<open>tx\<close> to its output. This holds
  however the reads on both sides cut the data, for a transmission unit of 5 to 4096 bytes and a
  non-empty input within the 16-bit offsets of a package that fits the receiver's assembly buffer.\<close>

theorem tx_to_rx:
  assumes "tx_parse_args topts = Some (tpath, chunk, sender)"
    and "mp_session_tx_load (tfs tpath) = Some \<lparr> tx_magic = MP_SESSION_SEND_MAGIC,
      tx_transmission_unit = tu, session_coord = \<lparr> coord_sender_id = old_sender,
        coord_package_id = package, coord_offset = 0 \<rparr> \<rparr>"
    and "require_session_file ropts = Some rpath"
    and "mp_session_rx_load (rfs rpath) = Some (\<lparr> rx_magic = MP_SESSION_RECV_MAGIC,
      rx_transmission_unit = tu, session_state = zero_state \<rparr>, buf)"
    and "4 < unat tu" and "unat tu \<le> 4096"
    and "reads_progress inp" and "out_writes out = []"
    and "package_ok (tu - 4) k (length (in_bytes inp))" and "k = length (in_bytes inp) div unat (tu - 4)"
    and "length (in_bytes inp) \<le> length buf"
    and "set ids \<union> {i} = {..k}" and "set ids \<noteq> {..k}"
  shows "\<exists>frames tfs' inp' out'. cmd_tx topts tfs inp out = Inr (0, tfs', inp', out') \<and>
    out_bytes out' = out_bytes out @ concat frames \<and> length frames = Suc k \<and>
    (\<forall>rinp rout. in_bytes rinp = concat (map (nth frames) (ids @ [i])) \<longrightarrow> reads_progress rinp \<longrightarrow>
      out_writes rout = [] \<longrightarrow>
      (\<exists>rfs' rinp' rout'. cmd_rx ropts rfs rinp rout = Inr (0, rfs', rinp', rout') \<and>
        out_bytes rout' = out_bytes rout @ in_bytes inp))"
  using assms by (rule package_travels)

theorem tx_to_rx_witness:
  "\<exists>frames tfs' inp' out'. cmd_tx [(CHR ''s'', ''a''), (CHR ''S'', ''3'')]
      [''a'' \<mapsto> mp_session_tx_save \<lparr> tx_magic = MP_SESSION_SEND_MAGIC, tx_transmission_unit = 8,
        session_coord = \<lparr> coord_sender_id = 0, coord_package_id = 7, coord_offset = 0 \<rparr> \<rparr>]
      \<lparr> in_bytes = [1, 2, 3, 4, 5], in_reads = [Some 2] \<rparr> \<lparr> out_bytes = [], out_writes = [] \<rparr> =
      Inr (0, tfs', inp', out') \<and>
    out_bytes out' = out_bytes \<lparr> out_bytes = [], out_writes = [] \<rparr> @ concat frames \<and>
    length frames = Suc 1 \<and>
    (\<forall>rinp rout. in_bytes rinp = concat (map (nth frames) ([1, 1] @ [0])) \<longrightarrow> reads_progress rinp \<longrightarrow>
      out_writes rout = [] \<longrightarrow>
      (\<exists>rfs' rinp' rout'. cmd_rx [(CHR ''s'', ''b'')]
          [''b'' \<mapsto> mp_session_rx_save \<lparr> rx_magic = MP_SESSION_RECV_MAGIC,
            rx_transmission_unit = 8, session_state = zero_state \<rparr> (replicate 512 0)] rinp rout =
          Inr (0, rfs', rinp', rout') \<and>
        out_bytes rout' = out_bytes rout @
          in_bytes \<lparr> in_bytes = [1, 2, 3, 4, 5], in_reads = [Some 2] \<rparr>))"
proof (rule tx_to_rx [where tu = 8 and tpath = "''a''" and rpath = "''b''" and chunk = 64 and sender = 3
      and old_sender = 0 and package = 7 and buf = "replicate 512 0"])
  show "mp_session_rx_load ([''b'' \<mapsto> mp_session_rx_save \<lparr> rx_magic = MP_SESSION_RECV_MAGIC,
        rx_transmission_unit = 8, session_state = zero_state \<rparr> (replicate 512 0)] ''b'') =
      Some (\<lparr> rx_magic = MP_SESSION_RECV_MAGIC, rx_transmission_unit = 8,
        session_state = zero_state \<rparr>, replicate 512 0)"
    by (simp add: rx_session_load_saved rx_total_size_def sizeof_mp_header_meta_def)
  show "set [1, 1] \<union> {0} = {..1 :: nat}" "set [1, 1] \<noteq> {..1 :: nat}"
    by (auto simp: atMost_Suc numeral_eq_Suc)
qed (simp_all add: tx_parse_args_def DEFAULT_STDIN_BUF_SIZE_def atoi_def is_space_def
    mp_session_tx_load_def mp_session_tx_save_def require_session_file_def reads_progress_def
    package_ok_def)

text \<open>C1: The documented pipeline works from nothing: \<open>config\<close> makes a sender's and a
  receiver's session file for the same transmission unit of 7 to 4096 bytes, \<open>tx\<close> with the first
  turns its input into frames, and \<open>rx\<close> with the second turns the frames, in any order and with
  repetitions up to the last missing one, back into that input, all four exiting with 0. The input is
  not empty, within the 16-bit offsets of a package, and fits the receiver's buffer. (What frames that
  come after the last missing one do is C15: they are taken for another package.)\<close>

theorem tools_pipeline:
  assumes "getopt_long ''m:t:h'' [''config'', ca] = config_args mtu ''tx''"
    and "getopt_long ''m:t:h'' [''config'', cb] = config_args mtu ''rx''"
    and "getopt_long ''s:b:S:h'' [''tx'', ta] = [(CHR ''s'', tpath)]"
    and "getopt_long ''s:h'' [''rx'', ra] = [(CHR ''s'', rpath)]"
    and "7 \<le> atoi mtu" and "atoi mtu \<le> 4096" and "tu = of_int (atoi mtu)"
    and "reads_progress inp"
    and "package_ok (tu - 4) k (length (in_bytes inp))" and "k = length (in_bytes inp) div unat (tu - 4)"
    and "length (in_bytes inp) \<le> 256 * unat (tu - 6)"
    and "set ids \<union> {i} = {..k}" and "set ids \<noteq> {..k}"
  shows "\<exists>tout rout sout frames tfs inp'.
    main getopt_long [prog, ''config'', ca] fs i1 \<lparr> out_bytes = [], out_writes = [] \<rparr> =
      Inr (0, fs, i1, tout) \<and>
    main getopt_long [prog, ''config'', cb] fs i1 \<lparr> out_bytes = [], out_writes = [] \<rparr> =
      Inr (0, fs, i1, rout) \<and>
    main getopt_long [prog, ''tx'', ta] (fs(tpath \<mapsto> out_bytes tout)) inp
      \<lparr> out_bytes = [], out_writes = [] \<rparr> = Inr (0, tfs, inp', sout) \<and>
    out_bytes sout = concat frames \<and> length frames = Suc k \<and>
    (\<exists>rfs rinp' dout. main getopt_long [prog, ''rx'', ra] (fs(rpath \<mapsto> out_bytes rout))
        \<lparr> in_bytes = concat (map (nth frames) (ids @ [i])), in_reads = [] \<rparr>
        \<lparr> out_bytes = [], out_writes = [] \<rparr> = Inr (0, rfs, rinp', dout) \<and>
      out_bytes dout = in_bytes inp)"
proof -
  let ?e = "\<lparr> out_bytes = [], out_writes = [] \<rparr>"
  have tu: "4 < unat tu" "unat tu \<le> 4096"
    using assms(5-7) by (simp_all add: unat_u16_of_int)
  obtain tout rout where cfg: "cmd_config (config_args mtu ''tx'') ?e = (0, tout)"
        "cmd_config (config_args mtu ''rx'') ?e = (0, rout)"
      and tout: "mp_session_tx_load (Some (out_bytes tout)) = Some \<lparr> tx_magic = MP_SESSION_SEND_MAGIC,
        tx_transmission_unit = tu,
        session_coord = \<lparr> coord_sender_id = 0, coord_package_id = 0, coord_offset = 0 \<rparr> \<rparr>"
      and rout: "mp_session_rx_load (Some (out_bytes rout)) = Some (\<lparr> rx_magic = MP_SESSION_RECV_MAGIC,
        rx_transmission_unit = tu, session_state = zero_state \<rparr>,
        replicate (256 * unat (tu - 6)) 0)"
    using config_both [OF assms(5-7)] by blast
  have targs: "tx_parse_args [(CHR ''s'', tpath)] = Some (tpath, 64, 0)"
    and rargs: "require_session_file [(CHR ''s'', rpath)] = Some rpath"
    by (simp_all add: tx_parse_args_def DEFAULT_STDIN_BUF_SIZE_def require_session_file_def)
  have fits: "length (in_bytes inp) \<le> length (replicate (256 * unat (tu - 6)) (0 :: u8))"
    using assms(11) by simp
  have tload: "mp_session_tx_load ((fs(tpath \<mapsto> out_bytes tout)) tpath) = Some \<lparr> tx_magic =
        MP_SESSION_SEND_MAGIC, tx_transmission_unit = tu,
        session_coord = \<lparr> coord_sender_id = 0, coord_package_id = 0, coord_offset = 0 \<rparr> \<rparr>"
    and rload: "mp_session_rx_load ((fs(rpath \<mapsto> out_bytes rout)) rpath) = Some (\<lparr> rx_magic =
        MP_SESSION_RECV_MAGIC, rx_transmission_unit = tu, session_state = zero_state \<rparr>,
        replicate (256 * unat (tu - 6)) 0)"
    using tout rout by simp_all
  have env: "out_writes ?e = []" "reads_progress \<lparr> in_bytes = bs, in_reads = [] \<rparr>" for bs
    by (simp_all add: reads_progress_def)
  obtain frames tfs inp' sout where sent:
      "cmd_tx [(CHR ''s'', tpath)] (fs(tpath \<mapsto> out_bytes tout)) inp ?e = Inr (0, tfs, inp', sout)"
      "out_bytes sout = concat frames" "length frames = Suc k"
      "\<forall>rinp rout'. in_bytes rinp = concat (map (nth frames) (ids @ [i])) \<longrightarrow> reads_progress rinp \<longrightarrow>
        out_writes rout' = [] \<longrightarrow> (\<exists>rfs' rinp' rout''.
          cmd_rx [(CHR ''s'', rpath)] (fs(rpath \<mapsto> out_bytes rout)) rinp rout' =
            Inr (0, rfs', rinp', rout'') \<and> out_bytes rout'' = out_bytes rout' @ in_bytes inp)"
    using package_travels [where tfs = "fs(tpath \<mapsto> out_bytes tout)" and tpath = tpath and
        rfs = "fs(rpath \<mapsto> out_bytes rout)" and rpath = rpath,
        OF targs tload rargs rload tu assms(8) env(1) assms(9,10) fits assms(12,13)]
    by auto
  obtain rfs rinp' dout where
      "cmd_rx [(CHR ''s'', rpath)] (fs(rpath \<mapsto> out_bytes rout))
        \<lparr> in_bytes = concat (map (nth frames) (ids @ [i])), in_reads = [] \<rparr> ?e =
        Inr (0, rfs, rinp', dout)" "out_bytes dout = in_bytes inp"
    using sent(4) [rule_format, OF _ env(2) env(1), of "concat (map (nth frames) (ids @ [i]))"]
    by auto
  then show ?thesis
    using cfg sent(1-3) assms(1-4) by (simp add: main_def) blast
qed

theorem tools_pipeline_witness:
  "\<exists>tout rout sout frames tfs inp'.
    main (\<lambda>s argv. if s = ''m:t:h'' then config_args ''8'' (argv ! 1)
          else [(CHR ''s'', argv ! 1)]) [''mp'', ''config'', ''tx''] (\<lambda>p. None)
        \<lparr> in_bytes = [], in_reads = [] \<rparr> \<lparr> out_bytes = [], out_writes = [] \<rparr> =
      Inr (0, \<lambda>p. None, \<lparr> in_bytes = [], in_reads = [] \<rparr>, tout) \<and>
    main (\<lambda>s argv. if s = ''m:t:h'' then config_args ''8'' (argv ! 1)
          else [(CHR ''s'', argv ! 1)]) [''mp'', ''config'', ''rx''] (\<lambda>p. None)
        \<lparr> in_bytes = [], in_reads = [] \<rparr> \<lparr> out_bytes = [], out_writes = [] \<rparr> =
      Inr (0, \<lambda>p. None, \<lparr> in_bytes = [], in_reads = [] \<rparr>, rout) \<and>
    main (\<lambda>s argv. if s = ''m:t:h'' then config_args ''8'' (argv ! 1)
          else [(CHR ''s'', argv ! 1)]) [''mp'', ''tx'', ''a''] ((\<lambda>p. None)(''a'' \<mapsto> out_bytes tout))
        \<lparr> in_bytes = [1, 2, 3, 4, 5], in_reads = [Some 2] \<rparr> \<lparr> out_bytes = [], out_writes = [] \<rparr> =
      Inr (0, tfs, inp', sout) \<and>
    out_bytes sout = concat frames \<and> length frames = Suc 1 \<and>
    (\<exists>rfs rinp' dout. main (\<lambda>s argv. if s = ''m:t:h'' then config_args ''8'' (argv ! 1)
          else [(CHR ''s'', argv ! 1)]) [''mp'', ''rx'', ''b''] ((\<lambda>p. None)(''b'' \<mapsto> out_bytes rout))
        \<lparr> in_bytes = concat (map (nth frames) ([1, 1] @ [0])), in_reads = [] \<rparr>
        \<lparr> out_bytes = [], out_writes = [] \<rparr> = Inr (0, rfs, rinp', dout) \<and>
      out_bytes dout = in_bytes \<lparr> in_bytes = [1, 2, 3, 4, 5], in_reads = [Some 2] \<rparr>)"
proof (rule tools_pipeline [where mtu = "''8''" and tu = 8])
  show "set [1, 1] \<union> {0} = {..1 :: nat}" "set [1, 1] \<noteq> {..1 :: nat}"
    by (auto simp: atMost_Suc numeral_eq_Suc)
qed (simp_all add: atoi_def is_space_def reads_progress_def package_ok_def)

text \<open>A message goes through the embedded layer unharmed. The encoder sends the nanopb
  encoding of a message as the frames of one package; if the frames reach the decoder in any order,
  any of them any number of times, up to the last missing one, the call for that frame returns true
  and the message callback is called with what nanopb decodes from the whole encoding, whatever
  pieces nanopb wrote it in and reads it in. The user callbacks on both sides do what the headers
  ask of them.\<close>

lemma message_roundtrip:
  assumes "block_device einst mp eok block frames" and "eok eu"
    and "mp = mp_max_payload (enc_config einst)" and "dec_config dinst = enc_config einst"
    and "4 < unat (transmission_unit (enc_config einst))"
    and "pb_encode fields1 message = (pieces, True)" and "list_all (\<lambda>d. length d < 65536) pieces"
    and "package_ok mp k (length (concat pieces))" and "k = length (concat pieces) div unat mp"
    and "wire_ok mp (enc_sender_id einst)"
    and "dec_idle put get cap dok w" and "message_callback dinst dok" and "length (concat pieces) \<le> cap"
    and "pulls_within (pb_decode (output_fields dinst) (length (concat pieces)) (dec_msg w)) (concat pieces)"
    and "run_bytes (pb_decode (output_fields dinst) (length (concat pieces)) (dec_msg w)) (concat pieces) =
      (True, message')"
    and "set ids \<union> {i} = {..k}" and "set ids \<noteq> {..k}"
  shows "\<exists>eu' fs w' u. mp_pb_encode pb_encode einst eu fields1 message package = Inr (True, eu') \<and>
    eok eu' \<and> frames eu' = frames eu @ fs \<and> length fs = Suc k \<and>
    decode_frames (fst (mp_pb_decode_init pb_decode dinst put get w0)) w (map (nth fs) (ids @ [i])) =
      Inr (replicate (length ids) (last_decode_ok w) @ [True], w') \<and>
    dec_idle put get cap dok w' \<and> on_message dinst message' u = Inr (dec_msg w', dec_user w')"
proof -
  let ?bytes = "concat pieces"
  have nonempty: "?bytes \<noteq> []" using package_okD(4) [OF assms(8)] by auto
  obtain eu' fs where sent: "mp_pb_encode pb_encode einst eu fields1 message package = Inr (True, eu')"
      "eok eu'" "frames eu' = frames eu @ fs" "package_frames mp (enc_sender_id einst) package ?bytes fs"
    using encode_package [where pb_encode = pb_encode and package = package,
        OF assms(1) [unfolded assms(3)] assms(2,5,6) nonempty assms(7)]
    by (auto simp: assms(3))
  note ok = assms(8) [unfolded assms(9)]
  have carry: "list_all2 (carries_slice (mp_max_payload (dec_config dinst)) (enc_sender_id einst)
      package k ?bytes) (ids @ [i]) (map (nth fs) (ids @ [i]))"
    using package_frames_arrive [OF ok assms(10) sent(4), of "ids @ [i]"] assms(3,4,16)
    by (auto simp: assms(9))
  obtain w' where "decode_frames (dec_stream pb_decode dinst put get) w (map (nth fs) (ids @ [i])) =
        Inr (replicate (length ids) (last_decode_ok w) @ [last_decode_ok w'], w')"
      "dec_done pb_decode dinst put get cap dok dok ?bytes (dec_msg w) w'"
    using decode_package [where pb_decode = pb_decode and w = w, OF assms(11,12) _ _ assms(13,14) carry assms(16,17)] assms(3,4,8,10) by auto
  moreover have "length fs = Suc k"
    using package_frames_carry(3) [OF ok assms(10) sent(4), of 0] by (simp add: assms(9))
  ultimately show ?thesis
    using sent(1-3) assms(15) by (auto simp: decode_init_stream dec_done_def)
qed

lemma message_roundtrip_witness:
  "\<exists>eu' fs w' u. mp_pb_encode (\<lambda>(f :: unit) m. ([[of_nat (length m)], m], True)) (memory_device 8 3)
      (replicate 8 0, []) () [1, 2, 3, 4, 5] 9 = Inr (True, eu') \<and>
    length (fst eu') = 8 \<and> snd eu' = [] @ fs \<and> length fs = Suc 1 \<and>
    decode_frames (fst (mp_pb_decode_init sized_decode (array_decoder 8) array_put array_get
        \<lparr> dec_state = zero_state, last_decode_ok = False, dec_msg = [], dec_user = ([], []) \<rparr>))
      \<lparr> dec_state = zero_state, last_decode_ok = True, dec_msg = [], dec_user = (replicate 16 0, []) \<rparr>
      (map (nth fs) ([1, 1] @ [0])) = Inr ([True, True, True], w') \<and>
    dec_idle array_put array_get 16 (\<lambda>u. length (fst u) = 16) w' \<and>
    on_message (array_decoder 8) [1, 2, 3, 4, 5] u = Inr (dec_msg w', dec_user w')"
proof -
  let ?w = "\<lparr> dec_state = zero_state, last_decode_ok = True, dec_msg = [],
    dec_user = (replicate 16 0, []) \<rparr> :: (u8 list, u8 list \<times> u8 list list) dec_world"
  let ?ps = "[[5], [1, 2, 3, 4, 5]] :: u8 list list" and ?enc = "memory_device 8 3"
  let ?ok = "\<lambda>u :: u8 list \<times> u8 list list. length (fst u) = 16"
  have cfg: "dec_config (array_decoder 8) = enc_config ?enc"
    and mp: "4 = mp_max_payload (enc_config ?enc)" and sender: "wire_ok 4 (enc_sender_id ?enc)"
    and tu: "4 < unat (transmission_unit (enc_config ?enc))"
    by (simp_all add: array_decoder_def memory_device_def mp_max_payload_def MP_HEADER_SIZE_def wire_ok_def)
  have ok: "package_ok 4 1 (length (concat ?ps))" "1 = length (concat ?ps) div unat (4 :: u16)"
    by (simp_all add: package_ok_def)
  have idle: "dec_idle array_put array_get 16 ?ok ?w"
    using array_memory by (simp add: dec_idle_def dec_ok_def bitmap_wf_def zero_state_def)
  have nano: "pulls_within (sized_decode (output_fields (array_decoder 8)) (length (concat ?ps)) (dec_msg ?w))
      (concat ?ps)"
    "run_bytes (sized_decode (output_fields (array_decoder 8)) (length (concat ?ps)) (dec_msg ?w))
      (concat ?ps) = (True, [1, 2, 3, 4, 5])"
    by (simp_all add: sized_decode_def)
  have ids: "set [1, 1] \<union> {0} = {..1 :: nat}" "set [1, 1] \<noteq> {..1 :: nat}"
    by (auto simp: atMost_Suc numeral_eq_Suc)
  have dev: "block_device ?enc 4 (\<lambda>u. length (fst u) = 8) fst snd"
    using memory_device_ok [of 8 3 4] by simp
  have enc: "(\<lambda>(f :: unit) m. ([[of_nat (length m)], m], True)) () [1, 2, 3, 4, 5] = (?ps, True)"
    and fits: "length (concat ?ps) \<le> 16" "list_all (\<lambda>d. length d < 65536) ?ps"
    and start: "length (fst (replicate 8 (0 :: u8), [] :: u8 list list)) = 8"
    by simp_all
  show ?thesis
    using message_roundtrip [where pb_encode = "\<lambda>(f :: unit) m. ([[of_nat (length m)], m], True)"
        and pb_decode = sized_decode and package = 9 and
        ?w0.0 = "\<lparr> dec_state = zero_state, last_decode_ok = False, dec_msg = [], dec_user = ([], []) \<rparr>",
        OF dev start mp cfg tu enc fits(2) ok sender idle array_callback fits(1) nano ids]
    by simp
qed

section \<open>Between the C layer and the C++ binding\<close>

text \<open>The embedded C encoder and the C++ decoder understand each other. The frames the encoder sends
  for a message, pushed into a new decoder of the same unit in any order, any of them any number of
  times, up to the last missing one, make it parse exactly the bytes nanopb wrote and tell its
  observer once.\<close>

lemma embedded_to_cpp:
  assumes "block_device einst mp eok block frames" and "eok eu"
    and "mp = mp_max_payload (enc_config einst)" and "4 < unat (transmission_unit (enc_config einst))"
    and "pb_encode fields1 message = (pieces, True)" and "list_all (\<lambda>d. length d < 65536) pieces"
    and "package_ok mp k (length (concat pieces))" and "k = length (concat pieces) div unat mp"
    and "wire_ok mp (enc_sender_id einst)"
    and "new_RxDecoder (int (unat (transmission_unit (enc_config einst)))) observer parse metas u = (d, w)"
    and "length metas = 8"
    and "set ids \<union> {i} = {..k}" and "set ids \<noteq> {..k}"
  shows "\<exists>eu' fs. mp_pb_encode pb_encode einst eu fields1 message package = Inr (True, eu') \<and>
    frames eu' = frames eu @ fs \<and> length fs = Suc k \<and>
    bindE (push_blocks d w (map (nth fs) (ids @ [i]))) (\<lambda>w'. Inr (observed w')) =
      (case parse (concat pieces) of None \<Rightarrow> Inr u | Some msg \<Rightarrow> observer msg u)"
proof -
  let ?bytes = "concat pieces"
  have nonempty: "?bytes \<noteq> []" using package_okD(4) [OF assms(7)] by auto
  obtain eu' fs where sent: "mp_pb_encode pb_encode einst eu fields1 message package = Inr (True, eu')"
      "frames eu' = frames eu @ fs" "package_frames mp (enc_sender_id einst) package ?bytes fs"
    using encode_package [where pb_encode = pb_encode and package = package,
        OF assms(1) [unfolded assms(3)] assms(2,4,5) nonempty assms(6)]
    by (auto simp: assms(3))
  note ok = assms(7) [unfolded assms(8)]
  have carry: "list_all2 (carries_slice mp (enc_sender_id einst) package k ?bytes)
      (ids @ [i]) (map (nth fs) (ids @ [i]))"
    using package_frames_arrive [OF ok assms(9) sent(3), of "ids @ [i]"] assms(12) by (auto simp: assms(8))
  have mp: "mp_max_payload (RxDecoder_config d) = mp"
    using assms(10) by (auto simp: new_RxDecoder_def assms(3) mp_max_payload_def)
  have "deliver_message d ?bytes u = (case parse ?bytes of None \<Rightarrow> Inr u | Some msg \<Rightarrow> observer msg u)"
    using assms(10) by (auto simp: new_RxDecoder_def deliver_message_def split: option.split)
  moreover have "length fs = Suc k"
    using package_frames_carry(3) [OF ok assms(9) sent(3), of 0] by (simp add: assms(8))
  ultimately show ?thesis
    using sent(1,2) decoder_delivers_package [OF assms(11,10) mp assms(7,9) carry assms(12,13)] by auto
qed

lemma embedded_to_cpp_witness:
  "\<exists>eu' fs. mp_pb_encode (\<lambda>(f :: unit) m. ([[of_nat (length m)], m], True)) (memory_device 8 3)
      (replicate 8 0, []) () [1, 2, 3, 4, 5] 9 = Inr (True, eu') \<and>
    snd eu' = [] @ fs \<and> length fs = Suc 1 \<and>
    bindE (push_blocks (fst example_decoder) (snd example_decoder) (map (nth fs) ([1, 1] @ [0])))
      (\<lambda>w'. Inr (observed w')) = Inr [[5, 1, 2, 3, 4, 5]]"
proof -
  let ?ps = "[[5], [1, 2, 3, 4, 5]] :: u8 list list" and ?enc = "memory_device 8 3"
  have dev: "block_device ?enc 4 (\<lambda>u. length (fst u) = 8) fst snd"
    using memory_device_ok [of 8 3 4] by simp
  have mp: "4 = mp_max_payload (enc_config ?enc)" and sender: "wire_ok 4 (enc_sender_id ?enc)"
    and tu: "4 < unat (transmission_unit (enc_config ?enc))"
    and unit: "int (unat (transmission_unit (enc_config ?enc))) = 8"
    by (simp_all add: memory_device_def mp_max_payload_def MP_HEADER_SIZE_def wire_ok_def)
  have ok: "package_ok 4 1 (length (concat ?ps))" "1 = length (concat ?ps) div unat (4 :: u16)"
    by (simp_all add: package_ok_def)
  have ids: "set [1, 1] \<union> {0} = {..1 :: nat}" "set [1, 1] \<noteq> {..1 :: nat}"
    by (auto simp: atMost_Suc numeral_eq_Suc)
  show ?thesis
    using embedded_to_cpp [where pb_encode = "\<lambda>(f :: unit) m. ([[of_nat (length m)], m], True)"
        and package = 9 and message = "[1, 2, 3, 4, 5]" and pieces = ?ps and eu = "(replicate 8 0, [])",
        OF dev _ mp tu _ _ ok sender example_decoder_new [folded unit] _ ids]
    by simp
qed

text \<open>C13: The C++ encoder and the embedded C decoder understand each other. The frames \<open>Push\<close> hands to
  the observer, pushed into the decoder in any order with repetitions up to the last missing one,
  complete with a call that returns true, and the message callback is called with what nanopb
  decodes from the bytes protobuf wrote. The last slice of the C++ encoder may be full; no empty
  slice follows it. The message is not empty and within the 16-bit offsets of a package, the
  decoder's memory holds it, and nanopb decodes it pulling into buffers no more bytes than are left.\<close>

theorem cpp_to_embedded:
  assumes "core_next core = collect_frames" and "mp = core_tu core - 4" and "4 < core_tu core"
    and "wire_ok mp (core_sender_id core)" and "length buffer = unat (core_tu core)"
    and "serializes mp serialize bytes_of m" and "k = last_slice mp (bytes_of m)"
    and "mp_max_payload (dec_config dinst) = mp"
    and "dec_idle put get cap dok w" and "message_callback dinst dok" and "length (bytes_of m) \<le> cap"
    and "pulls_within (pb_decode (output_fields dinst) (length (bytes_of m)) (dec_msg w)) (bytes_of m)"
    and "run_bytes (pb_decode (output_fields dinst) (length (bytes_of m)) (dec_msg w)) (bytes_of m) = (True, message')"
    and "set ids \<union> {i} = {..k}" and "set ids \<noteq> {..k}"
  shows "\<exists>core' fs w' u. TxEncoderCore_Push serialize core [] m buffer = Inr (True, core', fs) \<and>
    decode_frames (fst (mp_pb_decode_init pb_decode dinst put get w0)) w (map (nth fs) (ids @ [i])) =
      Inr (replicate (length ids) (last_decode_ok w) @ [True], w') \<and>
    dec_idle put get cap dok w' \<and> on_message dinst message' u = Inr (dec_msg w', dec_user w')"
proof -
  obtain fs where sent: "TxEncoderCore_Push serialize core [] m buffer =
        Inr (True, core\<lparr> current_package_id := current_package_id core + 1 \<rparr>, fs)"
      "\<forall>i\<le>k. carries_slice mp (core_sender_id core) (current_package_id core) k (bytes_of m) i (fs ! i)"
    using push_message [OF assms(1-6)] by (auto simp: assms(7))
  have ok: "package_ok mp k (length (bytes_of m))" using assms(6) by (simp add: serializes_def assms(7))
  have "\<forall>j\<in>set (ids @ [i]). j \<le> k" using assms(14) by auto
  then have carry: "list_all2 (carries_slice mp (core_sender_id core) (current_package_id core) k (bytes_of m))
      (ids @ [i]) (map (nth fs) (ids @ [i]))"
    using sent(2) by (simp add: list_all2_map2 list_all2_same del: map_append)
  obtain w' where "decode_frames (dec_stream pb_decode dinst put get) w (map (nth fs) (ids @ [i])) =
        Inr (replicate (length ids) (last_decode_ok w) @ [last_decode_ok w'], w')"
      "dec_done pb_decode dinst put get cap dok dok (bytes_of m) (dec_msg w) w'"
    using decode_package [where pb_decode = pb_decode and w = w and inst = dinst, unfolded assms(8),
        OF assms(9,10) ok assms(4,11,12) carry assms(14,15)] by blast
  then show ?thesis
    using sent(1) assms(13) by (auto simp: decode_init_stream dec_done_def)
qed

theorem cpp_to_embedded_witness:
  "\<exists>core' fs w' u. TxEncoderCore_Push (\<lambda>m n. (zc_calls n (of_nat (length m) # m), True))
      (new_TxEncoderCore 8 3 collect_frames) [] [1, 2, 3, 4, 5, 6, 7] (replicate 8 0) = Inr (True, core', fs) \<and>
    decode_frames (fst (mp_pb_decode_init sized_decode (array_decoder 8) array_put array_get
        \<lparr> dec_state = zero_state, last_decode_ok = False, dec_msg = [], dec_user = ([], []) \<rparr>))
      \<lparr> dec_state = zero_state, last_decode_ok = True, dec_msg = [], dec_user = (replicate 16 0, []) \<rparr>
      (map (nth fs) ([1, 1] @ [0])) = Inr ([True, True, True], w') \<and>
    dec_idle array_put array_get 16 (\<lambda>u. length (fst u) = 16) w' \<and>
    on_message (array_decoder 8) [1, 2, 3, 4, 5, 6, 7] u = Inr (dec_msg w', dec_user w')"
proof -
  let ?w = "\<lparr> dec_state = zero_state, last_decode_ok = True, dec_msg = [],
    dec_user = (replicate 16 0, []) \<rparr> :: (u8 list, u8 list \<times> u8 list list) dec_world"
  let ?m = "[1, 2, 3, 4, 5, 6, 7] :: u8 list" and ?bytes_of = "\<lambda>m :: u8 list. of_nat (length m) # m"
  let ?core = "new_TxEncoderCore 8 3 collect_frames"
  have core: "core_tu ?core = 8" "core_sender_id ?core = 3" "core_next ?core = collect_frames"
    by (simp_all add: new_TxEncoderCore_def)
  have cfg: "mp_max_payload (dec_config (array_decoder 8)) = 4"
    by (simp add: array_decoder_def mp_max_payload_def MP_HEADER_SIZE_def)
  have ser: "serializes 4 (\<lambda>m n. (zc_calls n (?bytes_of m), True)) ?bytes_of ?m"
      "1 = last_slice 4 (?bytes_of ?m)"
    by (simp_all add: serializes_def last_slice_def package_ok_def)
  have idle: "dec_idle array_put array_get 16 (\<lambda>u. length (fst u) = 16) ?w"
    using array_memory by (simp add: dec_idle_def dec_ok_def bitmap_wf_def zero_state_def)
  have nano: "pulls_within (sized_decode (output_fields (array_decoder 8)) (length (?bytes_of ?m)) (dec_msg ?w))
      (?bytes_of ?m)"
    "run_bytes (sized_decode (output_fields (array_decoder 8)) (length (?bytes_of ?m)) (dec_msg ?w))
      (?bytes_of ?m) = (True, ?m)"
    by (simp_all add: sized_decode_def)
  have ids: "set [1, 1] \<union> {0} = {..1 :: nat}" "set [1, 1] \<noteq> {..1 :: nat}"
    by (auto simp: atMost_Suc numeral_eq_Suc)
  have unit: "4 = core_tu ?core - 4" "4 < core_tu ?core" "wire_ok 4 (core_sender_id ?core)"
      "length (replicate 8 (0 :: u8)) = unat (core_tu ?core)" "length (?bytes_of ?m) \<le> 16"
    by (simp_all add: core wire_ok_def)
  show ?thesis
    using cpp_to_embedded [where pb_decode = sized_decode and
        ?w0.0 = "\<lparr> dec_state = zero_state, last_decode_ok = False, dec_msg = [], dec_user = ([], []) \<rparr>",
        OF core(3) unit(1-4) ser cfg idle array_callback unit(5) nano ids]
    by simp
qed

end
